(* ===== verification/Prelude.thy ===== *)
theory Prelude
  imports Main "HOL-Library.Word" "HOL-Library.Monad_Syntax"
begin

text \<open>
  Shared vocabulary of the development: the widths of the C integers, the error numbers the
  sources return, digests and their byte-wise comparison, and generic lemmas on words, options
  and lists that the component theories use.

  Conventions.
  \<^item> A C integer whose wrap-around can be observed is a word (\<open>u64\<close>, \<open>u32\<close>); an \<open>int\<close> return
    code is an \<open>int\<close>.
  \<^item> A function that can abort the process (\<open>abort_on\<close>, \<open>abort_lineno\<close>, \<open>assert\<close>, or a write
    through a NULL pointer) returns an \<open>option\<close>, and \<open>None\<close> is that abnormal end. An error the C
    code reports to its caller is an ordinary return value.
  \<^item> A pointer to a \<open>struct filerec\<close> is its address, \<open>fptr\<close>: the trees that are ordered by that
    pointer compare addresses.
\<close>

type_synonym u64 = "64 word"
type_synonym u32 = "32 word"
type_synonym u8 = "8 word"
type_synonym fptr = nat
type_synonym digest = "u8 list"

named_theorems cmp_simps \<open>definitions of the comparison functions\<close>
named_theorems inv_defs \<open>definitions of the component invariants\<close>

abbreviation (input) ENOENT :: int where "ENOENT \<equiv> 2"
abbreviation (input) EIO :: int where "EIO \<equiv> 5"
abbreviation (input) ENOMEM :: int where "ENOMEM \<equiv> 12"
abbreviation (input) EINVAL :: int where "EINVAL \<equiv> 22"

definition DIGEST_LEN :: nat where
  "DIGEST_LEN = 16"

definition MAX_DEDUPES_PER_IOCTL :: u32 where
  "MAX_DEDUPES_PER_IOCTL = 120"

definition abort_on :: "bool \<Rightarrow> unit option" where
  "abort_on condition = (if condition then None else Some ())"

text \<open>
  \<open>memcmp\<close> of the C library: the sign of the first difference of two byte strings. The program
  calls it on arrays of the same length only; a shorter list sorts first here, so that the
  comparison is a total order on all lists.
\<close>

fun memcmp :: "digest \<Rightarrow> digest \<Rightarrow> int" where
  "memcmp [] [] = 0"
| "memcmp [] (b # bs) = -1"
| "memcmp (a # as) [] = 1"
| "memcmp (a # as) (b # bs) = (if a < b then -1 else if b < a then 1 else memcmp as bs)"

definition word_cmp :: "'a::linorder \<Rightarrow> 'a \<Rightarrow> int" where
  "word_cmp a b = (if a < b then -1 else if b < a then 1 else 0)"

section \<open>Generic lemmas\<close>

lemma abort_on_simps [simp]:
  "abort_on True = None"
  "abort_on False = Some ()"
  by (simp_all add: abort_on_def)

lemma abort_on_bind [simp]:
  "Option.bind (abort_on c) f = (if c then None else f ())"
  by (simp add: abort_on_def)

lemma memcmp_eq_0_iff [simp]: "memcmp a b = 0 \<longleftrightarrow> a = b"
  by (induction a b rule: memcmp.induct) auto

lemma memcmp_swap: "memcmp b a = - memcmp a b"
  by (induction a b rule: memcmp.induct) auto

lemma memcmp_trans: "memcmp a b < 0 \<Longrightarrow> memcmp b c < 0 \<Longrightarrow> memcmp a c < 0"
proof (induction a b arbitrary: c rule: memcmp.induct)
  case (2 b bs)
  then show ?case by (cases c) auto
next
  case (4 a as b bs)
  then show ?case by (cases c) (auto split: if_splits)
qed auto

lemma word_cmp_simps [simp]:
  "word_cmp a b = 0 \<longleftrightarrow> a = b"
  "word_cmp a b < 0 \<longleftrightarrow> a < b"
  "word_cmp a b > 0 \<longleftrightarrow> b < a"
  by (auto simp: word_cmp_def)

lemma unat_u64 [simp]: "unat (w :: u64) < 18446744073709551616"
  using unsigned_less [of w, where ?'a = nat] by simp

lemma unat_of_nat_u64: "n < 2 ^ 64 \<Longrightarrow> unat (of_nat n :: u64) = n"
  by (simp add: unsigned_of_nat take_bit_nat_eq_self)

lemma unat_pos_iff: "0 < unat w \<longleftrightarrow> w \<noteq> 0"
  by (simp add: unat_gt_0)

lemma word_diff_nat: "a \<le> b \<Longrightarrow> (b :: 'a::len word) - a = of_nat (unat b - unat a)"
  by (simp flip: unat_sub)

end
