(* ===== verification/RbTree.thy ===== *)
theory RbTree
  imports Prelude
begin

text \<open>
  The red-black trees of \<open>rbtree.c\<close>, \<open>rbtree.h\<close> and \<open>rbtree_augmented.h\<close>.

  A \<open>struct rb_node\<close> holds its colour, two children and a link to its parent. A node together
  with its parent link is a zipper: the subtree below the node and the list of \<open>frame\<close>s above it,
  innermost first. A frame is the parent: its colour, its entry and its other child, and the
  constructor says on which side the node hangs (\<open>LeftOf\<close>: the node is \<open>parent->rb_left\<close>).
  Moving to the parent takes one frame off the path, and \<open>__rb_change_child\<close> is implicit in the
  frame, since the subtree that is put back takes the place of the old one.
  The loops that climb the tree are recursions on the path.
  A step that would follow a NULL pointer (a red root's grandparent, a missing sibling) returns
  \<open>None\<close>.
\<close>

datatype rb_color = RB_RED | RB_BLACK

datatype 'a rb_tree =
    RB_NULL
  | RB_Node (rb_color_of: rb_color) (rb_left: "'a rb_tree") (rb_item: 'a) (rb_right: "'a rb_tree")

datatype 'a frame =
    LeftOf rb_color 'a "'a rb_tree"
  | RightOf rb_color "'a rb_tree" 'a

type_synonym 'a path = "'a frame list"
type_synonym 'a cursor = "'a rb_tree \<times> 'a path"

section \<open>Model\<close>

fun rb_set_color :: "rb_color \<Rightarrow> 'a rb_tree \<Rightarrow> 'a rb_tree" where
  "rb_set_color c RB_NULL = RB_NULL"
| "rb_set_color c (RB_Node _ l x r) = RB_Node c l x r"

text \<open>A NULL child counts as black: the sources test \<open>!tmp || rb_is_black(tmp)\<close>.\<close>

fun rb_is_red :: "'a rb_tree \<Rightarrow> bool" where
  "rb_is_red RB_NULL = False"
| "rb_is_red (RB_Node c l x r) = (c = RB_RED)"

fun plug :: "'a rb_tree \<Rightarrow> 'a frame \<Rightarrow> 'a rb_tree" where
  "plug t (LeftOf c x r) = RB_Node c t x r"
| "plug t (RightOf c l x) = RB_Node c l x t"

fun zip_up :: "'a rb_tree \<Rightarrow> 'a path \<Rightarrow> 'a rb_tree" where
  "zip_up t [] = t"
| "zip_up t (f # fs) = zip_up (plug t f) fs"

text \<open>
  \<open>__rb_insert\<close>: one iteration looks at the parent and the grandparent. \<open>node\<close> is the red node
  that may have a red parent.
\<close>

fun rb_insert_loop :: "'a rb_tree \<Rightarrow> 'a path \<Rightarrow> 'a rb_tree option" where
  "rb_insert_loop node [] = Some (rb_set_color RB_BLACK node)"
| "rb_insert_loop node [LeftOf pc px pr] =
     (if pc = RB_BLACK then Some (RB_Node pc node px pr) else None)"
| "rb_insert_loop node [RightOf pc pl px] =
     (if pc = RB_BLACK then Some (RB_Node pc pl px node) else None)"
| "rb_insert_loop node (LeftOf pc px pr # LeftOf gc gx u # fs) =
     (if pc = RB_BLACK then Some (zip_up node (LeftOf pc px pr # LeftOf gc gx u # fs))
      else if rb_is_red u then
        rb_insert_loop
          (RB_Node RB_RED (RB_Node RB_BLACK node px pr) gx (rb_set_color RB_BLACK u)) fs
      else
        Some (zip_up (RB_Node gc node px (RB_Node RB_RED (rb_set_color RB_BLACK pr) gx u)) fs))"
| "rb_insert_loop node (RightOf pc pl px # LeftOf gc gx u # fs) =
     (if pc = RB_BLACK then Some (zip_up node (RightOf pc pl px # LeftOf gc gx u # fs))
      else if rb_is_red u then
        rb_insert_loop
          (RB_Node RB_RED (RB_Node RB_BLACK pl px node) gx (rb_set_color RB_BLACK u)) fs
      else (case node of
          RB_NULL \<Rightarrow> None
        | RB_Node nc nl nx nr \<Rightarrow>
            let parent = RB_Node RB_RED pl px (rb_set_color RB_BLACK nl) in
            Some (zip_up
              (RB_Node gc parent nx (RB_Node RB_RED (rb_set_color RB_BLACK nr) gx u)) fs)))"
| "rb_insert_loop node (RightOf pc pl px # RightOf gc u gx # fs) =
     (if pc = RB_BLACK then Some (zip_up node (RightOf pc pl px # RightOf gc u gx # fs))
      else if rb_is_red u then
        rb_insert_loop
          (RB_Node RB_RED (rb_set_color RB_BLACK u) gx (RB_Node RB_BLACK pl px node)) fs
      else
        Some (zip_up (RB_Node gc (RB_Node RB_RED u gx (rb_set_color RB_BLACK pl)) px node) fs))"
| "rb_insert_loop node (LeftOf pc px pr # RightOf gc u gx # fs) =
     (if pc = RB_BLACK then Some (zip_up node (LeftOf pc px pr # RightOf gc u gx # fs))
      else if rb_is_red u then
        rb_insert_loop
          (RB_Node RB_RED (rb_set_color RB_BLACK u) gx (RB_Node RB_BLACK node px pr)) fs
      else (case node of
          RB_NULL \<Rightarrow> None
        | RB_Node nc nl nx nr \<Rightarrow>
            let parent = RB_Node RB_RED (rb_set_color RB_BLACK nr) px pr in
            Some (zip_up
              (RB_Node gc (RB_Node RB_RED u gx (rb_set_color RB_BLACK nl)) nx parent) fs)))"

text \<open>\<open>rb_link_node\<close> hangs a new red leaf at the given place; \<open>rb_insert_color\<close> rebalances.\<close>

definition rb_link_node :: "'a \<Rightarrow> 'a path \<Rightarrow> 'a cursor" where
  "rb_link_node x fs = (RB_Node RB_RED RB_NULL x RB_NULL, fs)"

definition rb_insert_color :: "'a cursor \<Rightarrow> 'a rb_tree option" where
  "rb_insert_color p = (case p of (node, fs) \<Rightarrow> rb_insert_loop node fs)"

text \<open>
  \<open>____rb_erase_color\<close>. \<open>erase_left\<close> is the iteration for \<open>node == parent->rb_left\<close>, from
  \<open>tmp1 = sibling->rb_right\<close> on (the sibling is black there), \<open>erase_right\<close> its mirror image.
  An iteration ends the loop with the whole tree or goes on at the parent.
\<close>

datatype 'a erase_step = Finished "'a rb_tree" | Climb "'a rb_tree" "'a path"

fun erase_left :: "'a rb_tree \<Rightarrow> rb_color \<Rightarrow> 'a \<Rightarrow> 'a rb_tree \<Rightarrow> 'a path \<Rightarrow> 'a erase_step option" where
  "erase_left node pc px RB_NULL fs = None"
| "erase_left node pc px (RB_Node sc sl sx sr) fs =
     (if \<not> rb_is_red sr then
        (if \<not> rb_is_red sl then
           let sibling = RB_Node RB_RED sl sx sr in
           if pc = RB_RED then Some (Finished (zip_up (RB_Node RB_BLACK node px sibling) fs))
           else Some (Climb (RB_Node pc node px sibling) fs)
         else (case sl of
             RB_NULL \<Rightarrow> None
           | RB_Node tc t1 tx t2 \<Rightarrow>
               let old_sibling = RB_Node RB_BLACK (rb_set_color RB_BLACK t2) sx sr in
               Some (Finished (zip_up
                 (RB_Node pc (RB_Node RB_BLACK node px t1) tx old_sibling) fs))))
      else
        Some (Finished (zip_up
          (RB_Node pc (RB_Node RB_BLACK node px sl) sx (rb_set_color RB_BLACK sr)) fs)))"

fun erase_right :: "'a rb_tree \<Rightarrow> rb_color \<Rightarrow> 'a rb_tree \<Rightarrow> 'a \<Rightarrow> 'a path \<Rightarrow> 'a erase_step option" where
  "erase_right node pc RB_NULL px fs = None"
| "erase_right node pc (RB_Node sc sl sx sr) px fs =
     (if \<not> rb_is_red sl then
        (if \<not> rb_is_red sr then
           let sibling = RB_Node RB_RED sl sx sr in
           if pc = RB_RED then Some (Finished (zip_up (RB_Node RB_BLACK sibling px node) fs))
           else Some (Climb (RB_Node pc sibling px node) fs)
         else (case sr of
             RB_NULL \<Rightarrow> None
           | RB_Node tc t1 tx t2 \<Rightarrow>
               let old_sibling = RB_Node RB_BLACK sl sx (rb_set_color RB_BLACK t1) in
               Some (Finished (zip_up
                 (RB_Node pc old_sibling tx (RB_Node RB_BLACK t2 px node)) fs))))
      else
        Some (Finished (zip_up
          (RB_Node pc (rb_set_color RB_BLACK sl) sx (RB_Node RB_BLACK sr px node)) fs)))"

text \<open>
  The whole iteration, with Case 1 (a red sibling) in front. After its rotation the parent is red
  and hangs one level lower, under the old sibling.
\<close>

fun erase_iter :: "'a rb_tree \<Rightarrow> 'a frame \<Rightarrow> 'a path \<Rightarrow> 'a erase_step option" where
  "erase_iter node (LeftOf pc px RB_NULL) fs = None"
| "erase_iter node (LeftOf pc px (RB_Node sc sl sx sr)) fs =
     (if sc = RB_RED then
        (if sl = RB_NULL then None
         else erase_left node RB_RED px (rb_set_color RB_BLACK sl) (LeftOf pc sx sr # fs))
      else erase_left node pc px (RB_Node sc sl sx sr) fs)"
| "erase_iter node (RightOf pc RB_NULL px) fs = None"
| "erase_iter node (RightOf pc (RB_Node sc sl sx sr) px) fs =
     (if sc = RB_RED then
        (if sr = RB_NULL then None
         else erase_right node RB_RED (rb_set_color RB_BLACK sr) px (RightOf pc sl sx # fs))
      else erase_right node pc (RB_Node sc sl sx sr) px fs)"

lemma erase_left_climb: "erase_left n RB_RED px s fs \<noteq> Some (Climb t ps)"
  by (cases s) (auto simp: Let_def split: rb_tree.splits)

lemma erase_right_climb: "erase_right n RB_RED s px fs \<noteq> Some (Climb t ps)"
  by (cases s) (auto simp: Let_def split: rb_tree.splits)

lemma erase_left_climb_path: "erase_left n pc px s fs = Some (Climb t ps) \<Longrightarrow> ps = fs"
  by (cases s) (auto simp: Let_def split: rb_tree.splits if_splits)

lemma erase_right_climb_path: "erase_right n pc s px fs = Some (Climb t ps) \<Longrightarrow> ps = fs"
  by (cases s) (auto simp: Let_def split: rb_tree.splits if_splits)

lemma erase_iter_climb_path: "erase_iter n f fs = Some (Climb t ps) \<Longrightarrow> ps = fs"
  by (cases "(n, f, fs)" rule: erase_iter.cases)
    (auto simp: erase_left_climb erase_right_climb simp del: erase_left.simps erase_right.simps
      dest: erase_left_climb_path erase_right_climb_path split: if_splits)

function rb_erase_color :: "'a rb_tree \<Rightarrow> 'a path \<Rightarrow> 'a rb_tree option" where
  "rb_erase_color node [] = Some node"
| "rb_erase_color node (f # fs) =
     (case erase_iter node f fs of
        None \<Rightarrow> None
      | Some (Finished t) \<Rightarrow> Some t
      | Some (Climb t ps) \<Rightarrow> rb_erase_color t ps)"
  by pat_completeness auto
termination
  by (relation "measure (\<lambda>(n, ps). length ps)") (auto dest: erase_iter_climb_path)

text \<open>
  \<open>__rb_erase_augmented\<close>: unlinks the node under the cursor. The result is the place that lost a
  node, as a cursor, and whether the tree has to be rebalanced there (\<open>rebalance != NULL\<close>).
  \<open>leftmost\<close> walks down to the successor.
\<close>

fun leftmost :: "'a rb_tree \<Rightarrow> 'a path \<Rightarrow> 'a cursor" where
  "leftmost (RB_Node c (RB_Node c' l' x' r') x r) fs = leftmost (RB_Node c' l' x' r') (LeftOf c x r # fs)"
| "leftmost t fs = (t, fs)"

fun rightmost :: "'a rb_tree \<Rightarrow> 'a path \<Rightarrow> 'a cursor" where
  "rightmost (RB_Node c l x (RB_Node c' l' x' r')) fs = rightmost (RB_Node c' l' x' r') (RightOf c l x # fs)"
| "rightmost t fs = (t, fs)"

fun rb_erase_augmented :: "'a cursor \<Rightarrow> ('a cursor \<times> bool) option" where
  "rb_erase_augmented (RB_NULL, fs) = None"
| "rb_erase_augmented (RB_Node c l x r, fs) =
     (if l = RB_NULL then
        (if r \<noteq> RB_NULL then Some ((rb_set_color c r, fs), False)
         else Some ((RB_NULL, fs), c = RB_BLACK \<and> fs \<noteq> []))
      else if r = RB_NULL then Some ((rb_set_color c l, fs), False)
      else (case leftmost r [] of
          (RB_NULL, ps) \<Rightarrow> None
        | (RB_Node sc sl sx child2, ps) \<Rightarrow>
            let path = ps @ RightOf c l sx # fs in
            if child2 \<noteq> RB_NULL then Some ((rb_set_color RB_BLACK child2, path), False)
            else Some ((RB_NULL, path), sc = RB_BLACK)))"

definition rb_erase :: "'a cursor \<Rightarrow> 'a rb_tree option" where
  "rb_erase p = (case rb_erase_augmented p of
       None \<Rightarrow> None
     | Some ((t, fs), rebalance) \<Rightarrow> if rebalance then rb_erase_color t fs else Some (zip_up t fs))"

text \<open>The walks. A cursor on \<open>RB_NULL\<close> stands for the NULL result.\<close>

definition rb_first :: "'a rb_tree \<Rightarrow> 'a cursor option" where
  "rb_first root = (if root = RB_NULL then None else Some (leftmost root []))"

definition rb_last :: "'a rb_tree \<Rightarrow> 'a cursor option" where
  "rb_last root = (if root = RB_NULL then None else Some (rightmost root []))"

fun climb_right :: "'a rb_tree \<Rightarrow> 'a path \<Rightarrow> 'a cursor option" where
  "climb_right t [] = None"
| "climb_right t (LeftOf c x r # fs) = Some (RB_Node c t x r, fs)"
| "climb_right t (RightOf c l x # fs) = climb_right (RB_Node c l x t) fs"

fun climb_left :: "'a rb_tree \<Rightarrow> 'a path \<Rightarrow> 'a cursor option" where
  "climb_left t [] = None"
| "climb_left t (RightOf c l x # fs) = Some (RB_Node c l x t, fs)"
| "climb_left t (LeftOf c x r # fs) = climb_left (RB_Node c t x r) fs"

fun rb_next :: "'a cursor \<Rightarrow> 'a cursor option" where
  "rb_next (RB_NULL, fs) = None"
| "rb_next (RB_Node c l x r, fs) =
     (if r \<noteq> RB_NULL then Some (leftmost r (RightOf c l x # fs))
      else climb_right (RB_Node c l x r) fs)"

fun rb_prev :: "'a cursor \<Rightarrow> 'a cursor option" where
  "rb_prev (RB_NULL, fs) = None"
| "rb_prev (RB_Node c l x r, fs) =
     (if l \<noteq> RB_NULL then Some (rightmost l (LeftOf c x r # fs))
      else climb_left (RB_Node c l x r) fs)"


section \<open>The contents of a tree, in order\<close>

fun rb_inorder :: "'a rb_tree \<Rightarrow> 'a list" where
  "rb_inorder RB_NULL = []"
| "rb_inorder (RB_Node c l x r) = rb_inorder l @ x # rb_inorder r"

fun before :: "'a path \<Rightarrow> 'a list" where
  "before [] = []"
| "before (LeftOf c x r # fs) = before fs"
| "before (RightOf c l x # fs) = before fs @ rb_inorder l @ [x]"

fun after :: "'a path \<Rightarrow> 'a list" where
  "after [] = []"
| "after (LeftOf c x r # fs) = x # rb_inorder r @ after fs"
| "after (RightOf c l x # fs) = after fs"

text \<open>
  The invariants that \<open>rbtree.c\<close> lists: a red node has black children (4), all paths have the
  same number of black nodes (5), the root is black (2). \<open>hole_inv c n fs\<close> says that a subtree
  with root colour \<open>c\<close> and \<open>n\<close> black nodes on its paths may stand in the hole of \<open>fs\<close>.
\<close>

fun rb_black_height :: "'a rb_tree \<Rightarrow> nat" where
  "rb_black_height RB_NULL = 0"
| "rb_black_height (RB_Node c l x r) = rb_black_height l + (if c = RB_BLACK then 1 else 0)"

fun rb_inv_color :: "'a rb_tree \<Rightarrow> bool" where
  "rb_inv_color RB_NULL = True"
| "rb_inv_color (RB_Node c l x r) =
     ((c = RB_RED \<longrightarrow> \<not> rb_is_red l \<and> \<not> rb_is_red r) \<and> rb_inv_color l \<and> rb_inv_color r)"

fun rb_inv_height :: "'a rb_tree \<Rightarrow> bool" where
  "rb_inv_height RB_NULL = True"
| "rb_inv_height (RB_Node c l x r) =
     (rb_black_height l = rb_black_height r \<and> rb_inv_height l \<and> rb_inv_height r)"

definition rb_sub :: "'a rb_tree \<Rightarrow> bool" where
  "rb_sub t \<longleftrightarrow> rb_inv_color t \<and> rb_inv_height t"

definition rb_inv :: "'a rb_tree \<Rightarrow> bool" where
  "rb_inv t \<longleftrightarrow> rb_inv_color t \<and> rb_inv_height t \<and> \<not> rb_is_red t"

fun hole_inv :: "bool \<Rightarrow> nat \<Rightarrow> 'a path \<Rightarrow> bool" where
  "hole_inv red n [] = (\<not> red)"
| "hole_inv red n (LeftOf c x r # fs) =
     (rb_sub r \<and> rb_black_height r = n \<and> (c = RB_RED \<longrightarrow> \<not> red \<and> \<not> rb_is_red r) \<and>
      hole_inv (c = RB_RED) (if c = RB_BLACK then n + 1 else n) fs)"
| "hole_inv red n (RightOf c l x # fs) =
     (rb_sub l \<and> rb_black_height l = n \<and> (c = RB_RED \<longrightarrow> \<not> red \<and> \<not> rb_is_red l) \<and>
      hole_inv (c = RB_RED) (if c = RB_BLACK then n + 1 else n) fs)"

section \<open>Correctness\<close>

lemma rb_color_not [simp]: "c \<noteq> RB_BLACK \<longleftrightarrow> c = RB_RED" "c \<noteq> RB_RED \<longleftrightarrow> c = RB_BLACK"
  by (cases c; simp)+

lemma rb_set_color_simps [simp]:
  "rb_inorder (rb_set_color c t) = rb_inorder t"
  "rb_set_color c t = RB_NULL \<longleftrightarrow> t = RB_NULL"
  "rb_inv_height (rb_set_color c t) = rb_inv_height t"
  "\<not> rb_is_red (rb_set_color RB_BLACK t)"
  by (cases t; simp)+

lemma rb_sub_simps [simp]:
  "rb_sub RB_NULL"
  "rb_sub (RB_Node c l x r) \<longleftrightarrow>
     rb_sub l \<and> rb_sub r \<and> rb_black_height l = rb_black_height r \<and>
     (c = RB_RED \<longrightarrow> \<not> rb_is_red l \<and> \<not> rb_is_red r)"
  by (auto simp: rb_sub_def)

lemma rb_sub_black [simp]: "rb_sub t \<Longrightarrow> rb_sub (rb_set_color RB_BLACK t)"
  by (cases t) auto

lemma rb_black_height_black: "rb_black_height (rb_set_color RB_BLACK t) =
    (if rb_is_red t then rb_black_height t + 1 else rb_black_height t)"
  by (cases t) auto

lemma rb_set_black_id [simp]: "\<not> rb_is_red t \<Longrightarrow> rb_set_color RB_BLACK t = t"
  by (cases t) auto

lemma rb_inv_iff_sub: "rb_inv t \<longleftrightarrow> rb_sub t \<and> \<not> rb_is_red t"
  by (auto simp: rb_inv_def rb_sub_def)

lemma rb_inv_NULL [simp]: "rb_inv RB_NULL"
  by (simp add: rb_inv_def)

lemma rb_inv_Node [simp]: "rb_inv (RB_Node c l x r) \<longleftrightarrow> c = RB_BLACK \<and> rb_sub (RB_Node c l x r)"
  by (auto simp: rb_inv_iff_sub)

lemma inorder_zip_up: "rb_inorder (zip_up t fs) = before fs @ rb_inorder t @ after fs"
proof (induction fs arbitrary: t)
  case (Cons f fs)
  then show ?case by (cases f) auto
qed simp

lemma rb_inv_zip_up:
  "rb_inv (zip_up t fs) \<longleftrightarrow> rb_sub t \<and> hole_inv (rb_is_red t) (rb_black_height t) fs"
proof (induction fs arbitrary: t)
  case (Cons f fs)
  then show ?case by (cases f) (auto cong: conj_cong)
qed (auto simp: rb_inv_iff_sub)

lemma zip_up_append: "zip_up t (ps @ qs) = zip_up (zip_up t ps) qs"
  by (induction ps arbitrary: t) auto

lemma rb_insert_loop_inorder:
  "rb_insert_loop node fs = Some t \<Longrightarrow> rb_inorder t = before fs @ rb_inorder node @ after fs"
  by (induction node fs rule: rb_insert_loop.induct)
    (auto simp: inorder_zip_up Let_def split: if_splits rb_tree.splits)

lemma hole_inv_weaken: "hole_inv True n fs \<Longrightarrow> hole_inv False n fs"
  by (cases fs rule: before.cases) auto

lemma rb_insert_loop_inv:
  assumes "rb_sub node" and "node \<noteq> RB_NULL" and "rb_is_red node"
    and "hole_inv False (rb_black_height node) fs"
  shows "\<exists>t. rb_insert_loop node fs = Some t \<and> rb_inv t"
  using assms
proof (induction node fs rule: rb_insert_loop.induct)
  case (1 node)
  then show ?case by (simp add: rb_inv_iff_sub)
qed (auto simp: rb_inv_zip_up rb_black_height_black Let_def split: rb_tree.splits)


subsection \<open>Erasing\<close>

text \<open>
  What one iteration of the rebalancing loop owes: it never follows a NULL pointer, keeps the
  contents in order, and either finishes with a red-black tree or leaves the same problem one
  level higher.
\<close>

definition step_ok :: "'a list \<Rightarrow> 'a path \<Rightarrow> nat \<Rightarrow> 'a erase_step option \<Rightarrow> bool" where
  "step_ok xs fs n st = (case st of
       None \<Rightarrow> False
     | Some (Finished t) \<Rightarrow> rb_inv t \<and> rb_inorder t = before fs @ xs @ after fs
     | Some (Climb t ps) \<Rightarrow> ps = fs \<and> rb_inorder t = xs \<and> rb_sub t \<and> \<not> rb_is_red t \<and>
         rb_black_height t = n \<and> hole_inv False (n + 1) fs)"

lemma erase_left_ok:
  assumes "rb_sub node" "\<not> rb_is_red node" "rb_black_height node = n"
    and "rb_sub s" "\<not> rb_is_red s" "rb_black_height s = n + 1"
    and "hole_inv (pc = RB_RED) (if pc = RB_BLACK then n + 2 else n + 1) fs"
  shows "step_ok (rb_inorder node @ px # rb_inorder s) fs (n + 1) (erase_left node pc px s fs)"
  using assms
  by (cases s) (auto simp: step_ok_def rb_inv_zip_up inorder_zip_up rb_black_height_black Let_def
      dest: hole_inv_weaken split: rb_tree.splits if_splits)

lemma erase_right_ok:
  assumes "rb_sub node" "\<not> rb_is_red node" "rb_black_height node = n"
    and "rb_sub s" "\<not> rb_is_red s" "rb_black_height s = n + 1"
    and "hole_inv (pc = RB_RED) (if pc = RB_BLACK then n + 2 else n + 1) fs"
  shows "step_ok (rb_inorder s @ px # rb_inorder node) fs (n + 1) (erase_right node pc s px fs)"
  using assms
  by (cases s) (auto simp: step_ok_def rb_inv_zip_up inorder_zip_up rb_black_height_black Let_def
      dest: hole_inv_weaken split: rb_tree.splits if_splits)


lemma step_ok_Case1:
  assumes "step_ok xs (f # fs) n st" and "\<And>t ps. st \<noteq> Some (Climb t ps)"
    and "before (f # fs) @ xs @ after (f # fs) = before fs @ ys @ after fs"
  shows "step_ok ys fs m st"
  using assms by (auto simp: step_ok_def split: option.splits erase_step.splits)

lemma erase_iter_ok:
  assumes node: "rb_sub node" "\<not> rb_is_red node" "rb_black_height node = n"
    and hole: "hole_inv False (n + 1) (f # fs)"
  shows "step_ok (rb_inorder (plug node f)) fs (n + 1) (erase_iter node f fs)"
proof (cases f)
  case f: (LeftOf pc px s)
  with hole obtain sc sl sx sr where s: "s = RB_Node sc sl sx sr"
    by (cases s) auto
  show ?thesis
  proof (cases "sc = RB_RED")
    case True
    with f s hole node have "sl \<noteq> RB_NULL" by auto
    moreover have "step_ok (rb_inorder node @ px # rb_inorder sl) (LeftOf pc sx sr # fs) (n + 1)
        (erase_left node RB_RED px sl (LeftOf pc sx sr # fs))"
      using f s hole node True by (intro erase_left_ok) auto
    ultimately show ?thesis using f s hole True
      by (auto simp: erase_left_climb simp del: erase_left.simps elim!: step_ok_Case1)
  next
    case False
    have "step_ok (rb_inorder node @ px # rb_inorder s) fs (n + 1) (erase_left node pc px s fs)"
      using f s hole node False by (intro erase_left_ok) (auto split: if_splits)
    with f s False show ?thesis by (auto simp del: erase_left.simps)
  qed
next
  case f: (RightOf pc s px)
  with hole obtain sc sl sx sr where s: "s = RB_Node sc sl sx sr"
    by (cases s) auto
  show ?thesis
  proof (cases "sc = RB_RED")
    case True
    with f s hole node have "sr \<noteq> RB_NULL" by auto
    moreover have "step_ok (rb_inorder sr @ px # rb_inorder node) (RightOf pc sl sx # fs) (n + 1)
        (erase_right node RB_RED sr px (RightOf pc sl sx # fs))"
      using f s hole node True by (intro erase_right_ok) auto
    ultimately show ?thesis using f s hole True
      by (auto simp: erase_right_climb simp del: erase_right.simps elim!: step_ok_Case1)
  next
    case False
    have "step_ok (rb_inorder s @ px # rb_inorder node) fs (n + 1) (erase_right node pc s px fs)"
      using f s hole node False by (intro erase_right_ok) (auto split: if_splits)
    with f s False show ?thesis by (auto simp del: erase_right.simps)
  qed
qed

lemma inorder_plug: "before fs @ rb_inorder (plug t f) @ after fs = before (f # fs) @ rb_inorder t @ after (f # fs)"
  by (cases f) auto

lemma rb_erase_color_ok:
  assumes "rb_sub node" "\<not> rb_is_red node" and "hole_inv False (rb_black_height node + 1) fs"
  shows "\<exists>t. rb_erase_color node fs = Some t \<and> rb_inv t \<and>
    rb_inorder t = before fs @ rb_inorder node @ after fs"
  using assms
proof (induction node fs rule: rb_erase_color.induct)
  case (1 node)
  then show ?case by (simp add: rb_inv_iff_sub)
next
  case (2 node f fs)
  have ok: "step_ok (rb_inorder (plug node f)) fs (rb_black_height node + 1) (erase_iter node f fs)"
    using "2.prems" by (intro erase_iter_ok) auto
  then consider
      (fin) t where "erase_iter node f fs = Some (Finished t)" "rb_inv t"
        "rb_inorder t = before fs @ rb_inorder (plug node f) @ after fs"
    | (climb) t where "erase_iter node f fs = Some (Climb t fs)" "rb_sub t" "\<not> rb_is_red t"
        "hole_inv False (rb_black_height t + 1) fs" "rb_inorder t = rb_inorder (plug node f)"
    by (auto simp: step_ok_def split: option.splits erase_step.splits)
  then show ?case
  proof cases
    case fin
    then show ?thesis by (simp add: inorder_plug del: before.simps after.simps)
  next
    case climb
    with "2.IH" show ?thesis
      by (fastforce simp: inorder_plug simp del: before.simps after.simps)
  qed
qed


lemma leftmost_facts:
  assumes "leftmost t fs = (t', ps)"
  shows "zip_up t' ps = zip_up t fs" "before ps = before fs"
    "t \<noteq> RB_NULL \<Longrightarrow> \<exists>c x r. t' = RB_Node c RB_NULL x r"
  using assms by (induction t fs rule: leftmost.induct) auto

lemma rightmost_facts:
  assumes "rightmost t fs = (t', ps)"
  shows "zip_up t' ps = zip_up t fs" "after ps = after fs"
    "t \<noteq> RB_NULL \<Longrightarrow> \<exists>c l x. t' = RB_Node c l x RB_NULL"
  using assms by (induction t fs rule: rightmost.induct) auto

lemma path_append [simp]:
  "before (ps @ qs) = before qs @ before ps"
  "after (ps @ qs) = after ps @ after qs"
  by (induction ps rule: before.induct) auto

lemma hole_inv_item:
  "hole_inv red n (ps @ RightOf c l x # fs) = hole_inv red n (ps @ RightOf c l y # fs)"
proof (induction ps arbitrary: red n)
  case (Cons f ps)
  then show ?case by (cases f) auto
qed simp

lemma rb_sub_only_child:
  "rb_sub (RB_Node c RB_NULL x r) \<Longrightarrow> r \<noteq> RB_NULL \<Longrightarrow> c = RB_BLACK \<and> rb_is_red r"
  "rb_sub (RB_Node c l x RB_NULL) \<Longrightarrow> l \<noteq> RB_NULL \<Longrightarrow> c = RB_BLACK \<and> rb_is_red l"
  by (cases r; force split: if_splits) (cases l; force split: if_splits)

text \<open>A place that lost its node: what stands there now, and whether a black node is missing.\<close>

lemma rb_hole_filled:
  assumes "rb_sub t" "\<not> rb_is_red t"
    and "hole_inv False (rb_black_height t + (if rebalance then 1 else 0)) fs"
  shows "\<exists>t'. (if rebalance then rb_erase_color t fs else Some (zip_up t fs)) = Some t' \<and> rb_inv t' \<and>
    rb_inorder t' = before fs @ rb_inorder t @ after fs"
  using assms rb_erase_color_ok [of t fs] by (auto simp: rb_inv_zip_up inorder_zip_up)

lemma rb_erase_ok:
  assumes inv: "rb_inv (zip_up (RB_Node c l x r) fs)"
  shows "\<exists>t'. rb_erase (RB_Node c l x r, fs) = Some t' \<and> rb_inv t' \<and>
    rb_inorder t' = before fs @ rb_inorder l @ rb_inorder r @ after fs"
proof -
  have sub: "rb_sub (RB_Node c l x r)"
    and hole: "hole_inv (c = RB_RED) (rb_black_height (RB_Node c l x r)) fs"
    using inv by (simp_all add: rb_inv_zip_up del: rb_sub_simps rb_black_height.simps)
  consider (child_r) "l = RB_NULL" "r \<noteq> RB_NULL" | (leaf) "l = RB_NULL" "r = RB_NULL"
    | (child_l) "l \<noteq> RB_NULL" "r = RB_NULL" | (two) "l \<noteq> RB_NULL" "r \<noteq> RB_NULL"
    by blast
  then show ?thesis
  proof cases
    case child_r
    with sub have "c = RB_BLACK" "rb_is_red r" using rb_sub_only_child(1) [of c x r] by simp_all
    with child_r sub hole show ?thesis
      using rb_hole_filled [of "rb_set_color c r" False fs]
      by (simp add: rb_erase_def rb_black_height_black)
  next
    case leaf
    with hole show ?thesis
      using rb_hole_filled [of RB_NULL "c = RB_BLACK \<and> fs \<noteq> []" fs] hole_inv_weaken
      by (cases c) (auto simp: rb_erase_def)
  next
    case child_l
    with sub have "c = RB_BLACK" "rb_is_red l" using rb_sub_only_child(2) [of c l x] by simp_all
    with child_l sub hole show ?thesis
      using rb_hole_filled [of "rb_set_color c l" False fs]
      by (simp add: rb_erase_def rb_black_height_black)
  next
    case two
    obtain t' ps where lm: "leftmost r [] = (t', ps)" by fastforce
    with two leftmost_facts(3) obtain sc sx ch where t': "t' = RB_Node sc RB_NULL sx ch" by metis
    have zr: "zip_up t' ps = r" and bp: "before ps = []"
      using leftmost_facts [OF lm] by simp_all
    let ?path = "ps @ RightOf c l sx # fs"
    have "zip_up t' (ps @ RightOf c l x # fs) = zip_up (RB_Node c l x r) fs"
      by (simp add: zip_up_append zr)
    with inv have "rb_inv (zip_up t' (ps @ RightOf c l x # fs))" by simp
    then have sub': "rb_sub t'" and hole': "hole_inv (sc = RB_RED) (rb_black_height t') ?path"
      using hole_inv_item [of _ _ ps c l x fs sx]
      by (simp_all add: rb_inv_zip_up t' del: rb_sub_simps rb_black_height.simps)
    have ord: "rb_inorder r = sx # rb_inorder ch @ after ps"
      using zr inorder_zip_up [of t' ps] bp t' by simp
    show ?thesis
    proof (cases "ch = RB_NULL")
      case True
      with two lm t' sub' hole' ord bp show ?thesis
        using rb_hole_filled [of RB_NULL "sc = RB_BLACK" ?path] hole_inv_weaken [of 0 ?path]
        by (cases sc) (auto simp: rb_erase_def Let_def)
    next
      case False
      with sub' t' have "sc = RB_BLACK" "rb_is_red ch"
        using rb_sub_only_child(1) [of sc sx ch] by simp_all
      with False two lm t' sub' hole' ord bp show ?thesis
        using rb_hole_filled [of "rb_set_color RB_BLACK ch" False ?path]
        by (auto simp: rb_erase_def Let_def rb_black_height_black)
    qed
  qed
qed


subsection \<open>Walking\<close>

fun rest :: "'a cursor \<Rightarrow> 'a list" where
  "rest (RB_NULL, fs) = after fs"
| "rest (RB_Node c l x r, fs) = rb_inorder r @ after fs"

definition cursor_item :: "'a cursor \<Rightarrow> 'a" where
  "cursor_item p = rb_item (fst p)"

lemma leftmost_rest:
  "t \<noteq> RB_NULL \<Longrightarrow> cursor_item (leftmost t fs) # rest (leftmost t fs) = rb_inorder t @ after fs"
  by (induction t fs rule: leftmost.induct) (auto simp: cursor_item_def)

lemma climb_right_rest:
  "climb_right t fs = Some p \<Longrightarrow> cursor_item p # rest p = after fs"
  by (induction t fs rule: climb_right.induct) (auto simp: cursor_item_def)

lemma climb_right_None: "climb_right t fs = None \<longleftrightarrow> after fs = []"
  by (induction t fs rule: climb_right.induct) auto

lemma rb_next_rest:
  "rb_next p = Some q \<Longrightarrow> rest p = cursor_item q # rest q"
proof (induction p rule: rb_next.induct)
  case (2 c l x r fs)
  then show ?case
    using leftmost_rest [of r "RightOf c l x # fs"] climb_right_rest [of "RB_Node c l x r" fs]
    by (auto split: if_splits)
qed simp

lemma rb_next_None: "fst p \<noteq> RB_NULL \<Longrightarrow> rb_next p = None \<longleftrightarrow> rest p = []"
proof (induction p rule: rb_next.induct)
  case (2 c l x r fs)
  then show ?case by (cases r) (auto simp: climb_right_None)
qed simp

function rb_walk :: "'a cursor option \<Rightarrow> 'a list" where
  "rb_walk None = []"
| "rb_walk (Some p) = cursor_item p # rb_walk (rb_next p)"
  by pat_completeness auto
termination
proof (relation "measure (\<lambda>p. case p of None \<Rightarrow> 0 | Some p \<Rightarrow> Suc (length (rest p)))")
  fix p :: "'a cursor"
  show "(rb_next p, Some p) \<in> measure (\<lambda>p. case p of None \<Rightarrow> 0 | Some p \<Rightarrow> Suc (length (rest p)))"
    by (cases "rb_next p") (auto simp: rb_next_rest)
qed simp

lemma climb_right_node: "climb_right t fs = Some q \<Longrightarrow> fst q \<noteq> RB_NULL"
  by (induction t fs rule: climb_right.induct) auto

lemma leftmost_node: "t \<noteq> RB_NULL \<Longrightarrow> fst (leftmost t fs) \<noteq> RB_NULL"
  by (induction t fs rule: leftmost.induct) auto

lemma rb_next_node: "rb_next p = Some q \<Longrightarrow> fst q \<noteq> RB_NULL"
  by (induction p rule: rb_next.induct) (auto simp: leftmost_node dest: climb_right_node split: if_splits)

lemma rb_walk_rest: "fst p \<noteq> RB_NULL \<Longrightarrow> rb_walk (Some p) = cursor_item p # rest p"
proof (induction "length (rest p)" arbitrary: p rule: less_induct)
  case less
  show ?case
  proof (cases "rb_next p")
    case None
    with less.prems rb_next_None show ?thesis by fastforce
  next
    case (Some q)
    then have "rest p = cursor_item q # rest q" by (rule rb_next_rest)
    with less.hyps [of q] rb_next_node [OF Some] Some show ?thesis by simp
  qed
qed

lemma rb_walk_inorder: "rb_walk (rb_first t) = rb_inorder t"
  using leftmost_rest [of t "[]"] leftmost_node [of t "[]"]
  by (cases "t = RB_NULL") (auto simp: rb_first_def rb_walk_rest simp del: rb_walk.simps(2))

lemma climb_left_leftmost: "leftmost t fs = (t', ps) \<Longrightarrow> climb_left t' ps = climb_left t fs"
  by (induction t fs rule: leftmost.induct) auto

lemma climb_right_rightmost:
  "climb_right t fs = Some q \<Longrightarrow> t \<noteq> RB_NULL \<Longrightarrow>
    \<exists>c l x r gs. q = (RB_Node c l x r, gs) \<and> l \<noteq> RB_NULL \<and> rightmost l (LeftOf c x r # gs) = rightmost t fs"
proof (induction t fs rule: climb_right.induct)
  case (3 t c l x fs)
  then obtain c' l' x' r' gs where "q = (RB_Node c' l' x' r', gs)" "l' \<noteq> RB_NULL"
      "rightmost l' (LeftOf c' x' r' # gs) = rightmost (RB_Node c l x t) fs"
    by auto
  with "3.prems" show ?case by (cases t) auto
qed auto

lemma rb_prev_next_cursor: "rb_next p = Some q \<Longrightarrow> rb_prev q = Some p"
proof (induction p rule: rb_next.induct)
  case (2 c l x r fs)
  show ?case
  proof (cases "r = RB_NULL")
    case False
    obtain t' ps where lm: "leftmost r (RightOf c l x # fs) = (t', ps)" by fastforce
    with False leftmost_facts(3) obtain c' x' r' where "t' = RB_Node c' RB_NULL x' r'" by metis
    with "2.prems" False lm climb_left_leftmost [OF lm] show ?thesis by auto
  next
    case True
    with "2.prems" have "climb_right (RB_Node c l x r) fs = Some q" by simp
    from climb_right_rightmost [OF this] True show ?thesis by auto
  qed
qed simp

subsection \<open>Height\<close>

fun rb_height :: "'a rb_tree \<Rightarrow> nat" where
  "rb_height RB_NULL = 0"
| "rb_height (RB_Node c l x r) = Suc (max (rb_height l) (rb_height r))"

lemma rb_erase_first:
  assumes "rb_inv t" "t \<noteq> RB_NULL"
  shows "\<exists>t'. rb_erase (leftmost t []) = Some t' \<and> rb_inv t' \<and>
    rb_inorder t = cursor_item (leftmost t []) # rb_inorder t'"
proof -
  obtain s ps where l: "leftmost t [] = (s, ps)" by (cases "leftmost t []")
  note f = leftmost_facts [OF l]
  then obtain c x r where s: "s = RB_Node c RB_NULL x r" using assms(2) by blast
  have z: "zip_up (RB_Node c RB_NULL x r) ps = t" using f(1) s by simp
  then obtain t' where "rb_erase (RB_Node c RB_NULL x r, ps) = Some t'" "rb_inv t'"
      "rb_inorder t' = before ps @ rb_inorder r @ after ps"
    using rb_erase_ok [of c RB_NULL x r ps] assms(1) by auto
  moreover have "rb_inorder t = before ps @ (x # rb_inorder r) @ after ps"
    using inorder_zip_up [of "RB_Node c RB_NULL x r" ps] z by simp
  ultimately show ?thesis using f(2) l s by (simp add: cursor_item_def)
qed

lemma rb_height_le: "rb_sub t \<Longrightarrow> rb_height t \<le> 2 * rb_black_height t + (if rb_is_red t then 1 else 0)"
  by (induction t) (auto split: if_splits)

lemma rb_black_height_size: "rb_sub t \<Longrightarrow> 2 ^ rb_black_height t \<le> length (rb_inorder t) + 1"
  by (induction t) (auto split: if_splits)

lemma rb_height_log:
  assumes "rb_inv t"
  shows "2 ^ rb_height t \<le> (length (rb_inorder t) + 1)\<^sup>2"
proof -
  have sub: "rb_sub t" and le: "rb_height t \<le> 2 * rb_black_height t"
    using assms rb_height_le [of t] by (auto simp: rb_inv_iff_sub)
  have "(2::nat) ^ rb_height t \<le> 2 ^ (2 * rb_black_height t)"
    using le by (simp add: power_increasing)
  also have "\<dots> = (2 ^ rb_black_height t)\<^sup>2" by (simp add: power_even_eq)
  also have "\<dots> \<le> (length (rb_inorder t) + 1)\<^sup>2"
    using rb_black_height_size [OF sub] by (intro power_mono) auto
  finally show ?thesis .
qed

section \<open>The properties of the red-black tree\<close>

text \<open>
  C29. Linking a new entry at a place of a red-black tree and rebalancing never follows a NULL
  pointer, gives a red-black tree again, and puts the entry exactly there in the order.
\<close>

theorem rb_insert_correct:
  assumes "rb_inv (zip_up RB_NULL fs)"
  shows "\<exists>t. rb_insert_color (rb_link_node x fs) = Some t \<and> rb_inv t \<and>
    rb_inorder t = before fs @ x # after fs"
proof -
  have "hole_inv False 0 fs" using assms rb_inv_zip_up [of RB_NULL fs] by simp
  then obtain t where t: "rb_insert_loop (RB_Node RB_RED RB_NULL x RB_NULL) fs = Some t" "rb_inv t"
    using rb_insert_loop_inv [of "RB_Node RB_RED RB_NULL x RB_NULL" fs] by auto
  with rb_insert_loop_inorder [OF t(1)] show ?thesis
    by (simp add: rb_insert_color_def rb_link_node_def)
qed

theorem rb_insert_correct_witness:
  "\<exists>t. rb_insert_color (rb_link_node (3::nat)
       [RightOf RB_RED RB_NULL 2, RightOf RB_BLACK (RB_Node RB_RED RB_NULL 0 RB_NULL) 1]) = Some t \<and>
     rb_inv t \<and> rb_inorder t = [0, 1, 2, 3]"
  using rb_insert_correct [of "[RightOf RB_RED RB_NULL 2, RightOf RB_BLACK (RB_Node RB_RED RB_NULL 0 RB_NULL) (1::nat)]" 3]
  by simp

text \<open>
  C28. Erasing a node of a red-black tree never follows a NULL pointer, gives a red-black tree
  again, and removes exactly that entry from the order.
\<close>

theorem rb_erase_correct:
  assumes "rb_inv (zip_up (RB_Node c l x r) fs)"
  shows "\<exists>t. rb_erase (RB_Node c l x r, fs) = Some t \<and> rb_inv t \<and>
    rb_inorder (zip_up (RB_Node c l x r) fs) = before fs @ rb_inorder l @ x # rb_inorder r @ after fs \<and>
    rb_inorder t = before fs @ rb_inorder l @ rb_inorder r @ after fs"
  using rb_erase_ok [OF assms] by (simp add: inorder_zip_up)

theorem rb_erase_correct_witness:
  "\<exists>t. rb_erase (RB_Node RB_BLACK RB_NULL (0::nat) RB_NULL,
       [LeftOf RB_BLACK 1 (RB_Node RB_BLACK RB_NULL 2 (RB_Node RB_RED RB_NULL 3 RB_NULL))]) = Some t \<and>
     rb_inv t \<and> rb_inorder t = [1, 2, 3]"
  using rb_erase_correct [of RB_BLACK RB_NULL "0::nat" RB_NULL
    "[LeftOf RB_BLACK 1 (RB_Node RB_BLACK RB_NULL 2 (RB_Node RB_RED RB_NULL 3 RB_NULL))]"] by simp

text \<open>
  The walk with \<open>rb_first\<close> and \<open>rb_next\<close> ends and visits every entry once, in order; \<open>rb_prev\<close>
  takes back a step of \<open>rb_next\<close>.
\<close>

theorem rb_walk_correct:
  "rb_walk (rb_first t) = rb_inorder t \<and> (case rb_next p of None \<Rightarrow> True | Some q \<Rightarrow> rb_prev q = Some p)"
  using rb_walk_inorder [of t] rb_prev_next_cursor [of p] by (cases "rb_next p") simp_all

text \<open>
  The height of a red-black tree is at most twice the binary logarithm of its size plus one,
  so the search loops take logarithmically many steps.
\<close>

theorem rb_height_bound:
  assumes "rb_inv t"
  shows "2 ^ rb_height t \<le> (length (rb_inorder t) + 1)\<^sup>2"
  using assms by (rule rb_height_log)

theorem rb_height_bound_witness:
  "2 ^ rb_height (RB_Node RB_BLACK RB_NULL (1::nat) (RB_Node RB_RED RB_NULL 2 RB_NULL)) \<le> (9::nat)"
  using rb_height_bound [of "RB_Node RB_BLACK RB_NULL (1::nat) (RB_Node RB_RED RB_NULL 2 RB_NULL)"] by simp

end
