(* ===== verification/RbIndex.thy ===== *)
theory RbIndex
  imports RbTree "HOL-Library.Multiset"
begin

text \<open>
  Searching and inserting with a comparison. Every component writes the same three loops around
  \<open>rbtree.c\<close>: walk down comparing with each entry until it is found or a NULL child is reached,
  link the new node there, or unlink the node that was found. \<open>dir x\<close> is the comparison against
  the entry \<open>x\<close>: negative goes to \<open>rb_left\<close>, positive to \<open>rb_right\<close>, zero stops.

  The locale \<open>rb_order\<close> is what the loops need of a comparison, a total order of the keys; the
  locale \<open>keyed_index\<close> is the contract of an ordered index that the components rely on, and
  \<open>rb_order\<close> provides it.
\<close>

section \<open>Model\<close>

fun rb_search :: "('a \<Rightarrow> int) \<Rightarrow> 'a rb_tree \<Rightarrow> 'a option" where
  "rb_search dir RB_NULL = None"
| "rb_search dir (RB_Node c l x r) =
     (if dir x < 0 then rb_search dir l else if dir x > 0 then rb_search dir r else Some x)"

text \<open>The insertion loops: the place for a new node, or \<open>None\<close> when an equal entry is there.\<close>

fun rb_descend :: "('a \<Rightarrow> int) \<Rightarrow> 'a rb_tree \<Rightarrow> 'a path \<Rightarrow> 'a path option" where
  "rb_descend dir RB_NULL fs = Some fs"
| "rb_descend dir (RB_Node c l x r) fs =
     (if dir x < 0 then rb_descend dir l (LeftOf c x r # fs)
      else if dir x > 0 then rb_descend dir r (RightOf c l x # fs)
      else None)"

definition rb_add :: "('a \<Rightarrow> int) \<Rightarrow> 'a \<Rightarrow> 'a rb_tree \<Rightarrow> 'a rb_tree option" where
  "rb_add dir x root = do {
     p \<leftarrow> rb_descend dir root [];
     rb_insert_color (rb_link_node x p)
   }"

text \<open>The node that a C pointer denotes, by its place in the tree.\<close>

fun rb_locate :: "('a \<Rightarrow> int) \<Rightarrow> 'a rb_tree \<Rightarrow> 'a path \<Rightarrow> 'a cursor option" where
  "rb_locate dir RB_NULL fs = None"
| "rb_locate dir (RB_Node c l x r) fs =
     (if dir x < 0 then rb_locate dir l (LeftOf c x r # fs)
      else if dir x > 0 then rb_locate dir r (RightOf c l x # fs)
      else Some (RB_Node c l x r, fs))"

definition rb_del :: "('a \<Rightarrow> int) \<Rightarrow> 'a rb_tree \<Rightarrow> 'a rb_tree option" where
  "rb_del dir root = do {
     p \<leftarrow> rb_locate dir root [];
     rb_erase p
   }"

text \<open>A store through a pointer to an entry, which leaves the tree's links alone.\<close>

fun rb_adjust :: "('a \<Rightarrow> int) \<Rightarrow> ('a \<Rightarrow> 'a) \<Rightarrow> 'a rb_tree \<Rightarrow> 'a rb_tree" where
  "rb_adjust dir f RB_NULL = RB_NULL"
| "rb_adjust dir f (RB_Node c l x r) =
     (if dir x < 0 then RB_Node c (rb_adjust dir f l) x r
      else if dir x > 0 then RB_Node c l x (rb_adjust dir f r)
      else RB_Node c l (f x) r)"

definition rb_ordered :: "('a \<Rightarrow> 'k) \<Rightarrow> ('k \<Rightarrow> 'k \<Rightarrow> int) \<Rightarrow> 'a rb_tree \<Rightarrow> bool" where
  "rb_ordered key cmp t \<longleftrightarrow> sorted_wrt (\<lambda>x y. cmp (key x) (key y) < 0) (rb_inorder t)"

definition rb_index :: "('a \<Rightarrow> 'k) \<Rightarrow> ('k \<Rightarrow> 'k \<Rightarrow> int) \<Rightarrow> 'a rb_tree \<Rightarrow> bool" where
  "rb_index key cmp t \<longleftrightarrow> rb_inv t \<and> rb_ordered key cmp t"

text \<open>Rewriting every entry in place, as the walks with \<open>rb_first\<close> and \<open>rb_next\<close> do.\<close>

lemma inorder_map_rb_tree [simp]: "rb_inorder (map_rb_tree f t) = map f (rb_inorder t)"
  by (induction t) auto

lemma rb_search_map:
  "(\<And>x. dir (f x) = dir x) \<Longrightarrow> rb_search dir (map_rb_tree f t) = map_option f (rb_search dir t)"
  by (induction t) auto

lemma map_rb_tree_shape [simp]:
  "rb_is_red (map_rb_tree f t) = rb_is_red t"
  "rb_black_height (map_rb_tree f t) = rb_black_height t"
  by (induction t) auto

lemma rb_index_map:
  assumes "rb_index key cmp t" "\<And>x. key (f x) = key x"
  shows "rb_index key cmp (map_rb_tree f t)"
proof -
  have "rb_inv_color (map_rb_tree f t) = rb_inv_color t" "rb_inv_height (map_rb_tree f t) = rb_inv_height t"
    by (induction t) auto
  with assms show ?thesis by (simp add: rb_index_def rb_inv_def rb_ordered_def sorted_wrt_map)
qed

section \<open>The contract of an ordered index\<close>

locale keyed_index =
  fixes key :: "'a \<Rightarrow> 'k"
    and find :: "'k \<Rightarrow> 't \<Rightarrow> 'a option"
    and add :: "'a \<Rightarrow> 't \<Rightarrow> 't option"
    and del :: "'k \<Rightarrow> 't \<Rightarrow> 't option"
    and adjust :: "'k \<Rightarrow> ('a \<Rightarrow> 'a) \<Rightarrow> 't \<Rightarrow> 't"
    and items :: "'t \<Rightarrow> 'a list"
    and invar :: "'t \<Rightarrow> bool"
  assumes find_Some: "invar t \<Longrightarrow> find k t = Some x \<longleftrightarrow> x \<in> set (items t) \<and> key x = k"
    and distinct_keys: "invar t \<Longrightarrow> distinct (map key (items t))"
    and add_new: "invar t \<Longrightarrow> find (key x) t = None \<Longrightarrow>
      \<exists>t'. add x t = Some t' \<and> invar t' \<and> mset (items t') = add_mset x (mset (items t))"
    and add_dup: "invar t \<Longrightarrow> find (key x) t \<noteq> None \<Longrightarrow> add x t = None"
    and del_old: "invar t \<Longrightarrow> find k t = Some x \<Longrightarrow>
      \<exists>t'. del k t = Some t' \<and> invar t' \<and> mset (items t') + {#x#} = mset (items t)"
    and adjust_items: "invar t \<Longrightarrow> (\<And>x. key x = k \<Longrightarrow> key (f x) = k) \<Longrightarrow>
      invar (adjust k f t) \<and> items (adjust k f t) = map (\<lambda>x. if key x = k then f x else x) (items t)"
begin

lemma find_SomeD: "find k t = Some x \<Longrightarrow> invar t \<Longrightarrow> x \<in> set (items t) \<and> key x = k"
  using find_Some by blast

lemma find_unique: "invar t \<Longrightarrow> x \<in> set (items t) \<Longrightarrow> find (key x) t = Some x"
  using find_Some by blast

lemma find_None: "invar t \<Longrightarrow> find k t = None \<longleftrightarrow> (\<forall>x \<in> set (items t). key x \<noteq> k)"
  using find_SomeD [of k t] find_unique [of t] by (cases "find k t") fastforce+

lemma addE:
  assumes "invar t" "find (key x) t = None"
  obtains t' where "add x t = Some t'" "invar t'" "mset (items t') = add_mset x (mset (items t))"
  using add_new [OF assms] by blast

lemma delE:
  assumes "invar t" "find k t = Some x"
  obtains t' where "del k t = Some t'" "invar t'" "mset (items t') + {#x#} = mset (items t)"
  using del_old [OF assms] by blast

lemma set_add:
  assumes "invar t" "find (key x) t = None" "add x t = Some t'"
  shows "set (items t') = insert x (set (items t))"
proof -
  have "mset (items t') = add_mset x (mset (items t))"
    using assms(3) by (rule_tac addE [OF assms(1,2)]) simp
  then have "set_mset (mset (items t')) = set_mset (add_mset x (mset (items t)))" by simp
  then show ?thesis by simp
qed

lemma find_set_eqI:
  assumes "invar t" "\<And>y. y \<in> set (items t) \<and> key y = k \<longleftrightarrow> v = Some y"
  shows "find k t = v"
proof (cases v)
  case None
  with assms(2) show ?thesis by (auto simp: find_None [OF assms(1)])
next
  case (Some y)
  with assms show ?thesis using find_Some by blast
qed

lemma find_add:
  assumes "invar t" "find (key x) t = None" "add x t = Some t'"
  shows "find k t' = (if k = key x then Some x else find k t)"
proof (rule find_set_eqI)
  show "invar t'" using assms(3) by (rule_tac addE [OF assms(1,2)]) simp
  fix y
  have "\<forall>z \<in> set (items t). key z \<noteq> key x" using assms find_None by blast
  then show "y \<in> set (items t') \<and> key y = k \<longleftrightarrow> (if k = key x then Some x else find k t) = Some y"
    using find_Some [OF assms(1), of k y] set_add [OF assms] by auto
qed

lemma set_del:
  assumes "invar t" "find k t = Some x" "del k t = Some t'"
  shows "set (items t') = {y \<in> set (items t). key y \<noteq> k}"
proof -
  have m: "mset (items t') + {#x#} = mset (items t)"
    using assms(3) by (rule_tac delE [OF assms(1,2)]) simp
  have kx: "key x = k" using find_SomeD assms by blast
  have "set_mset (mset (items t') + {#x#}) = set_mset (mset (items t))" by (simp only: m)
  then have s: "insert x (set (items t')) = set (items t)" by simp
  have "image_mset key (mset (items t') + {#x#}) = image_mset key (mset (items t))" by (simp only: m)
  then have "mset (map key (items t') @ [k]) = mset (map key (items t))" using kx by simp
  then have "distinct (map key (items t') @ [k])"
    using distinct_keys [OF assms(1)] mset_eq_imp_distinct_iff by blast
  then have "\<forall>y \<in> set (items t'). key y \<noteq> k" by auto
  with s kx show ?thesis by auto
qed

lemma find_del:
  assumes "invar t" "find k t = Some x" "del k t = Some t'"
  shows "find k' t' = (if k' = k then None else find k' t)"
proof (rule find_set_eqI)
  show "invar t'" using assms(3) by (rule_tac delE [OF assms(1,2)]) simp
  fix y
  show "y \<in> set (items t') \<and> key y = k' \<longleftrightarrow> (if k' = k then None else find k' t) = Some y"
    using find_Some [OF assms(1), of k' y] set_del [OF assms] by auto
qed

lemma items_split:
  assumes "invar t" "find k t = Some x"
  shows "\<exists>xs ys. items t = xs @ x # ys \<and> k \<notin> key ` set (xs @ ys) \<and> key x = k"
proof -
  have x: "x \<in> set (items t)" "key x = k" using find_SomeD assms by blast+
  obtain xs ys where s: "items t = xs @ x # ys" using split_list [OF x(1)] by blast
  have "k \<notin> key ` set (xs @ ys)" using distinct_keys [OF assms(1)] s x(2) by auto
  with s x(2) show ?thesis by blast
qed

lemma adjust_split:
  assumes "invar t" "find k t = Some x" "\<And>x. key x = k \<Longrightarrow> key (f x) = k"
  shows "\<exists>xs ys. items t = xs @ x # ys \<and> items (adjust k f t) = xs @ f x # ys \<and>
    k \<notin> key ` set (xs @ ys)"
proof -
  obtain xs ys where s: "items t = xs @ x # ys" "k \<notin> key ` set (xs @ ys)" "key x = k"
    using items_split [OF assms(1,2)] by blast
  have id: "map (\<lambda>x. if key x = k then f x else x) zs = zs" if "k \<notin> key ` set zs" for zs
    using that by (intro map_idI) auto
  have "items (adjust k f t) = map (\<lambda>x. if key x = k then f x else x) (xs @ x # ys)"
    using adjust_items [OF assms(1,3)] s(1) by simp
  also have "\<dots> = xs @ f x # ys" using s(2,3) id [of xs] id [of ys] by auto
  finally show ?thesis using s by blast
qed

lemma find_adjust:
  assumes "invar t" "\<And>x. key x = k \<Longrightarrow> key (f x) = k"
  shows "find k' (adjust k f t) = (if k' = k then map_option f (find k' t) else find k' t)"
proof (rule find_set_eqI)
  have it: "invar (adjust k f t) \<and>
      items (adjust k f t) = map (\<lambda>x. if key x = k then f x else x) (items t)"
    by (rule adjust_items [OF assms])
  show "invar (adjust k f t)" using it by blast
  fix y
  have mem: "y \<in> set (items (adjust k f t)) \<longleftrightarrow> (\<exists>z \<in> set (items t). y = (if key z = k then f z else z))"
    unfolding conjunct2 [OF it] set_map by blast
  have fnd: "z \<in> set (items t) \<and> key z = k' \<longleftrightarrow> find k' t = Some z" for z
    using find_Some [OF assms(1)] by blast
  have ky: "key (if key z = k then f z else z) = key z" for z
    using assms(2) by simp
  let ?g = "\<lambda>z. if key z = k then f z else z"
  have "y \<in> set (items (adjust k f t)) \<and> key y = k' \<longleftrightarrow>
      (\<exists>z. (z \<in> set (items t) \<and> key z = k') \<and> y = ?g z)"
  proof
    assume "y \<in> set (items (adjust k f t)) \<and> key y = k'"
    then obtain z where "z \<in> set (items t)" "y = ?g z" "key y = k'" using mem by blast
    with ky [of z] show "\<exists>z. (z \<in> set (items t) \<and> key z = k') \<and> y = ?g z"
      by (intro exI [of _ z]) simp
  next
    assume "\<exists>z. (z \<in> set (items t) \<and> key z = k') \<and> y = ?g z"
    then obtain z where "z \<in> set (items t)" "y = ?g z" "key z = k'" by blast
    with ky [of z] show "y \<in> set (items (adjust k f t)) \<and> key y = k'"
      unfolding mem by (intro conjI bexI [of _ z]) simp_all
  qed
  also have "\<dots> \<longleftrightarrow> (\<exists>z. find k' t = Some z \<and> key z = k' \<and> y = ?g z)"
    using fnd by blast
  also have "\<dots> \<longleftrightarrow> (\<exists>z. find k' t = Some z \<and> y = (if k' = k then f z else z))"
  proof (intro arg_cong [of _ _ Ex] ext)
    fix z
    show "(find k' t = Some z \<and> key z = k' \<and> y = ?g z) =
        (find k' t = Some z \<and> y = (if k' = k then f z else z))"
      using fnd [of z] by auto
  qed
  also have "\<dots> \<longleftrightarrow> (if k' = k then map_option f (find k' t) else find k' t) = Some y"
    by auto
  finally show "y \<in> set (items (adjust k f t)) \<and> key y = k' \<longleftrightarrow>
      (if k' = k then map_option f (find k' t) else find k' t) = Some y" .
qed

end

section \<open>A comparison that orders the keys\<close>

locale rb_order =
  fixes key :: "'a \<Rightarrow> 'k"
    and cmp :: "'k \<Rightarrow> 'k \<Rightarrow> int"
  assumes cmp_zero: "cmp a b = 0 \<longleftrightarrow> a = b"
    and cmp_swap: "cmp a b < 0 \<longleftrightarrow> cmp b a > 0"
    and cmp_trans: "cmp a b < 0 \<Longrightarrow> cmp b c < 0 \<Longrightarrow> cmp a c < 0"
begin

abbreviation dir :: "'k \<Rightarrow> 'a \<Rightarrow> int" where
  "dir k \<equiv> \<lambda>x. cmp k (key x)"

abbreviation less_key :: "'a \<Rightarrow> 'a \<Rightarrow> bool" where
  "less_key \<equiv> \<lambda>x y. cmp (key x) (key y) < 0"

lemma cmp_irrefl [simp]: "\<not> cmp a a < 0" "\<not> 0 < cmp a a"
  using cmp_zero [of a a] by auto

lemma cmp_trans_gt: "cmp a b > 0 \<Longrightarrow> cmp b c > 0 \<Longrightarrow> cmp a c > 0"
  using cmp_trans cmp_swap by blast

lemma ordered_Node:
  "rb_ordered key cmp (RB_Node c l x r) \<longleftrightarrow>
     rb_ordered key cmp l \<and> rb_ordered key cmp r \<and>
     (\<forall>y \<in> set (rb_inorder l). less_key y x) \<and> (\<forall>y \<in> set (rb_inorder r). less_key x y)"
  by (auto simp: rb_ordered_def sorted_wrt_append dest: cmp_trans)

lemma cmp_cases:
  obtains (lt) "cmp a b < 0" | (gt) "cmp a b > 0" | (eq) "a = b"
  using cmp_zero [of a b] by linarith

lemma less_key_neq: "cmp a b < 0 \<Longrightarrow> a \<noteq> b"
  by auto

lemma search_Some:
  "rb_ordered key cmp t \<Longrightarrow>
     rb_search (dir k) t = Some x \<longleftrightarrow> x \<in> set (rb_inorder t) \<and> key x = k"
proof (induction t)
  case (RB_Node c l y r)
  note ord = RB_Node.prems [unfolded ordered_Node]
  show ?case
  proof (cases k "key y" rule: cmp_cases)
    case lt
    have "key x \<noteq> k" if "x = y \<or> x \<in> set (rb_inorder r)"
      using that ord lt cmp_trans [of k "key y" "key x"] by auto
    then show ?thesis using lt RB_Node.IH(1) ord by auto
  next
    case gt
    have "key x \<noteq> k" if "x = y \<or> x \<in> set (rb_inorder l)"
      using that ord gt cmp_swap [of "key x" "key y"] by auto
    then show ?thesis using gt RB_Node.IH(2) ord by auto
  next
    case eq
    have "key x \<noteq> k" if "x \<in> set (rb_inorder l) \<or> x \<in> set (rb_inorder r)"
      using that ord eq by auto
    then show ?thesis using eq by auto
  qed
qed (simp add: rb_ordered_def)

lemma sorted_distinct: "sorted_wrt less_key xs \<Longrightarrow> distinct (map key xs)"
  by (induction xs) (auto dest: less_key_neq)

lemma ordered_distinct: "rb_ordered key cmp t \<Longrightarrow> distinct (map key (rb_inorder t))"
  unfolding rb_ordered_def by (rule sorted_distinct)

lemma descend_zip: "rb_descend (dir k) t fs = Some ps \<Longrightarrow> zip_up RB_NULL ps = zip_up t fs"
  by (induction t arbitrary: fs) (auto split: if_splits)

lemma descend_path:
  assumes "rb_ordered key cmp t" "rb_descend (dir k) t fs = Some ps"
    and "\<forall>y \<in> set (before fs). cmp (key y) k < 0" "\<forall>y \<in> set (after fs). cmp k (key y) < 0"
  shows "(\<forall>y \<in> set (before ps). cmp (key y) k < 0) \<and> (\<forall>y \<in> set (after ps). cmp k (key y) < 0)"
  using assms
proof (induction t arbitrary: fs)
  case (RB_Node c l y r)
  note ord = RB_Node.prems(1) [unfolded ordered_Node]
  show ?case
  proof (cases k "key y" rule: cmp_cases)
    case lt
    have "cmp k (key z) < 0" if "z \<in> set (rb_inorder r)" for z
      using that ord lt cmp_trans [of k "key y" "key z"] by auto
    then show ?thesis using lt RB_Node.IH(1) [of "LeftOf c y r # fs"] RB_Node.prems ord by auto
  next
    case gt
    then have "cmp (key y) k < 0" by (simp add: cmp_swap)
    then have "cmp (key z) k < 0" if "z \<in> set (rb_inorder l)" for z
      using that ord cmp_trans [of "key z" "key y" k] by auto
    with \<open>cmp (key y) k < 0\<close>
    show ?thesis using gt RB_Node.IH(2) [of "RightOf c l y # fs"] RB_Node.prems ord by auto
  next
    case eq
    then show ?thesis using RB_Node.prems(2) by simp
  qed
qed simp

lemma descend_None: "rb_descend (dir k) t fs = None \<longleftrightarrow> rb_search (dir k) t \<noteq> None"
  by (induction t arbitrary: fs) auto

lemma locate_search: "map_option cursor_item (rb_locate (dir k) t fs) = rb_search (dir k) t"
  by (induction t arbitrary: fs) (auto simp: cursor_item_def)

lemma locate_zip: "rb_locate (dir k) t fs = Some (s, ps) \<Longrightarrow> zip_up s ps = zip_up t fs"
  by (induction t arbitrary: fs) (auto split: if_splits)

lemma locate_node: "rb_locate (dir k) t fs = Some (s, ps) \<Longrightarrow> s \<noteq> RB_NULL"
  by (induction t arbitrary: fs) (auto split: if_splits)

lemma locate_rest:
  "rb_locate d t fs = Some p \<Longrightarrow> \<exists>xs ys. rb_inorder t = xs @ cursor_item p # ys \<and> rest p = ys @ after fs"
proof (induction d t fs rule: rb_locate.induct)
  case (2 d c l x r fs)
  show ?case
  proof (cases "d x < 0")
    case True
    with "2.IH"(1) "2.prems" obtain xs ys where "rb_inorder l = xs @ cursor_item p # ys" "rest p = ys @ x # rb_inorder r @ after fs"
      by auto
    then show ?thesis by (intro exI [of _ xs] exI [of _ "ys @ x # rb_inorder r"]) simp
  next
    case False
    show ?thesis
    proof (cases "d x > 0")
      case True
      with "2.IH"(2) "2.prems" False obtain xs ys where "rb_inorder r = xs @ cursor_item p # ys" "rest p = ys @ after fs"
        by auto
      then show ?thesis by (intro exI [of _ "rb_inorder l @ x # xs"] exI [of _ ys]) simp
    next
      case n: False
      with False "2.prems" show ?thesis by (auto simp: cursor_item_def)
    qed
  qed
qed simp

lemma rb_add_dup: "rb_search (dir (key x)) t \<noteq> None \<Longrightarrow> rb_add (dir (key x)) x t = None"
  using descend_None [of "key x" t "[]"] by (simp add: rb_add_def)

lemma rb_add_ok:
  assumes "rb_index key cmp t" "rb_search (dir (key x)) t = None"
  shows "\<exists>t'. rb_add (dir (key x)) x t = Some t' \<and> rb_index key cmp t' \<and>
    mset (rb_inorder t') = add_mset x (mset (rb_inorder t))"
proof -
  note inv = assms(1) [unfolded rb_index_def]
  obtain ps where ps: "rb_descend (dir (key x)) t [] = Some ps"
    using assms(2) descend_None [of "key x" t "[]"] by auto
  have z: "zip_up RB_NULL ps = t" using descend_zip [OF ps] by simp
  have hole: "hole_inv False 0 ps" using inv rb_inv_zip_up [of RB_NULL ps] z by simp
  have ino: "rb_inorder t = before ps @ after ps" using inorder_zip_up [of RB_NULL ps] z by simp
  obtain t' where t': "rb_insert_loop (RB_Node RB_RED RB_NULL x RB_NULL) ps = Some t'" "rb_inv t'"
    using rb_insert_loop_inv [of "RB_Node RB_RED RB_NULL x RB_NULL" ps] hole by auto
  have ino': "rb_inorder t' = before ps @ x # after ps"
    using rb_insert_loop_inorder [OF t'(1)] by simp
  have "rb_ordered key cmp t'"
    using descend_path [OF _ ps] inv ino ino' by (auto simp: rb_ordered_def sorted_wrt_append)
  with t' ps ino ino' show ?thesis
    by (simp add: rb_add_def rb_link_node_def rb_insert_color_def rb_index_def)
qed

lemma rb_del_split:
  assumes "rb_index key cmp t" "rb_search (dir k) t = Some x"
  shows "\<exists>t' xs ys. rb_del (dir k) t = Some t' \<and> rb_index key cmp t' \<and>
    rb_inorder t = xs @ x # ys \<and> rb_inorder t' = xs @ ys"
proof -
  note inv = assms(1) [unfolded rb_index_def]
  obtain s ps where s: "rb_locate (dir k) t [] = Some (s, ps)" and "cursor_item (s, ps) = x"
    using locate_search [of k t "[]"] assms(2) by auto
  then obtain c l r where sn: "s = RB_Node c l x r"
    using locate_node [OF s] by (cases s) (auto simp: cursor_item_def)
  have z: "zip_up (RB_Node c l x r) ps = t" using locate_zip [OF s] sn by simp
  have ino: "rb_inorder t = before ps @ (rb_inorder l @ x # rb_inorder r) @ after ps"
    using inorder_zip_up [of "RB_Node c l x r" ps] z by simp
  obtain t' where t': "rb_erase (RB_Node c l x r, ps) = Some t'" "rb_inv t'"
      "rb_inorder t' = before ps @ rb_inorder l @ rb_inorder r @ after ps"
    using rb_erase_ok [of c l x r ps] inv z by auto
  have "rb_ordered key cmp t'"
    using inv t'(3) unfolding rb_ordered_def ino by (auto simp: sorted_wrt_append)
  with t' ino s sn show ?thesis
    by (intro exI [of _ t'] exI [of _ "before ps @ rb_inorder l"] exI [of _ "rb_inorder r @ after ps"])
      (simp add: rb_del_def rb_index_def)
qed

lemma rb_del_ok:
  assumes "rb_index key cmp t" "rb_search (dir k) t = Some x"
  shows "\<exists>t'. rb_del (dir k) t = Some t' \<and> rb_index key cmp t' \<and>
    mset (rb_inorder t') + {#x#} = mset (rb_inorder t)"
  using rb_del_split [OF assms] by fastforce

text \<open>Deleting the entry at a place of the order takes out just that place.\<close>

lemma distinct_split_unique: "distinct (xs @ x # ys) \<Longrightarrow> xs @ x # ys = xs' @ x # ys' \<Longrightarrow> xs = xs' \<and> ys = ys'"
  by (metis append_Cons_eq_iff distinct_append disjoint_insert(1) distinct.simps(2) list.set(2))

lemma rb_del_at:
  assumes idx: "rb_index key cmp t" and t: "rb_inorder t = xs @ x # ys"
  shows "\<exists>t'. rb_del (dir (key x)) t = Some t' \<and> rb_index key cmp t' \<and> rb_inorder t' = xs @ ys"
proof -
  have o: "rb_ordered key cmp t" using idx by (simp add: rb_index_def)
  have "rb_search (dir (key x)) t = Some x" using search_Some [OF o] t by simp
  from rb_del_split [OF idx this] obtain t' xs' ys' where d: "rb_del (dir (key x)) t = Some t'" "rb_index key cmp t'"
    "rb_inorder t = xs' @ x # ys'" "rb_inorder t' = xs' @ ys'" by blast
  have "distinct (rb_inorder t)" using ordered_distinct [OF o] by (simp add: distinct_map)
  then have "xs' = xs \<and> ys' = ys" using distinct_split_unique [of xs x ys xs' ys'] d(3) t by simp
  with d show ?thesis by blast
qed

lemma rb_adjust_shape:
  "rb_is_red (rb_adjust d f t) = rb_is_red t"
  "rb_black_height (rb_adjust d f t) = rb_black_height t"
  "rb_sub (rb_adjust d f t) = rb_sub t"
proof -
  show r: "rb_is_red (rb_adjust d f t) = rb_is_red t" for t by (cases t) auto
  show h: "rb_black_height (rb_adjust d f t) = rb_black_height t" for t by (induction t) auto
  show "rb_sub (rb_adjust d f t) = rb_sub t" by (induction t) (auto simp: r h)
qed

lemma rb_adjust_inorder:
  "rb_ordered key cmp t \<Longrightarrow>
   rb_inorder (rb_adjust (dir k) f t) = map (\<lambda>x. if key x = k then f x else x) (rb_inorder t)"
proof (induction t)
  case (RB_Node c l y r)
  note ord = RB_Node.prems [unfolded ordered_Node]
  have id: "map (\<lambda>x. if key x = k then f x else x) (rb_inorder s) = rb_inorder s"
    if "\<forall>x \<in> set (rb_inorder s). key x \<noteq> k" for s
    using that by (simp add: map_idI)
  show ?case
  proof (cases k "key y" rule: cmp_cases)
    case lt
    have "\<forall>x \<in> set (rb_inorder r). key x \<noteq> k"
      using ord lt cmp_trans [of k "key y"] by fastforce
    then show ?thesis using lt RB_Node.IH(1) ord id [of r] by auto
  next
    case gt
    have "\<forall>x \<in> set (rb_inorder l). key x \<noteq> k"
      using ord gt cmp_swap [of _ "key y"] by fastforce
    then show ?thesis using gt RB_Node.IH(2) ord id [of l] by auto
  next
    case eq
    have "\<forall>x \<in> set (rb_inorder l) \<union> set (rb_inorder r). key x \<noteq> k"
      using ord eq by fastforce
    then show ?thesis using eq id [of l] id [of r] by simp
  qed
qed simp

lemma rb_adjust_ok:
  assumes "rb_index key cmp t" "\<And>x. key x = k \<Longrightarrow> key (f x) = k"
  shows "rb_index key cmp (rb_adjust (dir k) f t) \<and>
    rb_inorder (rb_adjust (dir k) f t) = map (\<lambda>x. if key x = k then f x else x) (rb_inorder t)"
proof -
  note inv = assms(1) [unfolded rb_index_def]
  note ino = rb_adjust_inorder [of t k f, OF conjunct2 [OF inv]]
  have "key (if key x = k then f x else x) = key x" for x using assms(2) by simp
  then have "rb_ordered key cmp (rb_adjust (dir k) f t)"
    using inv unfolding rb_ordered_def ino by (simp add: sorted_wrt_map del: if_split)
  with ino inv show ?thesis by (simp add: rb_index_def rb_inv_iff_sub rb_adjust_shape)
qed

text \<open>\<open>rb_next\<close> of the node of an entry is the entry after it in the order.\<close>

lemma locate_next:
  assumes idx: "rb_index key cmp t" and t: "rb_inorder t = xs @ x # ys"
  shows "\<exists>p. rb_locate (dir (key x)) t [] = Some p \<and>
    map_option cursor_item (rb_next p) = (case ys of [] \<Rightarrow> None | y # _ \<Rightarrow> Some y)"
proof -
  have o: "rb_ordered key cmp t" using idx by (simp add: rb_index_def)
  have "rb_search (dir (key x)) t = Some x" using search_Some [OF o] t by simp
  then obtain p where p: "rb_locate (dir (key x)) t [] = Some p" "cursor_item p = x"
    using locate_search [of "key x" t "[]"] by auto
  obtain xs' ys' where s: "rb_inorder t = xs' @ x # ys'" "rest p = ys'" using locate_rest [OF p(1)] p(2) by auto
  have "distinct (rb_inorder t)" using ordered_distinct [OF o] by (simp add: distinct_map)
  then have "ys' = ys" using s(1) t distinct_split_unique [of xs x ys xs' ys'] by simp
  moreover have "fst p \<noteq> RB_NULL" using locate_node p(1) by (metis prod.collapse)
  ultimately have "map_option cursor_item (rb_next p) = (case ys of [] \<Rightarrow> None | y # _ \<Rightarrow> Some y)"
    using rb_next_None [of p] rb_next_rest [of p] s(2) by (cases "rb_next p") auto
  with p(1) show ?thesis by blast
qed

lemma rb_index_NULL: "rb_index key cmp RB_NULL"
  by (simp add: rb_index_def rb_ordered_def)

end

text \<open>A comparison that orders its keys makes the red-black tree loops an ordered index.\<close>

sublocale rb_order \<subseteq> keyed_index key "\<lambda>k. rb_search (\<lambda>x. cmp k (key x))"
  "\<lambda>x. rb_add (\<lambda>y. cmp (key x) (key y)) x" "\<lambda>k. rb_del (\<lambda>x. cmp k (key x))"
  "\<lambda>k. rb_adjust (\<lambda>x. cmp k (key x))" rb_inorder "rb_index key cmp"
proof
  fix t and k :: 'k and x :: 'a and f :: "'a \<Rightarrow> 'a"
  assume t: "rb_index key cmp t"
  then have ord: "rb_ordered key cmp t" by (simp add: rb_index_def)
  show "rb_search (dir k) t = Some x \<longleftrightarrow> x \<in> set (rb_inorder t) \<and> key x = k"
    by (rule search_Some [OF ord])
  show "distinct (map key (rb_inorder t))" by (rule ordered_distinct [OF ord])
  show "rb_search (dir (key x)) t = None \<Longrightarrow> \<exists>t'. rb_add (dir (key x)) x t = Some t' \<and>
      rb_index key cmp t' \<and> mset (rb_inorder t') = add_mset x (mset (rb_inorder t))"
    by (rule rb_add_ok [OF t])
  show "rb_search (dir (key x)) t \<noteq> None \<Longrightarrow> rb_add (dir (key x)) x t = None"
    by (rule rb_add_dup)
  show "rb_search (dir k) t = Some x \<Longrightarrow> \<exists>t'. rb_del (dir k) t = Some t' \<and>
      rb_index key cmp t' \<and> mset (rb_inorder t') + {#x#} = mset (rb_inorder t)"
    by (rule rb_del_ok [OF t])
  show "(\<And>x. key x = k \<Longrightarrow> key (f x) = k) \<Longrightarrow> rb_index key cmp (rb_adjust (dir k) f t) \<and>
      rb_inorder (rb_adjust (dir k) f t) = map (\<lambda>x. if key x = k then f x else x) (rb_inorder t)"
    by (rule rb_adjust_ok [OF t])
qed

end
