(* ===== verification/KList.thy ===== *)
theory KList
  imports Prelude
begin

text \<open>
  The intrusive doubly linked lists of \<open>list.h\<close>, at the level of the pointers. The heap maps the
  address of every \<open>struct list_head\<close> to its \<open>next\<close> and \<open>prev\<close> fields, and an operation is the
  sequence of stores of the C function, in the order of the C function.

  \<open>ring h head xs\<close> says that the list at \<open>head\<close> holds the entries \<open>xs\<close>, in order. Every operation
  is shown to do to \<open>xs\<close> what its comment in \<open>list.h\<close> says, and to leave every list that shares
  no entry with it as it was. The other theories use this to work with HOL lists.
\<close>

type_synonym addr = nat

record list_heap =
  lnext :: "addr \<Rightarrow> addr"
  lprev :: "addr \<Rightarrow> addr"

section \<open>Model\<close>

definition LIST_POISON1 :: addr where
  "LIST_POISON1 = 0x00100100"

definition LIST_POISON2 :: addr where
  "LIST_POISON2 = 0x00200200"

definition set_next :: "addr \<Rightarrow> addr \<Rightarrow> list_heap \<Rightarrow> list_heap" where
  "set_next a b h = h\<lparr>lnext := (lnext h)(a := b)\<rparr>"

definition set_prev :: "addr \<Rightarrow> addr \<Rightarrow> list_heap \<Rightarrow> list_heap" where
  "set_prev a b h = h\<lparr>lprev := (lprev h)(a := b)\<rparr>"

definition INIT_LIST_HEAD :: "addr \<Rightarrow> list_heap \<Rightarrow> list_heap" where
  "INIT_LIST_HEAD l h = set_prev l l (set_next l l h)"

definition list_add_between :: "addr \<Rightarrow> addr \<Rightarrow> addr \<Rightarrow> list_heap \<Rightarrow> list_heap" where
  "list_add_between new p n h =
     (let h = set_prev n new h;
          h = set_next new n h;
          h = set_prev new p h
      in set_next p new h)"

definition list_add :: "addr \<Rightarrow> addr \<Rightarrow> list_heap \<Rightarrow> list_heap" where
  "list_add new head h = list_add_between new head (lnext h head) h"

definition list_add_tail :: "addr \<Rightarrow> addr \<Rightarrow> list_heap \<Rightarrow> list_heap" where
  "list_add_tail new head h = list_add_between new (lprev h head) head h"

definition list_del_between :: "addr \<Rightarrow> addr \<Rightarrow> list_heap \<Rightarrow> list_heap" where
  "list_del_between p n h = set_next p n (set_prev n p h)"

definition list_del_entry :: "addr \<Rightarrow> list_heap \<Rightarrow> list_heap" where
  "list_del_entry e h = list_del_between (lprev h e) (lnext h e) h"

definition list_del :: "addr \<Rightarrow> list_heap \<Rightarrow> list_heap" where
  "list_del e h =
     (let h = list_del_between (lprev h e) (lnext h e) h
      in set_prev e LIST_POISON2 (set_next e LIST_POISON1 h))"

definition list_replace :: "addr \<Rightarrow> addr \<Rightarrow> list_heap \<Rightarrow> list_heap" where
  "list_replace old new h =
     (let h = set_next new (lnext h old) h;
          h = set_prev (lnext h new) new h;
          h = set_prev new (lprev h old) h
      in set_next (lprev h new) new h)"

definition list_replace_init :: "addr \<Rightarrow> addr \<Rightarrow> list_heap \<Rightarrow> list_heap" where
  "list_replace_init old new h = INIT_LIST_HEAD old (list_replace old new h)"

definition list_del_init :: "addr \<Rightarrow> list_heap \<Rightarrow> list_heap" where
  "list_del_init e h = INIT_LIST_HEAD e (list_del_entry e h)"

definition list_move :: "addr \<Rightarrow> addr \<Rightarrow> list_heap \<Rightarrow> list_heap" where
  "list_move e head h = list_add e head (list_del_entry e h)"

definition list_move_tail :: "addr \<Rightarrow> addr \<Rightarrow> list_heap \<Rightarrow> list_heap" where
  "list_move_tail e head h = list_add_tail e head (list_del_entry e h)"

definition list_is_last :: "addr \<Rightarrow> addr \<Rightarrow> list_heap \<Rightarrow> bool" where
  "list_is_last e head h \<longleftrightarrow> lnext h e = head"

definition list_empty :: "addr \<Rightarrow> list_heap \<Rightarrow> bool" where
  "list_empty head h \<longleftrightarrow> lnext h head = head"

definition list_empty_careful :: "addr \<Rightarrow> list_heap \<Rightarrow> bool" where
  "list_empty_careful head h \<longleftrightarrow> (let n = lnext h head in n = head \<and> n = lprev h head)"

definition list_rotate_left :: "addr \<Rightarrow> list_heap \<Rightarrow> list_heap" where
  "list_rotate_left head h =
     (if \<not> list_empty head h then let first = lnext h head in list_move_tail first head h else h)"

definition list_is_singular :: "addr \<Rightarrow> list_heap \<Rightarrow> bool" where
  "list_is_singular head h \<longleftrightarrow> \<not> list_empty head h \<and> lnext h head = lprev h head"

definition list_cut_at :: "addr \<Rightarrow> addr \<Rightarrow> addr \<Rightarrow> list_heap \<Rightarrow> list_heap" where
  "list_cut_at l head e h =
     (let new_first = lnext h e;
          h = set_next l (lnext h head) h;
          h = set_prev (lnext h l) l h;
          h = set_prev l e h;
          h = set_next e l h;
          h = set_next head new_first h
      in set_prev new_first head h)"

definition list_cut_position :: "addr \<Rightarrow> addr \<Rightarrow> addr \<Rightarrow> list_heap \<Rightarrow> list_heap" where
  "list_cut_position l head e h =
     (if list_empty head h then h
      else if list_is_singular head h \<and> lnext h head \<noteq> e \<and> head \<noteq> e then h
      else if e = head then INIT_LIST_HEAD l h
      else list_cut_at l head e h)"

definition list_splice_between :: "addr \<Rightarrow> addr \<Rightarrow> addr \<Rightarrow> list_heap \<Rightarrow> list_heap" where
  "list_splice_between l p n h =
     (let first = lnext h l; last = lprev h l;
          h = set_prev first p h;
          h = set_next p first h;
          h = set_next last n h
      in set_prev n last h)"

definition list_splice :: "addr \<Rightarrow> addr \<Rightarrow> list_heap \<Rightarrow> list_heap" where
  "list_splice l head h =
     (if \<not> list_empty l h then list_splice_between l head (lnext h head) h else h)"

definition list_splice_tail :: "addr \<Rightarrow> addr \<Rightarrow> list_heap \<Rightarrow> list_heap" where
  "list_splice_tail l head h =
     (if \<not> list_empty l h then list_splice_between l (lprev h head) head h else h)"

definition list_splice_init :: "addr \<Rightarrow> addr \<Rightarrow> list_heap \<Rightarrow> list_heap" where
  "list_splice_init l head h =
     (if \<not> list_empty l h
      then INIT_LIST_HEAD l (list_splice_between l head (lnext h head) h) else h)"

definition list_splice_tail_init :: "addr \<Rightarrow> addr \<Rightarrow> list_heap \<Rightarrow> list_heap" where
  "list_splice_tail_init l head h =
     (if \<not> list_empty l h
      then INIT_LIST_HEAD l (list_splice_between l (lprev h head) head h) else h)"

text \<open>
  The loops of \<open>list_for_each\<close> and \<open>list_for_each_prev\<close>: the positions visited from \<open>pos\<close> until
  the head is met. On a heap that is not a ring the loop may not end, which is \<open>None\<close>.
\<close>

partial_function (option) list_for_each :: "addr \<Rightarrow> list_heap \<Rightarrow> addr \<Rightarrow> addr list option" where
  "list_for_each head h pos =
     (if pos = head then Some []
      else do { ps \<leftarrow> list_for_each head h (lnext h pos); Some (pos # ps) })"

partial_function (option) list_for_each_prev :: "addr \<Rightarrow> list_heap \<Rightarrow> addr \<Rightarrow> addr list option" where
  "list_for_each_prev head h pos =
     (if pos = head then Some []
      else do { ps \<leftarrow> list_for_each_prev head h (lprev h pos); Some (pos # ps) })"

definition list_entries :: "addr \<Rightarrow> list_heap \<Rightarrow> addr list option" where
  "list_entries head h = list_for_each head h (lnext h head)"

definition list_entries_reverse :: "addr \<Rightarrow> list_heap \<Rightarrow> addr list option" where
  "list_entries_reverse head h = list_for_each_prev head h (lprev h head)"

section \<open>Rings\<close>

fun links :: "list_heap \<Rightarrow> addr list \<Rightarrow> bool" where
  "links h (a # b # ps) = (lnext h a = b \<and> lprev h b = a \<and> links h (b # ps))"
| "links h ps = True"

definition ring :: "list_heap \<Rightarrow> addr \<Rightarrow> addr list \<Rightarrow> bool" where
  "ring h head xs \<longleftrightarrow> distinct (head # xs) \<and> links h (head # xs @ [head])"

lemma heap_simps [simp]:
  "lnext (set_next a b h) = (lnext h)(a := b)"
  "lprev (set_next a b h) = lprev h"
  "lnext (set_prev a b h) = lnext h"
  "lprev (set_prev a b h) = (lprev h)(a := b)"
  by (simp_all add: set_next_def set_prev_def)

lemma links_append: "links h (ps @ a # qs) \<longleftrightarrow> links h (ps @ [a]) \<and> links h (a # qs)"
  by (induction ps rule: induct_list012) (auto simp: neq_Nil_conv split: list.splits)

lemma links_join:
  "ps \<noteq> [] \<Longrightarrow> qs \<noteq> [] \<Longrightarrow> links h (ps @ qs) \<longleftrightarrow>
     links h ps \<and> lnext h (last ps) = hd qs \<and> lprev h (hd qs) = last ps \<and> links h qs"
proof (induction ps rule: induct_list012)
  case (2 x)
  then show ?case by (cases qs) auto
qed auto

lemma links_cong:
  assumes "\<And>a. a \<in> set (butlast ps) \<Longrightarrow> lnext h' a = lnext h a"
    and "\<And>a. a \<in> set (tl ps) \<Longrightarrow> lprev h' a = lprev h a"
  shows "links h' ps = links h ps"
  using assms by (induction h ps rule: links.induct) auto


definition same_outside :: "addr set \<Rightarrow> list_heap \<Rightarrow> list_heap \<Rightarrow> bool" where
  "same_outside A h h' \<longleftrightarrow> (\<forall>a. a \<notin> A \<longrightarrow> lnext h' a = lnext h a \<and> lprev h' a = lprev h a)"

lemma ring_distinct: "ring h head xs \<Longrightarrow> head \<notin> set xs \<and> distinct xs"
  by (simp add: ring_def)

lemma ring_frame:
  assumes "ring h head xs" "same_outside A h h'" "A \<inter> set (head # xs) = {}"
  shows "ring h' head xs"
proof -
  have "links h' (head # xs @ [head]) = links h (head # xs @ [head])"
    using assms(2,3) by (intro links_cong) (auto simp: same_outside_def butlast_append)
  with assms(1) show ?thesis by (simp add: ring_def)
qed

lemma ring_rotate: "ring h a (xs @ b # ys) \<Longrightarrow> ring h b (ys @ a # xs)"
  using links_append [of h "a # xs" b "ys @ [a]"] links_append [of h "b # ys" a "xs @ [b]"]
  by (auto simp: ring_def)

lemma ring_next: "ring h head xs \<Longrightarrow> lnext h head = hd (xs @ [head])"
  by (cases xs) (auto simp: ring_def)

lemma ring_prev: "ring h head xs \<Longrightarrow> lprev h head = last (head # xs)"
  using links_join [of "head # xs" "[head]" h] by (simp add: ring_def)

lemma ring_entry_next: "ring h head (xs @ e # ys) \<Longrightarrow> lnext h e = hd (ys @ [head])"
  using ring_next [OF ring_rotate] by (cases ys) auto

lemma ring_Nil: "ring h head [] \<longleftrightarrow> lnext h head = head \<and> lprev h head = head"
  by (auto simp: ring_def)

text \<open>The three pointer surgeries, at the head of a ring.\<close>

lemma add_between_ring:
  assumes "ring h a xs" "new \<notin> set (a # xs)"
  shows "ring (list_add_between new a (hd (xs @ [a])) h) a (new # xs)"
proof (cases xs)
  case Nil
  with assms show ?thesis by (auto simp: ring_def list_add_between_def)
next
  case (Cons b ys)
  let ?h = "list_add_between new a b h"
  have "links ?h (b # ys @ [a]) = links h (b # ys @ [a])"
    using assms Cons by (intro links_cong) (auto simp: list_add_between_def ring_def butlast_append)
  with assms Cons show ?thesis by (auto simp: ring_def list_add_between_def)
qed

lemma add_between_same: "same_outside {new, p, n} h (list_add_between new p n h)"
  by (simp add: same_outside_def list_add_between_def)

lemma del_entry_ring_aux:
  assumes "ring h e (b # ys)"
  shows "ring (list_del_entry e h) b ys"
proof (cases ys rule: rev_cases)
  case Nil
  with assms show ?thesis by (auto simp: ring_def list_del_entry_def list_del_between_def)
next
  case (snoc zs l)
  let ?h = "list_del_entry e h"
  have "lprev h e = l" "lnext h e = b"
    using ring_prev [OF assms] ring_next [OF assms] snoc by auto
  then have h: "?h = set_next l b (set_prev b l h)"
    by (simp add: list_del_entry_def list_del_between_def)
  have d: "distinct (b # zs @ [l])" using assms snoc by (auto simp: ring_def)
  have "links h (b # zs @ [l])"
    using assms snoc links_append [of h "b # zs" l "[e]"] by (auto simp: ring_def)
  moreover have "links ?h (b # zs @ [l]) = links h (b # zs @ [l])"
    unfolding h using d by (intro links_cong) auto
  moreover have "links ?h [l, b]" unfolding h using d by simp
  ultimately show ?thesis using links_append [of ?h "b # zs" l "[b]"] d snoc by (simp add: ring_def)
qed

lemma del_entry_ring:
  assumes "ring h head (xs @ e # ys)"
  shows "ring (list_del_entry e h) head (xs @ ys)"
proof (cases ys)
  case Nil
  then show ?thesis using del_entry_ring_aux ring_rotate [OF assms] by simp
next
  case (Cons y zs)
  then have "ring (list_del_entry e h) y (zs @ head # xs)"
    using del_entry_ring_aux [of h e y] ring_rotate [OF assms] by simp
  from ring_rotate [OF this] Cons show ?thesis by simp
qed

lemma del_entry_same: "same_outside {lprev h e, lnext h e} h (list_del_entry e h)"
  by (simp add: same_outside_def list_del_entry_def list_del_between_def)

lemma splice_between_ring:
  assumes "ring h l ys" "ring h head xs" "ys \<noteq> []" "set (l # ys) \<inter> set (head # xs) = {}"
  shows "ring (list_splice_between l head (hd (xs @ [head])) h) head (ys @ xs)"
proof -
  let ?f = "hd ys" and ?e = "last ys" and ?n = "hd (xs @ [head])"
  let ?h = "list_splice_between l head ?n h"
  have "lnext h l = ?f" "lprev h l = ?e"
    using ring_next [OF assms(1)] ring_prev [OF assms(1)] assms(3) by auto
  then have h: "?h = set_prev ?n ?e (set_next ?e ?n (set_next head ?f (set_prev ?f head h)))"
    by (simp add: list_splice_between_def Let_def)
  have d: "distinct ys" "distinct (head # xs)" using assms by (auto simp: ring_def)
  have disj: "a \<noteq> c" if "a \<in> set ys" "c \<in> set (head # xs)" for a c using assms(4) that by auto
  have f: "?f \<in> set ys" and e: "?e \<in> set ys" and n: "?n \<in> set (head # xs)"
    using assms(3) by (simp_all add: hd_append)
  have ey: "?e \<notin> set (butlast ys)" and fy: "?f \<notin> set (tl ys)"
    using d(1) assms(3) by (metis append_butlast_last_id distinct_append disjoint_iff list.set_intros(1),
      cases ys, auto)
  have nx: "?n \<notin> set (tl (xs @ [head]))" using d(2) by (cases xs) auto
  have fx: "?f \<notin> set (tl (xs @ [head]))" using disj [OF f] list.set_sel(2) [of "xs @ [head]" ?f] by auto
  have "links h ys" "links h (xs @ [head])"
    using assms(1-3) links_join [of "[l]" "ys @ [l]" h] links_join [of ys "[l]" h]
      links_join [of "[head]" "xs @ [head]" h] by (simp_all add: ring_def)
  moreover have "links ?h ys = links h ys"
    unfolding h using ey fy n disj in_set_butlastD [of _ ys] list.set_sel(2) [OF assms(3)]
    by (intro links_cong) (auto dest: disj)
  moreover have "links ?h (xs @ [head]) = links h (xs @ [head])"
    unfolding h using nx fx e f d(2) disj
    by (intro links_cong) (auto simp: butlast_append dest: disj in_set_butlastD)
  moreover have "lnext ?h head = ?f" "lnext ?h ?e = ?n" "lprev ?h ?n = ?e" "lprev ?h ?f = head"
    unfolding h using disj [OF e, of head] disj [OF f n] by auto
  ultimately have "links ?h (head # ys @ xs @ [head])"
    using links_join [of "[head]" "ys @ xs @ [head]" ?h] links_join [of ys "xs @ [head]" ?h] assms(3)
    by simp
  with d assms(4) show ?thesis by (auto simp: ring_def)
qed

lemma splice_between_same:
  "same_outside {lnext h l, lprev h l, p, n} h (list_splice_between l p n h)"
  by (simp add: same_outside_def list_splice_between_def Let_def)

section \<open>The operations on lists\<close>

lemma INIT_LIST_HEAD_ring: "ring (INIT_LIST_HEAD head h) head []"
  by (simp add: ring_Nil INIT_LIST_HEAD_def)

lemma INIT_LIST_HEAD_same: "same_outside {head} h (INIT_LIST_HEAD head h)"
  by (simp add: same_outside_def INIT_LIST_HEAD_def)

lemma list_add_ring: "ring h head xs \<Longrightarrow> new \<notin> set (head # xs) \<Longrightarrow> ring (list_add new head h) head (new # xs)"
  using add_between_ring [of h head xs new] by (simp add: list_add_def ring_next)

lemma list_add_tail_ring:
  assumes "ring h head xs" "new \<notin> set (head # xs)"
  shows "ring (list_add_tail new head h) head (xs @ [new])"
proof (cases xs rule: rev_cases)
  case Nil
  with assms show ?thesis
    using add_between_ring [of h head "[]" new] ring_prev [OF assms(1)] ring_rotate [of _ head "[]" new "[]"]
    by (auto simp: list_add_tail_def)
next
  case (snoc ys e)
  then have r: "ring h e (head # ys)" using ring_rotate [of h head ys e "[]"] assms(1) by simp
  have "lprev h head = e" using ring_prev [OF assms(1)] snoc by simp
  with add_between_ring [OF r, of new] assms(2) snoc
  have "ring (list_add_tail new head h) e ([new] @ head # ys)" by (simp add: list_add_tail_def)
  from ring_rotate [OF this] snoc show ?thesis by simp
qed

lemma list_empty_ring: "ring h head xs \<Longrightarrow> list_empty head h \<longleftrightarrow> xs = []"
  using ring_next [of h head xs] by (cases xs) (auto simp: list_empty_def dest: ring_distinct)

lemma list_empty_careful_ring: "ring h head xs \<Longrightarrow> list_empty_careful head h \<longleftrightarrow> xs = []"
  using ring_next [of h head xs] ring_prev [of h head xs]
  by (cases xs) (auto simp: list_empty_careful_def Let_def dest: ring_distinct)

lemma list_is_singular_ring: "ring h head xs \<Longrightarrow> list_is_singular head h \<longleftrightarrow> length xs = 1"
  using ring_next [of h head xs] ring_prev [of h head xs] ring_distinct [of h head xs]
  by (cases xs; cases "tl xs") (auto simp: list_is_singular_def list_empty_ring split: if_splits)

lemma list_is_last_ring: "ring h head (xs @ e # ys) \<Longrightarrow> list_is_last e head h \<longleftrightarrow> ys = []"
  using ring_entry_next [of h head xs e ys] ring_distinct [of h head "xs @ e # ys"]
  by (cases ys) (auto simp: list_is_last_def)

lemma ring_prev_in: "ring h head xs \<Longrightarrow> lprev h head \<in> set (head # xs)"
  using ring_prev by (metis last_in_set list.discI)

lemma ring_next_in: "ring h head xs \<Longrightarrow> lnext h head \<in> set (head # xs)"
  using ring_next [of h head xs] by (cases xs) auto

lemma ring_entry_in:
  assumes "ring h head (xs @ e # ys)"
  shows "lnext h e \<in> set (head # xs @ ys) \<and> lprev h e \<in> set (head # xs @ ys)"
  using ring_next [OF ring_rotate [OF assms]] ring_prev [OF ring_rotate [OF assms]]
  by (cases ys; cases xs rule: rev_cases) auto

lemma same_outside_mono: "same_outside A h h' \<Longrightarrow> A \<subseteq> B \<Longrightarrow> same_outside B h h'"
  by (auto simp: same_outside_def)

lemma same_outside_trans:
  "same_outside A h h' \<Longrightarrow> same_outside A h' h'' \<Longrightarrow> same_outside A h h''"
  by (auto simp: same_outside_def)

lemma list_add_same: "ring h head xs \<Longrightarrow> same_outside (set (new # head # xs)) h (list_add new head h)"
  unfolding list_add_def by (rule same_outside_mono [OF add_between_same]) (use ring_next_in in auto)

lemma list_add_tail_same:
  "ring h head xs \<Longrightarrow> same_outside (set (new # head # xs)) h (list_add_tail new head h)"
  unfolding list_add_tail_def by (rule same_outside_mono [OF add_between_same]) (use ring_prev_in in auto)

lemma list_del_entry_same:
  "ring h head (xs @ e # ys) \<Longrightarrow> same_outside (set (head # xs @ ys)) h (list_del_entry e h)"
  by (rule same_outside_mono [OF del_entry_same]) (use ring_entry_in in auto)

lemma list_del_ring:
  assumes "ring h head (xs @ e # ys)"
  shows "ring (list_del e h) head (xs @ ys)"
proof -
  have "same_outside {e} (list_del_entry e h) (list_del e h)"
    by (simp add: list_del_def list_del_entry_def same_outside_def Let_def)
  with del_entry_ring [OF assms] show ?thesis
    by (rule ring_frame) (use assms in \<open>auto simp: ring_def\<close>)
qed

lemma list_del_init_ring:
  assumes "ring h head (xs @ e # ys)"
  shows "ring (list_del_init e h) head (xs @ ys) \<and> ring (list_del_init e h) e []"
  using del_entry_ring [OF assms] ring_distinct [OF assms]
  by (auto simp: list_del_init_def INIT_LIST_HEAD_ring intro: ring_frame [OF _ INIT_LIST_HEAD_same])

lemma list_move_tail_same_ring:
  assumes "ring h head (xs @ e # ys)"
  shows "ring (list_move_tail e head h) head (xs @ ys @ [e])"
  using list_add_tail_ring [OF del_entry_ring [OF assms], of e] ring_distinct [OF assms]
  by (auto simp: list_move_tail_def)

lemma list_move_tail_ring:
  assumes src: "ring h head (xs @ e # ys)" and dst: "ring h dest zs"
    and disj: "set (head # xs @ e # ys) \<inter> set (dest # zs) = {}"
  shows "ring (list_move_tail e dest h) head (xs @ ys) \<and> ring (list_move_tail e dest h) dest (zs @ [e])"
proof
  let ?h = "list_del_entry e h"
  have d: "ring ?h dest zs"
    by (rule ring_frame [OF dst list_del_entry_same [OF src]]) (use disj in auto)
  show "ring (list_move_tail e dest h) dest (zs @ [e])"
    unfolding list_move_tail_def by (rule list_add_tail_ring [OF d]) (use disj in auto)
  show "ring (list_move_tail e dest h) head (xs @ ys)"
    unfolding list_move_tail_def
    by (rule ring_frame [OF del_entry_ring [OF src] list_add_tail_same [OF d]])
      (use disj ring_distinct [OF src] in auto)
qed

lemma list_move_ring:
  assumes src: "ring h head (xs @ e # ys)" and dst: "ring h dest zs"
    and disj: "set (head # xs @ e # ys) \<inter> set (dest # zs) = {}"
  shows "ring (list_move e dest h) head (xs @ ys) \<and> ring (list_move e dest h) dest (e # zs)"
proof
  let ?h = "list_del_entry e h"
  have d: "ring ?h dest zs"
    by (rule ring_frame [OF dst list_del_entry_same [OF src]]) (use disj in auto)
  show "ring (list_move e dest h) dest (e # zs)"
    unfolding list_move_def by (rule list_add_ring [OF d]) (use disj in auto)
  show "ring (list_move e dest h) head (xs @ ys)"
    unfolding list_move_def
    by (rule ring_frame [OF del_entry_ring [OF src] list_add_same [OF d]])
      (use disj ring_distinct [OF src] in auto)
qed

lemma list_rotate_left_ring: "ring h head (x # xs) \<Longrightarrow> ring (list_rotate_left head h) head (xs @ [x])"
  using list_move_tail_same_ring [of h head "[]" x xs] ring_next [of h head "x # xs"]
  by (simp add: list_rotate_left_def list_empty_ring Let_def)

lemma list_replace_head_ring:
  assumes "ring h old xs" "new \<notin> set (old # xs)"
  shows "ring (list_replace old new h) new xs"
proof (cases xs)
  case Nil
  with assms show ?thesis by (auto simp: ring_Nil list_replace_def)
next
  case (Cons b ys)
  let ?h = "list_replace old new h"
  have ol: "lnext h old = b" "lprev h old = last xs"
    using ring_next [OF assms(1)] ring_prev [OF assms(1)] Cons by auto
  have d: "distinct xs" "last xs \<notin> set (butlast xs)" "last xs \<in> set xs" "old \<notin> set xs"
    using ring_distinct [OF assms(1)] Cons
    by (auto, metis append_butlast_last_id disjoint_iff distinct_append list.discI list.set_intros(1))
  have h: "?h = set_next (last xs) new (set_prev new (last xs) (set_prev b new (set_next new b h)))"
    using ol d assms(2) Cons by (auto simp: list_replace_def Let_def)
  have "links h xs" using assms(1) Cons links_join [of "[old]" "xs @ [old]" h] links_join [of xs "[old]" h]
    by (simp add: ring_def)
  moreover have "links ?h xs = links h xs"
    unfolding h using d assms(2) Cons in_set_butlastD [of _ xs] by (intro links_cong) auto
  moreover have "lnext ?h new = b" "lprev ?h b = new" "lnext ?h (last xs) = new" "lprev ?h new = last xs"
    unfolding h using assms(2) d(3) Cons by auto
  ultimately have "links ?h (new # xs @ [new])"
    using links_join [of "[new]" "xs @ [new]" ?h] links_join [of xs "[new]" ?h] Cons by simp
  with d assms(2) show ?thesis by (simp add: ring_def)
qed

lemma list_replace_ring:
  assumes "ring h head (xs @ old # ys)" "new \<notin> set (head # xs @ old # ys)"
  shows "ring (list_replace old new h) head (xs @ new # ys)"
  using ring_rotate [OF list_replace_head_ring [OF ring_rotate [OF assms(1)]], of new] assms(2) by auto

lemma list_splice_ring:
  assumes "ring h l ys" "ring h head xs" "set (l # ys) \<inter> set (head # xs) = {}"
  shows "ring (list_splice l head h) head (ys @ xs)"
  using assms splice_between_ring [OF assms(1,2) _ assms(3)]
  by (simp add: list_splice_def list_empty_ring ring_next [of h head])

lemma list_splice_tail_ring:
  assumes "ring h l ys" "ring h head xs" "set (l # ys) \<inter> set (head # xs) = {}"
  shows "ring (list_splice_tail l head h) head (xs @ ys)"
proof (cases "ys = []")
  case False
  show ?thesis
  proof (cases xs rule: rev_cases)
    case Nil
    then show ?thesis
      using False assms splice_between_ring [OF assms(1,2) False assms(3)] ring_prev [OF assms(2)]
      by (simp add: list_splice_tail_def list_empty_ring)
  next
    case (snoc zs e)
    then have r: "ring h e ([] @ head # zs)" using ring_rotate [of h head zs e "[]"] assms(2) by simp
    have p: "lprev h head = e" using ring_prev [OF assms(2)] snoc by simp
    have "ring (list_splice_between l e head h) e (ys @ head # zs)"
      using splice_between_ring [OF assms(1) r False] assms(3) snoc by auto
    then show ?thesis
      using ring_rotate snoc p assms(1) False
      by (fastforce simp: list_splice_tail_def list_empty_ring)
  qed
qed (use assms in \<open>simp add: list_splice_tail_def list_empty_ring\<close>)

lemma list_splice_init_ring:
  assumes "ring h l ys" "ring h head xs" "set (l # ys) \<inter> set (head # xs) = {}"
  shows "ring (list_splice_init l head h) head (ys @ xs) \<and> ring (list_splice_init l head h) l []"
proof (cases "ys = []")
  case False
  then have e: "list_splice_init l head h = INIT_LIST_HEAD l (list_splice l head h)"
    using assms(1) by (simp add: list_splice_init_def list_splice_def list_empty_ring)
  have "l \<notin> set ys" using ring_distinct [OF assms(1)] by simp
  then show ?thesis
    using list_splice_ring [OF assms] assms(3) unfolding e
    by (auto simp: INIT_LIST_HEAD_ring intro: ring_frame [OF _ INIT_LIST_HEAD_same])
qed (use assms in \<open>simp add: list_splice_init_def list_empty_ring\<close>)

lemma list_splice_tail_init_ring:
  assumes "ring h l ys" "ring h head xs" "set (l # ys) \<inter> set (head # xs) = {}"
  shows "ring (list_splice_tail_init l head h) head (xs @ ys) \<and> ring (list_splice_tail_init l head h) l []"
proof (cases "ys = []")
  case False
  then have e: "list_splice_tail_init l head h = INIT_LIST_HEAD l (list_splice_tail l head h)"
    using assms(1) by (simp add: list_splice_tail_init_def list_splice_tail_def list_empty_ring)
  have "l \<notin> set ys" using ring_distinct [OF assms(1)] by simp
  then show ?thesis
    using list_splice_tail_ring [OF assms] assms(3) unfolding e
    by (auto simp: INIT_LIST_HEAD_ring intro: ring_frame [OF _ INIT_LIST_HEAD_same])
qed (use assms in \<open>simp add: list_splice_tail_init_def list_empty_ring\<close>)

lemma list_replace_init_ring:
  assumes "ring h head (xs @ old # ys)" "new \<notin> set (head # xs @ old # ys)"
  shows "ring (list_replace_init old new h) head (xs @ new # ys) \<and> ring (list_replace_init old new h) old []"
  using list_replace_ring [OF assms] ring_distinct [OF assms(1)] assms(2)
  by (auto simp: list_replace_init_def INIT_LIST_HEAD_ring intro: ring_frame [OF _ INIT_LIST_HEAD_same])

lemma list_cut_position_ring:
  assumes "ring h head (xs @ e # ys)" "l \<notin> set (head # xs @ e # ys)"
  shows "ring (list_cut_position l head e h) l (xs @ [e]) \<and> ring (list_cut_position l head e h) head ys"
proof -
  let ?as = "xs @ [e]"
  let ?f = "hd ?as" and ?n = "hd (ys @ [head])"
  note d = ring_distinct [OF assms(1)]
  have hn: "lnext h head = ?f" "lnext h e = ?n"
    using ring_next [OF assms(1)] ring_entry_next [OF assms(1)] by (cases xs; simp)+
  have c: "list_cut_position l head e h = list_cut_at l head e h"
    using d list_empty_ring [OF assms(1)] list_is_singular_ring [OF assms(1)] hn
    by (cases xs) (auto simp: list_cut_position_def)
  let ?h = "list_cut_at l head e h"
  have h: "?h = set_prev ?n head (set_next head ?n (set_next e l (set_prev l e
      (set_prev ?f l (set_next l ?f h)))))"
    by (simp add: list_cut_at_def Let_def hn)
  have f: "?f \<in> set ?as" "?f \<notin> set (tl ?as)" using d by (cases xs; auto)+
  have n: "?n \<notin> set ?as" "?n \<notin> set (tl (ys @ [head]))" "?n \<noteq> l" using d assms(2) by (cases ys; auto)+
  have hs: "links h ?as" "links h (ys @ [head])"
    using assms(1) links_join [of "[head]" "?as @ ys @ [head]" h] links_join [of ?as "ys @ [head]" h]
    by (simp_all add: ring_def)
  have fy: "?f \<notin> set (tl (ys @ [head]))"
    using f(1) d list.set_sel(2) [of "ys @ [head]" ?f] by auto
  have "links ?h ?as = links h ?as"
    unfolding h using f n d assms(2) list.set_sel(2) [of ?as]
    by (intro links_cong) (auto simp: butlast_append)
  moreover have "links ?h (ys @ [head]) = links h (ys @ [head])"
    unfolding h using n fy d assms(2) list.set_sel(2) [of "ys @ [head]"]
    by (intro links_cong) (auto simp: butlast_append)
  moreover have "lnext ?h l = ?f" "lprev ?h ?f = l" "lnext ?h e = l" "lprev ?h l = e"
      "lnext ?h head = ?n" "lprev ?h ?n = head"
    unfolding h using f n d assms(2) by auto
  ultimately have "links ?h (l # ?as @ [l])" "links ?h (head # ys @ [head])"
    using hs links_join [of "[l]" "?as @ [l]" ?h] links_join [of ?as "[l]" ?h]
      links_join [of "[head]" "ys @ [head]" ?h] by (simp_all add: hd_append split: if_splits)
  with d assms(2) c show ?thesis by (auto simp: ring_def)
qed

text \<open>Walking a ring visits its entries, in order, and ends.\<close>

lemma list_for_each_ring:
  "head \<notin> set xs \<Longrightarrow> links h (xs @ [head]) \<Longrightarrow> list_for_each head h (hd (xs @ [head])) = Some xs"
proof (induction xs)
  case (Cons a xs)
  then have "lnext h a = hd (xs @ [head])" "links h (xs @ [head])" by (cases xs; simp)+
  with Cons show ?case by (subst list_for_each.simps) auto
qed (simp add: list_for_each.simps)

lemma list_entries_ring: "ring h head xs \<Longrightarrow> list_entries head h = Some xs"
  using list_for_each_ring [of head xs h] links_join [of "[head]" "xs @ [head]" h]
  by (simp add: list_entries_def ring_next ring_def)

lemma list_for_each_prev_ring:
  "head \<notin> set xs \<Longrightarrow> links h (head # xs) \<Longrightarrow> list_for_each_prev head h (last (head # xs)) = Some (rev xs)"
proof (induction xs rule: rev_induct)
  case (snoc a xs)
  then have "lprev h a = last (head # xs)" "links h (head # xs)"
    using links_join [of "head # xs" "[a]" h] by auto
  with snoc show ?case by (subst list_for_each_prev.simps) auto
qed (simp add: list_for_each_prev.simps)

lemma list_entries_reverse_ring: "ring h head xs \<Longrightarrow> list_entries_reverse head h = Some (rev xs)"
  using list_for_each_prev_ring [of head xs h] links_join [of "head # xs" "[head]" h]
  by (simp add: list_entries_reverse_def ring_prev ring_def)

section \<open>The properties of the linked list\<close>

text \<open>
  \<open>list_move_tail\<close> takes an entry out of its list and appends it to another, and leaves every
  third list that shares no entry with the two as it was.
\<close>

theorem list_move_tail_correct:
  assumes "ring h head (xs @ e # ys)" "ring h dest zs" "ring h other ws"
    and "set (head # xs @ e # ys) \<inter> set (dest # zs) = {}"
    and "set (other # ws) \<inter> (set (head # xs @ e # ys) \<union> set (dest # zs)) = {}"
  shows "let h' = list_move_tail e dest h in
    ring h' head (xs @ ys) \<and> ring h' dest (zs @ [e]) \<and> ring h' other ws"
proof -
  have "ring (list_del_entry e h) dest zs"
    by (rule ring_frame [OF assms(2) list_del_entry_same [OF assms(1)]]) (use assms(4) in auto)
  note tail = list_add_tail_same [OF this, of e]
  have "ring (list_del_entry e h) other ws"
    by (rule ring_frame [OF assms(3) list_del_entry_same [OF assms(1)]]) (use assms(5) in auto)
  then have "ring (list_move_tail e dest h) other ws"
    unfolding list_move_tail_def by (rule ring_frame [OF _ tail]) (use assms(5) in auto)
  then show ?thesis using list_move_tail_ring [OF assms(1,2,4)] by simp
qed

theorem list_move_tail_correct_witness:
  "let h = \<lparr>lnext = id(1 := 10, 10 := 1), lprev = id(1 := 10, 10 := 1)\<rparr>;
       h' = list_move_tail 10 2 h
   in ring h' 1 [] \<and> ring h' 2 [10] \<and> ring h' 3 []"
  using list_move_tail_correct [of "\<lparr>lnext = id(1 := 10, 10 := 1), lprev = id(1 := 10, 10 := 1)\<rparr>" 1 "[]" 10 "[]" 2 "[]" 3 "[]"]
  by (simp add: ring_def Let_def)

text \<open>
  \<open>list_splice_init\<close> puts the entries of one list, in order, in front of those of another and
  leaves the first one empty and initialised.
\<close>

theorem list_splice_init_correct:
  assumes "ring h l ys" "ring h head xs" "set (l # ys) \<inter> set (head # xs) = {}"
  shows "let h' = list_splice_init l head h in ring h' head (ys @ xs) \<and> ring h' l [] \<and>
    list_entries head h' = Some (ys @ xs) \<and> list_entries_reverse head h' = Some (rev (ys @ xs))"
proof -
  note r = list_splice_init_ring [OF assms]
  show ?thesis using r list_entries_ring [OF conjunct1 [OF r]] list_entries_reverse_ring [OF conjunct1 [OF r]]
    by (simp add: Let_def)
qed

theorem list_splice_init_correct_witness:
  "let h = list_add_tail 11 1 (list_add_tail 10 1 \<lparr>lnext = id, lprev = id\<rparr>)
   in list_entries 2 (list_splice_init 1 2 h) = Some [10, 11]"
  using list_splice_init_correct [of "list_add_tail 11 1 (list_add_tail 10 1 \<lparr>lnext = id, lprev = id\<rparr>)" 1 "[10, 11]" 2 "[]"]
  by (simp add: ring_def Let_def list_add_tail_def list_add_between_def)

end
