(* ===== verification/ListSort.thy ===== *)
theory ListSort
  imports KList "HOL-Library.Multiset"
begin

text \<open>
  The bottom-up merge sort of \<open>list_sort.c\<close>. The algorithm appears twice. \<open>merge\<close>,
  \<open>merge_and_restore_back_links\<close> and \<open>list_sort\<close> are the C functions on the heap of \<open>list.h\<close>:
  NULL terminated chains of \<open>next\<close> links, the array \<open>part[]\<close> of \<open>MAX_LIST_LENGTH_BITS + 1\<close> chains
  whose last slot is a sentinel, and the final merge that rebuilds the \<open>prev\<close> links. \<open>merge_items\<close>
  and \<open>sort_items\<close> are the same algorithm on HOL lists. The pointer version refines the list
  version, and the list version is shown to sort, stably, for every comparison that satisfies the
  contract in the comment of \<open>list_sort\<close> (locale \<open>list_cmp\<close>).
\<close>

section \<open>Model\<close>

abbreviation (input) NULL :: addr where "NULL \<equiv> 0"

definition MAX_LIST_LENGTH_BITS :: nat where
  "MAX_LIST_LENGTH_BITS = 20"

subsection \<open>On the heap\<close>

text \<open>\<open>tail\<close> is the last node of the result so far; first the address of the local \<open>head\<close>.\<close>

partial_function (option) merge_loop ::
    "(addr \<Rightarrow> addr \<Rightarrow> int) \<Rightarrow> addr \<Rightarrow> addr \<Rightarrow> addr \<Rightarrow> list_heap \<Rightarrow> list_heap option" where
  "merge_loop cmp tail a b h =
     (if a \<noteq> NULL \<and> b \<noteq> NULL then
        if cmp a b \<le> 0 then let h = set_next tail a h in merge_loop cmp a (lnext h a) b h
        else let h = set_next tail b h in merge_loop cmp b a (lnext h b) h
      else Some (set_next tail (if a \<noteq> NULL then a else b) h))"

definition merge ::
    "addr \<Rightarrow> (addr \<Rightarrow> addr \<Rightarrow> int) \<Rightarrow> addr \<Rightarrow> addr \<Rightarrow> list_heap \<Rightarrow> (addr \<times> list_heap) option" where
  "merge local cmp a b h = do {
     h \<leftarrow> merge_loop cmp local a b h;
     Some (lnext h local, h)
   }"

text \<open>
  The final merge. Its first loop also writes \<open>prev\<close>; the \<open>do\<close> loop restores the \<open>prev\<close> links of
  the rest. It reads \<open>tail->next->prev\<close> before it tests \<open>tail->next\<close>, so an empty rest is a NULL
  dereference. The calls of \<open>cmp\<close> for rescheduling have no effect on the list.
\<close>

partial_function (option) restore_merge_loop ::
    "(addr \<Rightarrow> addr \<Rightarrow> int) \<Rightarrow> addr \<Rightarrow> addr \<Rightarrow> addr \<Rightarrow> list_heap \<Rightarrow> (addr \<times> list_heap) option" where
  "restore_merge_loop cmp tail a b h =
     (if a \<noteq> NULL \<and> b \<noteq> NULL then
        if cmp a b \<le> 0 then
          let h = set_prev a tail (set_next tail a h) in restore_merge_loop cmp a (lnext h a) b h
        else
          let h = set_prev b tail (set_next tail b h) in restore_merge_loop cmp b a (lnext h b) h
      else Some (tail, set_next tail (if a \<noteq> NULL then a else b) h))"

partial_function (option) restore_prev_loop :: "addr \<Rightarrow> list_heap \<Rightarrow> (addr \<times> list_heap) option" where
  "restore_prev_loop tail h =
     (if lnext h tail = NULL then None
      else let n = lnext h tail; h = set_prev n tail h in
        if lnext h n \<noteq> NULL then restore_prev_loop n h else Some (n, h))"

definition merge_and_restore_back_links ::
    "(addr \<Rightarrow> addr \<Rightarrow> int) \<Rightarrow> addr \<Rightarrow> addr \<Rightarrow> addr \<Rightarrow> list_heap \<Rightarrow> list_heap option" where
  "merge_and_restore_back_links cmp head a b h = do {
     (tail, h) \<leftarrow> restore_merge_loop cmp head a b h;
     (tail, h) \<leftarrow> restore_prev_loop tail h;
     Some (set_prev head tail (set_next tail head h))
   }"

text \<open>The inner \<open>for\<close> loop over \<open>part[]\<close>; running off the array is \<open>None\<close>.\<close>

function carry_loop :: "addr \<Rightarrow> (addr \<Rightarrow> addr \<Rightarrow> int) \<Rightarrow> addr list \<Rightarrow> nat \<Rightarrow> addr \<Rightarrow> list_heap \<Rightarrow>
    (addr list \<times> nat \<times> addr \<times> list_heap) option" where
  "carry_loop local cmp part lev cur h =
     (if lev \<ge> length part then None
      else if part ! lev = NULL then Some (part, lev, cur, h)
      else do {
        (cur, h) \<leftarrow> merge local cmp (part ! lev) cur h;
        carry_loop local cmp (part[lev := NULL]) (lev + 1) cur h
      })"
  by pat_completeness auto
termination
  by (relation "measure (\<lambda>(_, _, part, lev, _, _). length part - lev)") auto

text \<open>The level at which \<open>cur\<close> is stored, and the new \<open>max_lev\<close>.\<close>

definition clamp_lev :: "nat \<Rightarrow> nat \<Rightarrow> nat \<times> nat" where
  "clamp_lev lev max_lev =
     (if lev > max_lev then
        let lev = (if lev \<ge> MAX_LIST_LENGTH_BITS then lev - 1 else lev) in (lev, lev)
      else (lev, max_lev))"

partial_function (option) sort_loop ::
    "addr \<Rightarrow> (addr \<Rightarrow> addr \<Rightarrow> int) \<Rightarrow> addr \<Rightarrow> addr list \<Rightarrow> nat \<Rightarrow> list_heap \<Rightarrow>
     (addr list \<times> nat \<times> list_heap) option" where
  "sort_loop local cmp list part max_lev h =
     (if list = NULL then Some (part, max_lev, h)
      else do {
        let cur = list;
        let list = lnext h list;
        let h = set_next cur NULL h;
        (part, lev, cur, h) \<leftarrow> carry_loop local cmp part 0 cur h;
        let (lev, max_lev) = clamp_lev lev max_lev;
        sort_loop local cmp list (part[lev := cur]) max_lev h
      })"

function final_loop :: "addr \<Rightarrow> (addr \<Rightarrow> addr \<Rightarrow> int) \<Rightarrow> addr list \<Rightarrow> nat \<Rightarrow> nat \<Rightarrow> addr \<Rightarrow> list_heap \<Rightarrow>
    (addr \<times> list_heap) option" where
  "final_loop local cmp part lev max_lev list h =
     (if lev \<ge> max_lev then Some (list, h)
      else if part ! lev \<noteq> NULL then do {
        (list, h) \<leftarrow> merge local cmp (part ! lev) list h;
        final_loop local cmp part (lev + 1) max_lev list h
      }
      else final_loop local cmp part (lev + 1) max_lev list h)"
  by pat_completeness auto
termination
  by (relation "measure (\<lambda>(_, _, _, lev, max_lev, _, _). max_lev - lev)") auto

definition list_sort :: "addr \<Rightarrow> (addr \<Rightarrow> addr \<Rightarrow> int) \<Rightarrow> addr \<Rightarrow> list_heap \<Rightarrow> list_heap option" where
  "list_sort local cmp head h =
     (if list_empty head h then Some h
      else do {
        let part = replicate (MAX_LIST_LENGTH_BITS + 1) NULL;
        let h = set_next (lprev h head) NULL h;
        (part, max_lev, h) \<leftarrow> sort_loop local cmp (lnext h head) part 0 h;
        (list, h) \<leftarrow> final_loop local cmp part 0 max_lev NULL h;
        merge_and_restore_back_links cmp head (part ! max_lev) list h
      })"

subsection \<open>On lists\<close>

fun merge_items :: "('a \<Rightarrow> 'a \<Rightarrow> int) \<Rightarrow> 'a list \<Rightarrow> 'a list \<Rightarrow> 'a list" where
  "merge_items cmp (a # as) (b # bs) =
     (if cmp a b \<le> 0 then a # merge_items cmp as (b # bs) else b # merge_items cmp (a # as) bs)"
| "merge_items cmp [] bs = bs"
| "merge_items cmp as [] = as"

function carry_items :: "('a \<Rightarrow> 'a \<Rightarrow> int) \<Rightarrow> 'a list list \<Rightarrow> nat \<Rightarrow> 'a list \<Rightarrow> 'a list list \<times> nat \<times> 'a list" where
  "carry_items cmp part lev cur =
     (if lev \<ge> length part \<or> part ! lev = [] then (part, lev, cur)
      else carry_items cmp (part[lev := []]) (lev + 1) (merge_items cmp (part ! lev) cur))"
  by pat_completeness auto
termination
  by (relation "measure (\<lambda>(_, part, lev, _). length part - lev)") auto

fun sort_items_loop :: "('a \<Rightarrow> 'a \<Rightarrow> int) \<Rightarrow> 'a list \<Rightarrow> 'a list list \<Rightarrow> nat \<Rightarrow> 'a list list \<times> nat" where
  "sort_items_loop cmp [] part max_lev = (part, max_lev)"
| "sort_items_loop cmp (x # xs) part max_lev =
     (let (part, lev, cur) = carry_items cmp part 0 [x];
          (lev, max_lev) = clamp_lev lev max_lev
      in sort_items_loop cmp xs (part[lev := cur]) max_lev)"

definition sort_items :: "('a \<Rightarrow> 'a \<Rightarrow> int) \<Rightarrow> 'a list \<Rightarrow> 'a list" where
  "sort_items cmp xs =
     (let (part, max_lev) = sort_items_loop cmp xs (replicate (MAX_LIST_LENGTH_BITS + 1) []) 0;
          list = fold (merge_items cmp) (take max_lev part) []
      in merge_items cmp (part ! max_lev) list)"

declare carry_loop.simps [simp del] final_loop.simps [simp del] carry_items.simps [simp del]

section \<open>The list version sorts, stably\<close>

text \<open>
  \<open>sorts cmp xs ys\<close>: \<open>ys\<close> is \<open>xs\<close> in the order of \<open>cmp\<close>, and entries that compare equal keep
  their order.
\<close>

definition sorts :: "('a \<Rightarrow> 'a \<Rightarrow> int) \<Rightarrow> 'a list \<Rightarrow> 'a list \<Rightarrow> bool" where
  "sorts cmp xs ys \<longleftrightarrow> sorted_wrt (\<lambda>a b. cmp a b \<le> 0) ys \<and> mset ys = mset xs \<and>
     (\<forall>x. filter (\<lambda>y. cmp x y = 0) ys = filter (\<lambda>y. cmp x y = 0) xs)"

lemma merge_items_induct [case_names Cons NilL NilR]:
  fixes cmp :: "'a \<Rightarrow> 'a \<Rightarrow> int"
  assumes "\<And>a as b bs. (cmp a b \<le> 0 \<Longrightarrow> P as (b # bs)) \<Longrightarrow> (\<not> cmp a b \<le> 0 \<Longrightarrow> P (a # as) bs) \<Longrightarrow>
      P (a # as) (b # bs)"
    and "\<And>bs. P [] bs" and "\<And>as. P as []"
  shows "P xs ys"
  using merge_items.induct [of "\<lambda>c xs ys. c = cmp \<longrightarrow> P xs ys" cmp xs ys] assms by blast

lemma merge_items_Nil2 [simp]: "merge_items cmp xs [] = xs"
  by (cases xs) auto

lemma mset_merge_items [simp]: "mset (merge_items cmp xs ys) = mset xs + mset ys"
  by (induction cmp xs ys rule: merge_items.induct) auto

lemma set_merge_items [simp]: "set (merge_items cmp xs ys) = set xs \<union> set ys"
  by (induction cmp xs ys rule: merge_items.induct) auto

lemma carry_items_step:
  "lev < length part \<Longrightarrow> part ! lev \<noteq> [] \<Longrightarrow> carry_items cmp part lev cur =
     carry_items cmp (part[lev := []]) (Suc lev) (merge_items cmp (part ! lev) cur)"
  "part ! lev = [] \<Longrightarrow> carry_items cmp part lev cur = (part, lev, cur)"
  "length part \<le> lev \<Longrightarrow> carry_items cmp part lev cur = (part, lev, cur)"
  by (simp_all add: carry_items.simps [of cmp part lev])

lemma carry_items_shape:
  assumes "carry_items cmp part lev cur = (part', lev', cur')" "lev \<le> length part"
  shows "length part' = length part \<and> lev \<le> lev' \<and> lev' \<le> length part \<and>
    (lev' < length part \<longrightarrow> part ! lev' = []) \<and> (\<forall>i. lev \<le> i \<and> i < lev' \<longrightarrow> part ! i \<noteq> []) \<and>
    (\<forall>i \<ge> lev'. part' ! i = part ! i) \<and> (cur \<noteq> [] \<longrightarrow> cur' \<noteq> [])"
  using assms
proof (induction "length part - lev" arbitrary: part lev cur)
  case 0
  then show ?case by (auto simp: carry_items_step(3))
next
  case (Suc n)
  show ?case
  proof (cases "part ! lev = []")
    case True
    with Suc show ?thesis by (auto simp: carry_items_step(2))
  next
    case False
    have lev: "lev < length part" using Suc.hyps(2) by simp
    have "carry_items cmp (part[lev := []]) (Suc lev) (merge_items cmp (part ! lev) cur) = (part', lev', cur')"
      using Suc.prems(1) carry_items_step(1) [OF lev False] by simp
    then have IH: "length part' = length part" "Suc lev \<le> lev'" "lev' \<le> length part"
        "lev' < length part \<longrightarrow> part[lev := []] ! lev' = []"
        "\<And>i. Suc lev \<le> i \<Longrightarrow> i < lev' \<Longrightarrow> part[lev := []] ! i \<noteq> []"
        "\<And>i. i \<ge> lev' \<Longrightarrow> part' ! i = part[lev := []] ! i"
        "merge_items cmp (part ! lev) cur \<noteq> [] \<Longrightarrow> cur' \<noteq> []"
      using Suc.hyps(1) [of "part[lev := []]" "Suc lev"] Suc.hyps(2) lev by simp_all
    have "merge_items cmp (part ! lev) cur \<noteq> []" using False by (metis Un_empty set_empty set_merge_items)
    moreover have "part ! i \<noteq> []" if "lev \<le> i" "i < lev'" for i
      using IH(5) [of i] that False by (cases "i = lev") auto
    moreover have "part' ! i = part ! i" if "i \<ge> lev'" for i using IH(2,6) that by simp
    ultimately show ?thesis using IH(1-4,7) by simp
  qed
qed

lemma carry_items_below:
  assumes "carry_items cmp part lev cur = (part', lev', cur')"
  shows "(i < lev \<longrightarrow> part' ! i = part ! i) \<and> (lev \<le> i \<and> i < lev' \<longrightarrow> part' ! i = [])"
  using assms
proof (induction "length part - lev" arbitrary: part lev cur)
  case 0
  then show ?case by (auto simp: carry_items_step(3))
next
  case (Suc n)
  show ?case
  proof (cases "part ! lev = []")
    case True
    with Suc show ?thesis by (auto simp: carry_items_step(2))
  next
    case False
    have lev: "lev < length part" using Suc.hyps(2) by simp
    have n: "n = length (part[lev := []]) - Suc lev" using Suc.hyps(2) by simp
    have "carry_items cmp (part[lev := []]) (Suc lev) (merge_items cmp (part ! lev) cur) = (part', lev', cur')"
      using Suc.prems(1) carry_items_step(1) [OF lev False] by simp
    from Suc.hyps(1) [OF n this] show ?thesis using lev by (cases "i = lev") auto
  qed
qed

lemma carry_items_clears:
  "carry_items cmp part lev cur = (part', lev', cur') \<Longrightarrow> lev \<le> i \<Longrightarrow> i < lev' \<Longrightarrow> part' ! i = []"
  using carry_items_below by blast

text \<open>
  The shape of \<open>part[]\<close>: nothing above \<open>max_lev\<close>, so the last slot stays NULL and the inner loop
  never leaves the array.
\<close>

definition shaped :: "'a list list \<Rightarrow> nat \<Rightarrow> bool" where
  "shaped part max_lev \<longleftrightarrow> length part = MAX_LIST_LENGTH_BITS + 1 \<and> max_lev < MAX_LIST_LENGTH_BITS \<and>
     (\<forall>i. max_lev < i \<and> i < length part \<longrightarrow> part ! i = [])"

lemma shaped_lev:
  assumes "shaped part max_lev" "carry_items cmp part 0 cur = (part', lev, cur')"
  shows "lev \<le> max_lev + 1 \<and> lev \<le> MAX_LIST_LENGTH_BITS"
proof (rule ccontr)
  note shape = carry_items_shape [OF assms(2) le0]
  assume "\<not> ?thesis"
  then have "max_lev + 1 < lev" using assms(1) by (auto simp: shaped_def)
  then have "part ! (max_lev + 1) \<noteq> []" using shape by simp
  then show False using assms(1) by (simp add: shaped_def)
qed

lemma shaped_step:
  assumes "shaped part max_lev" "carry_items cmp part 0 cur = (part', lev, cur')"
    and "clamp_lev lev max_lev = (lev', max_lev')"
  shows "shaped (part'[lev' := cur']) max_lev'"
    and "lev' = lev \<or> lev' + 1 = lev" and "lev' < MAX_LIST_LENGTH_BITS"
    and "max_lev = 0 \<or> part ! max_lev \<noteq> [] \<Longrightarrow> cur \<noteq> [] \<Longrightarrow> part'[lev' := cur'] ! max_lev' \<noteq> []"
proof -
  note shape = carry_items_shape [OF assms(2) le0]
  note sh = assms(1) [unfolded shaped_def]
  have c: "lev' < MAX_LIST_LENGTH_BITS" "max_lev' < MAX_LIST_LENGTH_BITS" "lev' = lev \<or> lev' + 1 = lev"
      "lev' \<le> max_lev'" "max_lev \<le> max_lev'" "max_lev' = lev' \<or> lev' = lev \<and> max_lev' = max_lev"
    using assms(3) shaped_lev [OF assms(1,2)] sh
    by (auto simp: clamp_lev_def Let_def split: if_splits)
  then show "lev' = lev \<or> lev' + 1 = lev" "lev' < MAX_LIST_LENGTH_BITS" by simp_all
  have "part'[lev' := cur'] ! i = []" if "max_lev' < i" "i < length part'" for i
  proof -
    have "part' ! i = part ! i" using shape c that by auto
    then show ?thesis using that c sh shape by simp
  qed
  then show "shaped (part'[lev' := cur']) max_lev'" using c sh shape by (auto simp: shaped_def)
  assume *: "max_lev = 0 \<or> part ! max_lev \<noteq> []" "cur \<noteq> []"
  show "part'[lev' := cur'] ! max_lev' \<noteq> []"
  proof (cases "max_lev' = lev'")
    case True
    then show ?thesis using shape c *(2) sh by auto
  next
    case False
    then have "lev' = lev" "max_lev' = max_lev" "lev < max_lev" using c by auto
    then show ?thesis using * shape by auto
  qed
qed

locale list_cmp =
  fixes cmp :: "'a \<Rightarrow> 'a \<Rightarrow> int"
  assumes cmp_flip: "cmp a b < 0 \<longleftrightarrow> cmp b a > 0"
    and cmp_le_trans: "cmp a b \<le> 0 \<Longrightarrow> cmp b c \<le> 0 \<Longrightarrow> cmp a c \<le> 0"
begin

lemma cmp_not_le: "\<not> cmp a b \<le> 0 \<longleftrightarrow> cmp b a < 0"
  using cmp_flip [of b a] by auto

abbreviation ascending :: "'a list \<Rightarrow> bool" where
  "ascending \<equiv> sorted_wrt (\<lambda>a b. cmp a b \<le> 0)"

lemma merge_items_sorted: "ascending xs \<Longrightarrow> ascending ys \<Longrightarrow> ascending (merge_items cmp xs ys)"
proof (induction xs ys rule: merge_items_induct [of cmp])
  case (Cons a as b bs)
  have "cmp a c \<le> 0" if "cmp a b \<le> 0" "c \<in> set bs" for c
    using that Cons.prems(2) cmp_le_trans [of a b c] by simp
  moreover have "cmp b c \<le> 0" if "cmp b a < 0" "c \<in> set as" for c
    using that Cons.prems(1) cmp_le_trans [of b a c] by simp
  ultimately show ?case using Cons cmp_not_le [of a b] by auto
qed auto

lemma merge_items_stable:
  "ascending xs \<Longrightarrow> filter (\<lambda>y. cmp x y = 0) (merge_items cmp xs ys) =
     filter (\<lambda>y. cmp x y = 0) xs @ filter (\<lambda>y. cmp x y = 0) ys"
proof (induction xs ys rule: merge_items_induct [of cmp])
  case (Cons a as b bs)
  have "filter (\<lambda>y. cmp x y = 0) (a # as) = []" if ba: "cmp b a < 0" and x: "cmp x b = 0"
  proof -
    have "cmp x y \<noteq> 0" if y: "y \<in> set (a # as)" for y
    proof
      assume "cmp x y = 0"
      then have "cmp y x \<le> 0" using cmp_flip [of x y] by auto
      moreover have "cmp a y \<le> 0" using y Cons.prems cmp_flip [of a a] by auto
      ultimately have "cmp a b \<le> 0" using x cmp_le_trans [of a y x] cmp_le_trans [of a x b] by auto
      with ba show False using cmp_not_le by blast
    qed
    then show ?thesis by (simp add: filter_empty_conv)
  qed
  then show ?case using Cons cmp_not_le [of a b] by auto
qed auto

lemma sorts_merge: "sorts cmp xs as \<Longrightarrow> sorts cmp ys bs \<Longrightarrow> sorts cmp (xs @ ys) (merge_items cmp as bs)"
  unfolding sorts_def by (auto simp: merge_items_sorted merge_items_stable)

lemma sorts_Nil [simp]: "sorts cmp [] []" "sorts cmp [] ys \<longleftrightarrow> ys = []" "sorts cmp xs [] \<longleftrightarrow> xs = []"
  by (auto simp: sorts_def)

lemma sorts_single: "sorts cmp [x] [x]"
  by (simp add: sorts_def)

text \<open>
  What the parts are: \<open>part[i]\<close> is a stretch \<open>segs ! i\<close> of the input, sorted, and the stretches
  follow each other from the highest level down.
\<close>

definition parts_of :: "'a list list \<Rightarrow> 'a list list \<Rightarrow> bool" where
  "parts_of segs part \<longleftrightarrow> list_all2 (sorts cmp) segs part"

lemma parts_of_update: "parts_of segs part \<Longrightarrow> sorts cmp xs ys \<Longrightarrow> parts_of (segs[i := xs]) (part[i := ys])"
  by (simp add: parts_of_def list_all2_update_cong)

lemma parts_of_nth: "parts_of segs part \<Longrightarrow> i < length part \<Longrightarrow> sorts cmp (segs ! i) (part ! i)"
  by (simp add: parts_of_def list_all2_conv_all_nth)

lemma concat_rev_place:
  assumes "k < length segs" "\<forall>i < k. segs ! i = []"
  shows "concat (rev (segs[k := ys])) = concat (rev (drop (Suc k) segs)) @ ys"
    and "concat (rev segs) = concat (rev (drop (Suc k) segs)) @ segs ! k"
proof -
  have "take k segs = replicate k []" using assms by (intro nth_equalityI) auto
  then have c: "concat (rev (take k segs @ z # drop (Suc k) segs)) = concat (rev (drop (Suc k) segs)) @ z" for z
    by simp
  show "concat (rev (segs[k := ys])) = concat (rev (drop (Suc k) segs)) @ ys"
    unfolding upd_conv_take_nth_drop [OF assms(1)] by (rule c)
  show "concat (rev segs) = concat (rev (drop (Suc k) segs)) @ segs ! k"
    using c [of "segs ! k"] unfolding id_take_nth_drop [OF assms(1), symmetric] .
qed

lemma carry_items_ok:
  assumes "carry_items cmp part lev cur = (part', lev', cur')"
    and "parts_of segs part" "sorts cmp cs cur" "\<forall>i < lev. segs ! i = []" "lev \<le> length part"
  shows "\<exists>segs' cs'. parts_of segs' part' \<and> sorts cmp cs' cur' \<and>
    concat (rev segs') @ cs' = concat (rev segs) @ cs \<and> (\<forall>i < lev'. segs' ! i = [])"
  using assms
proof (induction "length part - lev" arbitrary: part lev cur segs cs)
  case 0
  then show ?case by (auto simp: carry_items_step(3))
next
  case (Suc n)
  show ?case
  proof (cases "part ! lev = []")
    case True
    with Suc.prems show ?thesis by (auto simp: carry_items_step(2))
  next
    case False
    have lev: "lev < length part" using Suc.hyps(2) by simp
    then have ls: "lev < length segs" using Suc.prems(2) by (simp add: parts_of_def list_all2_lengthD)
    let ?segs = "segs[lev := []]" and ?cs = "segs ! lev @ cs"
    have eq: "concat (rev ?segs) @ ?cs = concat (rev segs) @ cs"
      using concat_rev_place [OF ls Suc.prems(4)] by simp
    have "carry_items cmp (part[lev := []]) (Suc lev) (merge_items cmp (part ! lev) cur) = (part', lev', cur')"
      using Suc.prems(1) carry_items_step(1) [OF lev False] by simp
    moreover have "\<forall>i < Suc lev. ?segs ! i = []"
      using Suc.prems(4) ls by (auto simp: nth_list_update less_Suc_eq)
    moreover have "n = length (part[lev := []]) - Suc lev" using Suc.hyps(2) by simp
    ultimately show ?thesis
      using Suc.hyps(1) [of "part[lev := []]" "Suc lev" _ ?segs ?cs] lev eq
        parts_of_update [OF Suc.prems(2), of "[]" "[]" lev]
        sorts_merge [OF parts_of_nth [OF Suc.prems(2) lev] Suc.prems(3)] by simp
  qed
qed

definition sorting :: "'a list \<Rightarrow> 'a list list \<Rightarrow> nat \<Rightarrow> bool" where
  "sorting xs part max_lev \<longleftrightarrow> (\<exists>segs. parts_of segs part \<and> concat (rev segs) = xs) \<and> shaped part max_lev"

lemma sort_step:
  assumes "sorting xs part max_lev" "carry_items cmp part 0 [x] = (part', lev, cur)"
    "clamp_lev lev max_lev = (lev', max_lev')"
  shows "sorting (xs @ [x]) (part'[lev' := cur]) max_lev'"
proof -
  obtain segs where segs: "parts_of segs part" "concat (rev segs) = xs" and sh: "shaped part max_lev"
    using assms(1) by (auto simp: sorting_def)
  obtain segs' cs where r: "parts_of segs' part'" "sorts cmp cs cur"
      "concat (rev segs') @ cs = xs @ [x]" "\<forall>i < lev. segs' ! i = []"
    using carry_items_ok [OF assms(2) segs(1) sorts_single] segs(2) by auto
  note shape = carry_items_shape [OF assms(2) le0] and step = shaped_step [OF sh assms(2,3)]
  have ls: "length segs' = MAX_LIST_LENGTH_BITS + 1" "length part' = MAX_LIST_LENGTH_BITS + 1"
    using r(1) shape sh by (simp_all add: parts_of_def list_all2_lengthD shaped_def)
  have "segs' ! lev = []" if "lev < length part'"
    using parts_of_nth [OF r(1) that] shape that by simp
  then have "segs' ! lev' = []" using step(2,3) r(4) ls by (cases "lev' = lev") auto
  then have "concat (rev (segs'[lev' := cs])) = concat (rev segs') @ cs"
    using concat_rev_place(1) [of lev' segs' cs] concat_rev_place(2) [of lev' segs'] step(2,3) ls r(4) by auto
  moreover have "parts_of (segs'[lev' := cs]) (part'[lev' := cur])" using parts_of_update r by blast
  ultimately show ?thesis unfolding sorting_def using r(3) step(1) by auto
qed

lemma sort_items_loop_ok:
  "sorting ys part max_lev \<Longrightarrow> sort_items_loop cmp xs part max_lev = (part', max_lev') \<Longrightarrow>
   sorting (ys @ xs) part' max_lev'"
proof (induction xs arbitrary: ys part max_lev)
  case (Cons x xs)
  obtain p l c where c: "carry_items cmp part 0 [x] = (p, l, c)" by (metis prod_cases3)
  obtain l' m' where m: "clamp_lev l max_lev = (l', m')" by (metis surj_pair)
  show ?case using Cons.IH [OF sort_step [OF Cons.prems(1) c m]] Cons.prems(2) c m by simp
qed simp

lemma fold_merge_sorts:
  "list_all2 (sorts cmp) segs part \<Longrightarrow> sorts cmp ys acc \<Longrightarrow>
   sorts cmp (concat (rev segs) @ ys) (fold (merge_items cmp) part acc)"
proof (induction segs part arbitrary: ys acc rule: list_all2_induct)
  case (Cons s segs p part)
  from Cons.IH [OF sorts_merge [OF Cons.hyps(1) Cons.prems]] show ?case by simp
qed simp

theorem sort_items_sorts: "sorts cmp xs (sort_items cmp xs)"
proof -
  obtain part max_lev where l: "sort_items_loop cmp xs (replicate (MAX_LIST_LENGTH_BITS + 1) []) 0 = (part, max_lev)"
    by (metis surj_pair)
  have "sorting [] (replicate (MAX_LIST_LENGTH_BITS + 1) []) 0"
    unfolding sorting_def parts_of_def shaped_def
    by (auto simp: MAX_LIST_LENGTH_BITS_def intro!: exI [of _ "replicate 21 []"] list_all2_all_nthI simp del: replicate.simps)
  from sort_items_loop_ok [OF this l] obtain segs where s: "parts_of segs part" "concat (rev segs) = xs"
      "length part = MAX_LIST_LENGTH_BITS + 1" "max_lev < MAX_LIST_LENGTH_BITS"
      "\<forall>i. max_lev < i \<and> i < length part \<longrightarrow> part ! i = []"
    by (auto simp: sorting_def shaped_def)
  then have len: "length segs = length part" and m: "max_lev < length part"
    by (simp_all add: parts_of_def list_all2_lengthD)
  have "segs ! i = []" if "max_lev < i" "i < length segs" for i
    using parts_of_nth [OF s(1), of i] s(5) that len by simp
  then have "drop (Suc max_lev) segs = replicate (length segs - Suc max_lev) []"
    by (intro nth_equalityI) auto
  with id_take_nth_drop [of max_lev segs] len m
  have "segs = take max_lev segs @ segs ! max_lev # replicate (length segs - Suc max_lev) []" by simp
  then have "concat (rev segs) =
      concat (rev (take max_lev segs @ segs ! max_lev # replicate (length segs - Suc max_lev) []))"
    by (rule arg_cong)
  then have xs: "xs = segs ! max_lev @ concat (rev (take max_lev segs))" using s(2) by simp
  have "sorts cmp (concat (rev (take max_lev segs)) @ []) (fold (merge_items cmp) (take max_lev part) [])"
    by (rule fold_merge_sorts) (use s(1) in \<open>auto simp: parts_of_def list_all2_takeI\<close>)
  then show ?thesis
    using sorts_merge [OF parts_of_nth [OF s(1) m]] xs l by (simp add: sort_items_def Let_def)
qed

end

section \<open>The pointer version refines the list version\<close>

text \<open>A NULL terminated chain of \<open>next\<close> links.\<close>

fun chain :: "list_heap \<Rightarrow> addr \<Rightarrow> addr list \<Rightarrow> bool" where
  "chain h a [] = (a = NULL)"
| "chain h a (x # xs) = (a = x \<and> x \<noteq> NULL \<and> chain h (lnext h x) xs)"

lemma chain_frame:
  "chain h a xs \<Longrightarrow> same_outside A h h' \<Longrightarrow> A \<inter> set xs = {} \<Longrightarrow> chain h' a xs"
  by (induction xs arbitrary: a) (auto simp: same_outside_def)

lemma chain_set_next: "chain h a xs \<Longrightarrow> t \<notin> set xs \<Longrightarrow> chain (set_next t b h) a xs"
  by (induction xs arbitrary: a) auto

lemma chain_set_prev [simp]: "chain (set_prev t b h) a xs = chain h a xs"
  by (induction xs arbitrary: a) auto

lemma chain_NULL: "chain h a xs \<Longrightarrow> a = NULL \<longleftrightarrow> xs = []"
  by (cases xs) auto

lemma same_set_next: "same_outside {t} h (set_next t a h)"
  by (simp add: same_outside_def)

lemma same_step: "same_outside A h h' \<Longrightarrow> same_outside B h' h'' \<Longrightarrow> A \<union> B \<subseteq> C \<Longrightarrow> same_outside C h h''"
  by (meson le_sup_iff same_outside_mono same_outside_trans)

lemma merge_loop_ok:
  assumes "chain h a xs" "chain h b ys" "distinct (tail # xs @ ys)"
  shows "\<exists>h'. merge_loop cmp tail a b h = Some h' \<and> chain h' (lnext h' tail) (merge_items cmp xs ys) \<and>
    same_outside (set (tail # xs @ ys)) h h'"
  using assms
proof (induction xs ys arbitrary: tail a b h rule: merge_items_induct [of cmp])
  case (Cons x xs y ys)
  show ?case
  proof (cases "cmp x y \<le> 0")
    case True
    let ?h = "set_next tail x h"
    obtain h' where h': "merge_loop cmp x (lnext ?h x) y ?h = Some h'"
        "chain h' (lnext h' x) (merge_items cmp xs (y # ys))" "same_outside (set (x # xs @ y # ys)) ?h h'"
      using Cons.IH(1) [OF True, of ?h "lnext h x" y x] Cons.prems chain_set_next [of h _ _ tail x] by auto
    have "lnext h' tail = x" using h'(3) Cons.prems(3) by (simp add: same_outside_def)
    moreover have "same_outside (set (tail # (x # xs) @ y # ys)) h h'"
      by (rule same_step [OF same_set_next h'(3)]) auto
    ultimately show ?thesis using h' True Cons.prems by (subst merge_loop.simps) (auto simp: Let_def)
  next
    case False
    let ?h = "set_next tail y h"
    obtain h' where h': "merge_loop cmp y x (lnext ?h y) ?h = Some h'"
        "chain h' (lnext h' y) (merge_items cmp (x # xs) ys)" "same_outside (set (y # (x # xs) @ ys)) ?h h'"
      using Cons.IH(2) [OF False, of ?h x "lnext h y" y] Cons.prems chain_set_next [of h _ _ tail y] by auto
    have "lnext h' tail = y" using h'(3) Cons.prems(3) by (simp add: same_outside_def)
    moreover have "same_outside (set (tail # (x # xs) @ y # ys)) h h'"
      by (rule same_step [OF same_set_next h'(3)]) auto
    ultimately show ?thesis using h' False Cons.prems by (subst merge_loop.simps) (auto simp: Let_def)
  qed
next
  case (NilL ys)
  then show ?case
    by (subst merge_loop.simps) (auto simp: same_outside_def intro: chain_set_next)
next
  case (NilR xs)
  then show ?case
    by (subst merge_loop.simps) (cases xs; auto simp: same_outside_def intro: chain_set_next)
qed

lemma merge_ok:
  assumes "chain h a xs" "chain h b ys" "distinct (local # xs @ ys)"
  shows "\<exists>r h'. merge local cmp a b h = Some (r, h') \<and> chain h' r (merge_items cmp xs ys) \<and>
    same_outside (set (local # xs @ ys)) h h'"
  using merge_loop_ok [OF assms, of cmp] by (auto simp: merge_def)

lemma parts_frame:
  "list_all2 (chain h) part pl \<Longrightarrow> same_outside A h h' \<Longrightarrow> A \<inter> set (concat pl) = {} \<Longrightarrow>
   list_all2 (chain h') part pl"
  by (induction rule: list_all2_induct) (auto simp: chain_frame Int_Un_distrib)

lemma mset_concat_update:
  assumes "i < length pl"
  shows "mset (concat (pl[i := xs])) + mset (pl ! i) = mset (concat pl) + mset xs"
proof -
  have "mset (concat pl) = mset (concat (take i pl @ pl ! i # drop (Suc i) pl))"
    using id_take_nth_drop [OF assms] by simp
  then show ?thesis by (simp add: upd_conv_take_nth_drop [OF assms])
qed

lemma distinct_mset: "mset xs = mset ys \<Longrightarrow> distinct xs \<longleftrightarrow> distinct ys"
  by (rule mset_eq_imp_distinct_iff)

lemma carry_loop_ok:
  assumes "list_all2 (chain h) part pl" "chain h cur cl" "distinct (local # concat pl @ cl)"
    and "carry_items cmp pl lev cl = (pl', lev', cl')" "lev' < length pl" "lev \<le> length pl"
  shows "\<exists>part' cur' h'. carry_loop local cmp part lev cur h = Some (part', lev', cur', h') \<and>
    list_all2 (chain h') part' pl' \<and> chain h' cur' cl' \<and> mset (concat pl' @ cl') = mset (concat pl @ cl) \<and>
    same_outside (set (local # concat pl @ cl)) h h'"
  using assms
proof (induction "length pl - lev" arbitrary: part pl lev cur cl h)
  case 0
  then show ?case by (simp add: carry_items_step(3))
next
  case (Suc n)
  have lp: "length part = length pl" using Suc.prems(1) by (rule list_all2_lengthD)
  have lev: "lev < length pl" using Suc.hyps(2) by simp
  have pn: "part ! lev = NULL \<longleftrightarrow> pl ! lev = []"
    using Suc.prems(1) lev lp by (auto simp: list_all2_conv_all_nth chain_NULL)
  show ?case
  proof (cases "pl ! lev = []")
    case True
    with Suc.prems pn lp lev show ?thesis
      by (auto simp: carry_items_step(2) carry_loop.simps [of local cmp part] same_outside_def)
  next
    case False
    let ?pl = "pl[lev := []]" and ?cl = "merge_items cmp (pl ! lev) cl"
    have ms: "mset (concat ?pl @ pl ! lev @ cl) = mset (concat pl @ cl)"
      using mset_concat_update [OF lev, of "[]"] by simp
    then have d: "distinct (local # concat ?pl @ pl ! lev @ cl)"
      using Suc.prems(3) distinct_mset [of "local # concat ?pl @ pl ! lev @ cl" "local # concat pl @ cl"] by simp
    have st: "set (concat pl @ cl) = set (concat ?pl @ pl ! lev @ cl)" using ms mset_eq_setD by metis
    obtain r h1 where m: "merge local cmp (part ! lev) cur h = Some (r, h1)" "chain h1 r ?cl"
        "same_outside (set (local # pl ! lev @ cl)) h h1"
      using merge_ok [of h "part ! lev" "pl ! lev" cur cl local cmp] d Suc.prems(1,2) lev lp
      by (auto simp: list_all2_conv_all_nth)
    have "list_all2 (chain h) (part[lev := NULL]) ?pl"
      using Suc.prems(1) by (simp add: list_all2_update_cong)
    then have p1: "list_all2 (chain h1) (part[lev := NULL]) ?pl"
      by (rule parts_frame [OF _ m(3)]) (use d in auto)
    have d1: "distinct (local # concat ?pl @ ?cl)"
      using d distinct_mset [of "local # concat ?pl @ pl ! lev @ cl" "local # concat ?pl @ ?cl"] by simp
    have n: "n = length ?pl - Suc lev" using Suc.hyps(2) by simp
    have "carry_items cmp ?pl (Suc lev) ?cl = (pl', lev', cl')"
      using Suc.prems(4) carry_items_step(1) [OF lev False] by simp
    then obtain part' cur' h' where r: "carry_loop local cmp (part[lev := NULL]) (Suc lev) r h1 = Some (part', lev', cur', h')"
        "list_all2 (chain h') part' pl'" "chain h' cur' cl'" "mset (concat pl' @ cl') = mset (concat ?pl @ ?cl)"
        "same_outside (set (local # concat ?pl @ ?cl)) h1 h'"
      using Suc.hyps(1) [OF n p1 m(2) d1] Suc.prems(5) lev by auto
    have "same_outside (set (local # concat pl @ cl)) h h'"
      by (rule same_step [OF m(3) r(5)]) (use st in auto)
    moreover have "carry_loop local cmp part lev cur h = Some (part', lev', cur', h')"
      using r(1) m(1) pn False lp lev by (simp add: carry_loop.simps [of local cmp part])
    ultimately show ?thesis using r(2-4) ms by auto
  qed
qed

lemma sort_items_loop_shaped:
  "shaped pl max_lev \<Longrightarrow> max_lev = 0 \<or> pl ! max_lev \<noteq> [] \<Longrightarrow>
   sort_items_loop cmp xs pl max_lev = (pl', max_lev') \<Longrightarrow>
   shaped pl' max_lev' \<and> (max_lev' = 0 \<or> pl' ! max_lev' \<noteq> []) \<and> (xs \<noteq> [] \<longrightarrow> pl' ! max_lev' \<noteq> [])"
proof (induction xs arbitrary: pl max_lev)
  case (Cons x xs)
  obtain p l c where c: "carry_items cmp pl 0 [x] = (p, l, c)" by (metis prod_cases3)
  obtain l' m' where m: "clamp_lev l max_lev = (l', m')" by (metis surj_pair)
  note step = shaped_step [OF Cons.prems(1) c m]
  have loop: "sort_items_loop cmp xs (p[l' := c]) m' = (pl', max_lev')" using Cons.prems(3) c m by simp
  show ?case
    using Cons.IH [OF step(1) _ loop] step(4) Cons.prems(2) loop by (cases xs) auto
qed simp

lemma sort_loop_ok:
  assumes "list_all2 (chain h) part pl" "chain h l xs" "distinct (local # concat pl @ xs)"
    and "shaped pl max_lev" "sort_items_loop cmp xs pl max_lev = (pl', max_lev')"
  shows "\<exists>part' h'. sort_loop local cmp l part max_lev h = Some (part', max_lev', h') \<and>
    list_all2 (chain h') part' pl' \<and> mset (concat pl') = mset (concat pl @ xs) \<and>
    same_outside (set (local # concat pl @ xs)) h h'"
  using assms
proof (induction xs arbitrary: h part pl l max_lev)
  case Nil
  then show ?case by (subst sort_loop.simps) (auto simp: same_outside_def)
next
  case (Cons x xs)
  obtain p lev c where c: "carry_items cmp pl 0 [x] = (p, lev, c)" by (metis prod_cases3)
  obtain lev' m' where m: "clamp_lev lev max_lev = (lev', m')" by (metis surj_pair)
  note step = shaped_step [OF Cons.prems(4) c m] and shape = carry_items_shape [OF c le0]
  have lev: "lev < length pl" using shaped_lev [OF Cons.prems(4) c] Cons.prems(4) by (simp add: shaped_def)
  let ?h = "set_next x NULL h"
  have l: "l = x" "x \<noteq> NULL" "chain ?h (lnext h x) xs"
    using Cons.prems(2,3) by (auto intro: chain_set_next)
  have p: "list_all2 (chain ?h) part pl"
    by (rule parts_frame [OF Cons.prems(1) same_set_next]) (use Cons.prems(3) in auto)
  obtain part1 cur1 h1 where r: "carry_loop local cmp part 0 x ?h = Some (part1, lev, cur1, h1)"
      "list_all2 (chain h1) part1 p" "chain h1 cur1 c" "mset (concat p @ c) = mset (concat pl @ [x])"
      "same_outside (set (local # concat pl @ [x])) ?h h1"
    using carry_loop_ok [OF p _ _ c lev, of x local] l(2) Cons.prems(3) by auto
  have xs: "chain h1 (lnext h x) xs" by (rule chain_frame [OF l(3) r(5)]) (use Cons.prems(3) in auto)
  have p0: "p ! lev' = []"
  proof (cases "lev' = lev")
    case True
    then show ?thesis using shape lev by simp
  next
    case False
    then have "Suc lev' = lev" using step(2) by simp
    then show ?thesis using carry_items_clears [OF c] by simp
  qed
  have lp: "lev' < length p" using step(2) lev shape by auto
  have p1: "list_all2 (chain h1) (part1[lev' := cur1]) (p[lev' := c])"
    using r(2,3) by (simp add: list_all2_update_cong)
  have ms: "mset (concat (p[lev' := c]) @ xs) = mset (concat pl @ x # xs)"
    using mset_concat_update [OF lp, of c] p0 r(4) by simp
  have st: "set (concat (p[lev' := c]) @ xs) = set (concat pl @ x # xs)" by (rule mset_eq_setD [OF ms])
  have d1: "distinct (local # concat (p[lev' := c]) @ xs)"
    using Cons.prems(3) distinct_mset [of "local # concat (p[lev' := c]) @ xs" "local # concat pl @ x # xs"] ms
    by simp
  have loop: "sort_items_loop cmp xs (p[lev' := c]) m' = (pl', max_lev')" using Cons.prems(5) c m by simp
  obtain part' h' where f: "sort_loop local cmp (lnext h x) (part1[lev' := cur1]) m' h1 = Some (part', max_lev', h')"
      "list_all2 (chain h') part' pl'" "mset (concat pl') = mset (concat (p[lev' := c]) @ xs)"
      "same_outside (set (local # concat (p[lev' := c]) @ xs)) h1 h'"
    using Cons.IH [OF p1 xs d1 step(1) loop] by blast
  have "same_outside (set (local # concat pl @ x # xs)) h h'"
    by (rule same_step [OF same_step [OF same_set_next r(5) subset_refl] f(4)]) (use st in auto)
  then show ?case using f(1-3) ms r(1) l m by (subst sort_loop.simps) (auto simp: Let_def)
qed

lemma final_loop_ok:
  assumes "list_all2 (chain h) (drop lev part) (drop lev pl)" "length part = length pl" "chain h l acc"
    and "distinct (local # concat (drop lev pl) @ acc)" "lev \<le> max_lev" "max_lev < length pl"
  shows "\<exists>l' h'. final_loop local cmp part lev max_lev l h = Some (l', h') \<and>
    chain h' l' (fold (merge_items cmp) (drop lev (take max_lev pl)) acc) \<and>
    chain h' (part ! max_lev) (pl ! max_lev) \<and> same_outside (set (local # concat (drop lev pl) @ acc)) h h'"
  using assms
proof (induction "max_lev - lev" arbitrary: lev h l acc)
  case 0
  then show ?case
    by (auto simp: final_loop.simps [of local cmp part] same_outside_def list_all2_conv_all_nth dest: spec [of _ 0])
next
  case (Suc n)
  have lev: "lev < max_lev" "lev < length pl" using Suc.hyps(2) Suc.prems by simp_all
  have dp: "drop lev pl = pl ! lev # drop (Suc lev) pl" "drop lev part = part ! lev # drop (Suc lev) part"
    "drop lev (take max_lev pl) = pl ! lev # drop (Suc lev) (take max_lev pl)"
    using lev Suc.prems(2) by (simp_all add: Cons_nth_drop_Suc) (simp add: Cons_nth_drop_Suc [symmetric])
  have c: "chain h (part ! lev) (pl ! lev)" "list_all2 (chain h) (drop (Suc lev) part) (drop (Suc lev) pl)"
    using Suc.prems(1) by (simp_all add: dp)
  have n: "n = max_lev - Suc lev" using Suc.hyps(2) by simp
  have d: "distinct (local # pl ! lev @ concat (drop (Suc lev) pl) @ acc)" using Suc.prems(4) by (simp add: dp)
  show ?case
  proof (cases "pl ! lev = []")
    case True
    then show ?thesis
      using Suc.hyps(1) [OF n c(2) Suc.prems(2,3)] d lev Suc.prems(6) chain_NULL [OF c(1)]
      by (simp add: final_loop.simps [of local cmp part lev] dp)
  next
    case False
    obtain r h1 where m: "merge local cmp (part ! lev) l h = Some (r, h1)" "chain h1 r (merge_items cmp (pl ! lev) acc)"
        "same_outside (set (local # pl ! lev @ acc)) h h1"
      using merge_ok [OF c(1) Suc.prems(3), of local cmp] d by (auto simp: Int_Un_distrib)
    have p1: "list_all2 (chain h1) (drop (Suc lev) part) (drop (Suc lev) pl)"
      by (rule parts_frame [OF c(2) m(3)]) (use d in auto)
    have d1: "distinct (local # concat (drop (Suc lev) pl) @ merge_items cmp (pl ! lev) acc)"
      using d distinct_mset [of "local # concat (drop (Suc lev) pl) @ merge_items cmp (pl ! lev) acc"
        "local # pl ! lev @ concat (drop (Suc lev) pl) @ acc"] by simp
    obtain l' h' where f: "final_loop local cmp part (Suc lev) max_lev r h1 = Some (l', h')"
        "chain h' l' (fold (merge_items cmp) (drop (Suc lev) (take max_lev pl)) (merge_items cmp (pl ! lev) acc))"
        "chain h' (part ! max_lev) (pl ! max_lev)"
        "same_outside (set (local # concat (drop (Suc lev) pl) @ merge_items cmp (pl ! lev) acc)) h1 h'"
      using Suc.hyps(1) [OF n p1 Suc.prems(2) m(2) d1] lev Suc.prems(6) by auto
    have "same_outside (set (local # concat (drop lev pl) @ acc)) h h'"
      by (rule same_step [OF m(3) f(4)]) (auto simp: dp)
    then show ?thesis
      using f(1-3) m(1) lev False chain_NULL [OF c(1)]
      by (simp add: final_loop.simps [of local cmp part lev] dp)
  qed
qed

lemma restore_merge_loop_ok:
  assumes "chain h a xs" "chain h b ys" "distinct (tail # xs @ ys)"
  shows "\<exists>us vs h'. restore_merge_loop cmp tail a b h = Some (last (tail # us), h') \<and>
    merge_items cmp xs ys = us @ vs \<and> (xs \<noteq> [] \<or> ys \<noteq> [] \<longrightarrow> vs \<noteq> []) \<and> links h' (tail # us) \<and>
    chain h' (lnext h' (last (tail # us))) vs \<and> same_outside (set (tail # xs @ ys)) h h' \<and>
    lprev h' tail = lprev h tail"
  using assms
proof (induction xs ys arbitrary: tail a b h rule: merge_items_induct [of cmp])
  case (Cons x xs y ys)
  show ?case
  proof (cases "cmp x y \<le> 0")
    case True
    let ?h = "set_prev x tail (set_next tail x h)"
    obtain us vs h' where h': "restore_merge_loop cmp x (lnext ?h x) y ?h = Some (last (x # us), h')"
        "merge_items cmp xs (y # ys) = us @ vs" "vs \<noteq> []" "links h' (x # us)"
        "chain h' (lnext h' (last (x # us))) vs" "same_outside (set (x # xs @ y # ys)) ?h h'"
        "lprev h' x = tail"
      using Cons.IH(1) [OF True, of ?h "lnext h x" y x] Cons.prems chain_set_next [of h _ _ tail x] by auto
    have "lnext h' tail = x" "lprev h' tail = lprev h tail"
      using h'(6) Cons.prems(3) by (simp_all add: same_outside_def)
    moreover have "same_outside (set (tail # (x # xs) @ y # ys)) h h'"
      by (rule same_step [of "{tail, x}" h ?h, OF _ h'(6)]) (auto simp: same_outside_def)
    ultimately show ?thesis using h' True Cons.prems
      by (intro exI [of _ "x # us"] exI [of _ vs] exI [of _ h'])
        (subst restore_merge_loop.simps, auto simp: Let_def)
  next
    case False
    let ?h = "set_prev y tail (set_next tail y h)"
    obtain us vs h' where h': "restore_merge_loop cmp y x (lnext ?h y) ?h = Some (last (y # us), h')"
        "merge_items cmp (x # xs) ys = us @ vs" "vs \<noteq> []" "links h' (y # us)"
        "chain h' (lnext h' (last (y # us))) vs" "same_outside (set (y # (x # xs) @ ys)) ?h h'"
        "lprev h' y = tail"
      using Cons.IH(2) [OF False, of ?h x "lnext h y" y] Cons.prems chain_set_next [of h _ _ tail y] by auto
    have "lnext h' tail = y" "lprev h' tail = lprev h tail"
      using h'(6) Cons.prems(3) by (simp_all add: same_outside_def)
    moreover have "same_outside (set (tail # (x # xs) @ y # ys)) h h'"
      by (rule same_step [of "{tail, y}" h ?h, OF _ h'(6)]) (auto simp: same_outside_def)
    ultimately show ?thesis using h' False Cons.prems
      by (intro exI [of _ "y # us"] exI [of _ vs] exI [of _ h'])
        (subst restore_merge_loop.simps, auto simp: Let_def)
  qed
next
  case (NilL ys)
  then show ?case
    by (intro exI [of _ "[]"] exI [of _ ys])
      (subst restore_merge_loop.simps, auto simp: same_outside_def intro: chain_set_next)
next
  case (NilR xs)
  then show ?case
    by (intro exI [of _ "[]"] exI [of _ xs])
      (subst restore_merge_loop.simps, cases xs; auto simp: same_outside_def intro: chain_set_next)
qed

lemma restore_prev_loop_ok:
  assumes "chain h (lnext h t) vs" "vs \<noteq> []" "distinct (t # vs)"
  shows "\<exists>h'. restore_prev_loop t h = Some (last vs, h') \<and> links h' (t # vs) \<and> lnext h' = lnext h \<and>
    (\<forall>a. a \<notin> set vs \<longrightarrow> lprev h' a = lprev h a)"
  using assms
proof (induction vs arbitrary: t h)
  case (Cons v vs)
  let ?h = "set_prev v t h"
  have v: "lnext h t = v" "v \<noteq> NULL" "chain ?h (lnext ?h v) vs" using Cons.prems by auto
  show ?case
  proof (cases "vs = []")
    case True
    with v show ?thesis by (subst restore_prev_loop.simps) (auto simp: Let_def)
  next
    case False
    then obtain h' where h': "restore_prev_loop v ?h = Some (last vs, h')" "links h' (v # vs)" "lnext h' = lnext h"
        "\<forall>a. a \<notin> set vs \<longrightarrow> lprev h' a = lprev ?h a"
      using Cons.IH [OF v(3)] Cons.prems by auto
    have "lnext h v \<noteq> NULL" using v(3) False chain_NULL by fastforce
    with h' v Cons.prems False show ?thesis by (subst restore_prev_loop.simps) (auto simp: Let_def)
  qed
qed simp

lemma merge_and_restore_ok:
  assumes "chain h a xs" "chain h b ys" "distinct (head # xs @ ys)" "xs \<noteq> [] \<or> ys \<noteq> []"
  shows "\<exists>h'. merge_and_restore_back_links cmp head a b h = Some h' \<and> ring h' head (merge_items cmp xs ys) \<and>
    same_outside (set (head # xs @ ys)) h h'"
proof -
  obtain us vs h1 where r: "restore_merge_loop cmp head a b h = Some (last (head # us), h1)"
      "merge_items cmp xs ys = us @ vs" "vs \<noteq> []" "links h1 (head # us)"
      "chain h1 (lnext h1 (last (head # us))) vs" "same_outside (set (head # xs @ ys)) h h1"
    using restore_merge_loop_ok [OF assms(1-3)] assms(4) by blast
  have "mset (xs @ ys) = mset (us @ vs)" using r(2) by (metis mset_append mset_merge_items)
  then have d: "distinct (head # us @ vs)" and st: "set (us @ vs) = set (xs @ ys)"
    using assms(3) distinct_mset [of "head # xs @ ys" "head # us @ vs"] mset_eq_setD by (simp, metis)
  let ?t = "last (head # us)"
  have t: "?t \<in> set (head # us)" using last_in_set by blast
  obtain h2 where p: "restore_prev_loop ?t h1 = Some (last vs, h2)" "links h2 (?t # vs)" "lnext h2 = lnext h1"
      "\<forall>a. a \<notin> set vs \<longrightarrow> lprev h2 a = lprev h1 a"
    using restore_prev_loop_ok [OF r(5,3)] d t by auto
  let ?h = "set_prev head (last vs) (set_next (last vs) head h2)"
  have "links h2 (head # us) = links h1 (head # us)"
    using p(3,4) d by (intro links_cong) auto
  then have "links h2 (head # us @ vs)"
    using r(3,4) p(2) links_join [of "head # us" vs h2] links_join [of "[?t]" vs h2] by simp
  moreover have "links ?h (head # us @ vs) = links h2 (head # us @ vs)"
  proof (intro links_cong)
    fix a assume "a \<in> set (butlast (head # us @ vs))"
    then have "a \<in> set (head # us @ butlast vs)" using r(3) by (simp add: butlast_append split: if_splits)
    moreover have "last vs \<notin> set (butlast vs)"
      using d r(3) by (metis append_butlast_last_id distinct.simps(2) distinct_append disjoint_iff list.set_intros(1))
    moreover have "last vs \<notin> set (head # us)" using d r(3) last_in_set [OF r(3)] by auto
    ultimately show "lnext ?h a = lnext h2 a" by auto
  qed (use d in auto)
  ultimately have "links ?h ((head # us @ vs) @ [head])"
    using links_join [of "head # us @ vs" "[head]" ?h] r(3) by simp
  then have "ring ?h head (us @ vs)" using d by (simp add: ring_def)
  moreover have "same_outside (set (head # xs @ ys)) h1 ?h"
    using p(3,4) st r(3) last_in_set [OF r(3)] by (auto simp: same_outside_def)
  moreover have "merge_and_restore_back_links cmp head a b h = Some ?h"
    using r(1) p(1) by (simp add: merge_and_restore_back_links_def)
  ultimately show ?thesis using r(2,6) same_outside_trans by metis
qed

lemma ring_chain:
  assumes "ring h head xs" "xs \<noteq> []" "NULL \<notin> set xs"
  shows "chain (set_next (lprev h head) NULL h) (lnext h head) xs"
proof -
  have "chain (set_next (last xs) NULL h) (hd xs) xs"
    if "links h xs" "distinct xs" "xs \<noteq> []" "NULL \<notin> set xs" for xs
    using that
  proof (induction xs rule: induct_list012)
    case (3 x y zs)
    then show ?case by (auto split: if_splits)
  qed auto
  moreover have "links h xs" using assms(1,2) links_join [of "[head]" "xs @ [head]" h] links_join [of xs "[head]" h]
    by (simp add: ring_def)
  ultimately show ?thesis
    using assms ring_next [OF assms(1)] ring_prev [OF assms(1)] ring_distinct [OF assms(1)] by simp
qed

lemma list_sort_ring:
  assumes "ring h head xs" "local \<notin> set (head # xs)" "NULL \<notin> set xs"
  shows "\<exists>h'. list_sort local cmp head h = Some h' \<and> ring h' head (sort_items cmp xs) \<and>
    same_outside (set (local # head # xs)) h h'"
proof (cases "xs = []")
  case True
  then show ?thesis using assms(1)
    by (auto simp: list_sort_def list_empty_ring sort_items_def MAX_LIST_LENGTH_BITS_def same_outside_def)
next
  case False
  let ?pl = "replicate (MAX_LIST_LENGTH_BITS + 1) []" and ?part = "replicate (MAX_LIST_LENGTH_BITS + 1) NULL"
  let ?h = "set_next (lprev h head) NULL h"
  obtain pl max_lev where s: "sort_items_loop cmp xs ?pl 0 = (pl, max_lev)" by (metis surj_pair)
  have sh: "shaped ?pl 0" by (simp add: shaped_def MAX_LIST_LENGTH_BITS_def del: replicate.simps)
  have shaped: "shaped pl max_lev" "pl ! max_lev \<noteq> []"
    using sort_items_loop_shaped [OF sh _ s] False by auto
  have ll: "lprev h head = last xs" "last xs \<noteq> head" "last xs \<in> set xs"
    using ring_prev [OF assms(1)] ring_distinct [OF assms(1)] False last_in_set [OF False] by auto
  have c0: "list_all2 (chain ?h) ?part ?pl" by (intro list_all2_all_nthI) (simp_all del: replicate.simps)
  have ch: "chain ?h (lnext ?h head) xs" using ring_chain [OF assms(1) False assms(3)] ll by simp
  have dist0: "distinct (local # concat ?pl @ xs)" using ring_distinct [OF assms(1)] assms(2) by simp
  obtain part h1 where l: "sort_loop local cmp (lnext ?h head) ?part 0 ?h = Some (part, max_lev, h1)"
      "list_all2 (chain h1) part pl" "mset (concat pl) = mset xs" "same_outside (set (local # xs)) ?h h1"
    using sort_loop_ok [OF c0 ch dist0 sh s] by (auto simp del: replicate.simps)
  have m: "max_lev < length pl" using shaped(1) by (simp add: shaped_def)
  have d: "distinct (local # concat pl)" using l(3) dist0 distinct_mset [of "concat pl" xs] mset_eq_setD [OF l(3)] by simp
  obtain lst h2 where f: "final_loop local cmp part 0 max_lev NULL h1 = Some (lst, h2)"
      "chain h2 lst (fold (merge_items cmp) (take max_lev pl) [])"
      "chain h2 (part ! max_lev) (pl ! max_lev)" "same_outside (set (local # xs)) h1 h2"
    using final_loop_ok [of h1 0 part pl NULL "[]" local max_lev cmp] l(2) d m list_all2_lengthD [OF l(2)]
      mset_eq_setD [OF l(3)] by auto
  have fm: "mset (fold (merge_items cmp) qs acc) = mset (concat qs) + mset acc" for qs acc
    by (induction qs arbitrary: acc) auto
  have "concat pl = concat (take (Suc max_lev) pl) @ concat (drop (Suc max_lev) pl)"
    by (metis append_take_drop_id concat_append)
  moreover have "concat (drop (Suc max_lev) pl) = []"
    using shaped(1) by (auto simp: shaped_def set_conv_nth concat_eq_Nil_conv)
  ultimately have "mset (concat pl) = mset (pl ! max_lev @ fold (merge_items cmp) (take max_lev pl) [])"
    using m by (simp add: take_Suc_conv_app_nth fm)
  then have ms: "mset (pl ! max_lev @ fold (merge_items cmp) (take max_lev pl) []) = mset xs" using l(3) by simp
  have d2: "distinct (head # pl ! max_lev @ fold (merge_items cmp) (take max_lev pl) [])"
    using distinct_mset [OF ms] mset_eq_setD [OF ms] ring_distinct [OF assms(1)] by simp
  obtain h' where r: "merge_and_restore_back_links cmp head (part ! max_lev) lst h2 = Some h'"
      "ring h' head (merge_items cmp (pl ! max_lev) (fold (merge_items cmp) (take max_lev pl) []))"
      "same_outside (set (head # xs)) h2 h'"
    using merge_and_restore_ok [OF f(3,2) d2] shaped(2) mset_eq_setD [OF ms] by auto
  have "same_outside (set (local # xs)) h ?h" using ll by (auto simp: same_outside_def)
  from same_step [OF this l(4) subset_refl] have "same_outside (set (local # xs)) h h1" by simp
  from same_step [OF this f(4) subset_refl] have "same_outside (set (local # xs)) h h2" by simp
  then have "same_outside (set (local # head # xs)) h h'" by (rule same_step [OF _ r(3)]) auto
  moreover have "list_sort local cmp head h = Some h'"
    using l(1) f(1) r(1) assms(1) False by (simp add: list_sort_def list_empty_ring Let_def del: replicate.simps)
  ultimately show ?thesis using r(2) s by (auto simp: sort_items_def simp del: replicate.simps)
qed

end
