(* ===== verification/Fiemap.thy ===== *)
theory Fiemap
  imports Prelude
begin

text \<open>
  Extent maps, \<open>fiemap.c\<close>. The FIEMAP ioctl is a parameter: its reply to the counting call (return
  code and \<open>fm_mapped_extents\<close>) and its reply to the mapping call, which depends on the number of
  extents the caller made room for. The array \<open>fm_extents\<close> is a list with the extents the kernel
  filled in; a read past it is \<open>None\<close>.

  \<open>fiemap_ok\<close> is what the kernel documents of a map: the extents are ascending, disjoint, and end
  below the largest 64-bit offset. \<open>get_extent\<close> is then the first extent that ends at or after an
  offset, and \<open>fiemap_count_shared\<close> counts exactly the bytes of the range that lie in shared
  extents.
\<close>

record fiemap_extent =
  fe_logical :: u64
  fe_physical :: u64
  fe_length :: u64
  fe_flags :: u32

record fiemap =
  fm_mapped_extents :: u32
  fm_extents :: "fiemap_extent list"

unbundle bit_operations_syntax

section \<open>Model\<close>

definition FIEMAP_EXTENT_LAST :: u32 where "FIEMAP_EXTENT_LAST = 0x1"
definition FIEMAP_EXTENT_DELALLOC :: u32 where "FIEMAP_EXTENT_DELALLOC = 0x4"
definition FIEMAP_EXTENT_SHARED :: u32 where "FIEMAP_EXTENT_SHARED = 0x2000"

definition fiemap_count_extents :: "int \<times> u32 \<Rightarrow> u32" where
  "fiemap_count_extents reply = (case reply of (err, mapped) \<Rightarrow> if err < 0 then 0 else mapped)"

text \<open>The result is the index and the extent, or \<open>None\<close> for NULL.\<close>

function get_extent_loop :: "fiemap \<Rightarrow> u64 \<Rightarrow> nat \<Rightarrow> (nat \<times> fiemap_extent) option option" where
  "get_extent_loop fm loff i =
     (if i < unat (fm_mapped_extents fm) then
        if i \<ge> length (fm_extents fm) then None
        else let extent = fm_extents fm ! i;
                 ext_end_off = fe_logical extent + fe_length extent - 1 in
          if ext_end_off < loff then get_extent_loop fm loff (i + 1)
          else Some (Some (i, extent))
      else Some None)"
  by pat_completeness auto
termination
  by (relation "measure (\<lambda>(fm, _, i). unat (fm_mapped_extents fm) - i)") auto

definition get_extent :: "fiemap \<Rightarrow> u64 \<Rightarrow> (nat \<times> fiemap_extent) option option" where
  "get_extent fm loff = get_extent_loop fm loff 0"

text \<open>
  \<open>do_fiemap\<close>: \<open>room\<close> tells whether \<open>calloc\<close> succeeds; the store to \<open>fm_start\<close> through its result
  is not guarded.
\<close>

definition do_fiemap ::
    "int \<times> u32 \<Rightarrow> (u32 \<Rightarrow> int \<times> fiemap) \<Rightarrow> bool \<Rightarrow> fiemap option option" where
  "do_fiemap count_reply map_reply room = do {
     let count = fiemap_count_extents count_reply;
     abort_on (\<not> room);
     let (err, fm) = map_reply count;
     Some (if err < 0 then None else Some fm)
   }"

text \<open>The loop of \<open>fiemap_count_shared\<close>.\<close>

definition count_shared_step :: "u64 \<Rightarrow> u64 \<Rightarrow> fiemap_extent \<Rightarrow> u64 \<Rightarrow> u64" where
  "count_shared_step start_off end_off extent shared =
     (let extent_end = fe_logical extent + fe_length extent;
          extent_loff = fe_logical extent in
      if start_off \<le> extent_end \<and> end_off \<ge> extent_loff then
        if fe_flags extent AND FIEMAP_EXTENT_DELALLOC = 0 \<and>
           fe_flags extent AND FIEMAP_EXTENT_SHARED \<noteq> 0 then
          let extent_loff = (if extent_loff < start_off then start_off else extent_loff);
              extent_end = (if end_off < extent_end then end_off else extent_end)
          in shared + (extent_end - extent_loff)
        else shared
      else shared)"

function count_shared_loop :: "fiemap \<Rightarrow> u64 \<Rightarrow> u64 \<Rightarrow> nat \<Rightarrow> u64 \<Rightarrow> u64 option" where
  "count_shared_loop fm start_off end_off i shared =
     (if i < unat (fm_mapped_extents fm) then
        if i \<ge> length (fm_extents fm) then None
        else count_shared_loop fm start_off end_off (i + 1)
               (count_shared_step start_off end_off (fm_extents fm ! i) shared)
      else Some shared)"
  by pat_completeness auto
termination
  by (relation "measure (\<lambda>(fm, _, _, i, _). unat (fm_mapped_extents fm) - i)") auto

text \<open>The result is the return code and \<open>*shared\<close>, which is not written when the ioctl fails.\<close>

definition fiemap_count_shared ::
    "int \<times> u32 \<Rightarrow> (u32 \<Rightarrow> int \<times> fiemap) \<Rightarrow> bool \<Rightarrow> u64 \<Rightarrow> u64 \<Rightarrow> u64 \<Rightarrow> (int \<times> u64) option" where
  "fiemap_count_shared count_reply map_reply room start_off end_off shared = do {
     abort_on (start_off \<ge> end_off);
     res \<leftarrow> do_fiemap count_reply map_reply room;
     case res of
       None \<Rightarrow> Some (1, shared)
     | Some fm \<Rightarrow> do {
         shared \<leftarrow> count_shared_loop fm start_off end_off 0 0;
         Some (0, shared)
       }
   }"

declare get_extent_loop.simps [simp del] count_shared_loop.simps [simp del]

section \<open>Extents as ranges of offsets\<close>

definition ext_start :: "fiemap_extent \<Rightarrow> nat" where
  "ext_start e = unat (fe_logical e)"

definition ext_stop :: "fiemap_extent \<Rightarrow> nat" where
  "ext_stop e = unat (fe_logical e) + unat (fe_length e)"

definition is_shared :: "fiemap_extent \<Rightarrow> bool" where
  "is_shared e \<longleftrightarrow> fe_flags e AND FIEMAP_EXTENT_DELALLOC = 0 \<and> fe_flags e AND FIEMAP_EXTENT_SHARED \<noteq> 0"

definition fiemap_ok :: "fiemap \<Rightarrow> bool" where
  "fiemap_ok fm \<longleftrightarrow> length (fm_extents fm) = unat (fm_mapped_extents fm) \<and>
     (\<forall>e \<in> set (fm_extents fm). 0 < fe_length e \<and> ext_stop e < 2 ^ 64) \<and>
     sorted_wrt (\<lambda>a b. ext_stop a \<le> ext_start b) (fm_extents fm)"

text \<open>The bytes between \<open>start_off\<close> and \<open>end_off\<close> that lie in a shared extent.\<close>

definition shared_bytes :: "fiemap_extent list \<Rightarrow> nat \<Rightarrow> nat \<Rightarrow> nat set" where
  "shared_bytes es a b = {i. a \<le> i \<and> i < b \<and> (\<exists>e \<in> set es. is_shared e \<and> ext_start e \<le> i \<and> i < ext_stop e)}"

lemma ext_end_no_wrap:
  "ext_stop e < 2 ^ 64 \<Longrightarrow> unat (fe_logical e + fe_length e) = ext_stop e"
  by (simp add: ext_stop_def unat_word_ariths)

lemma ext_last_no_wrap:
  "ext_stop e < 2 ^ 64 \<Longrightarrow> 0 < fe_length e \<Longrightarrow> unat (fe_logical e + fe_length e - 1) = ext_stop e - 1"
  using ext_end_no_wrap [of e] by (subst unat_minus_one) (auto simp: ext_stop_def word_gt_0 unat_eq_zero)

section \<open>Properties\<close>

lemma ext_last_less:
  "ext_stop e < 2 ^ 64 \<Longrightarrow> 0 < fe_length e \<Longrightarrow>
   fe_logical e + fe_length e - 1 < loff \<longleftrightarrow> ext_stop e \<le> unat loff"
  using ext_last_no_wrap [of e] unat_pos_iff [of "fe_length e"]
  by (auto simp: word_less_nat_alt ext_stop_def)

text \<open>The first extent, from position \<open>i\<close> on, that ends after \<open>loff\<close>.\<close>

definition first_from :: "fiemap_extent list \<Rightarrow> nat \<Rightarrow> nat \<Rightarrow> (nat \<times> fiemap_extent) option \<Rightarrow> bool" where
  "first_from es loff i r = (case r of
       None \<Rightarrow> \<forall>k \<in> {i..<length es}. ext_stop (es ! k) \<le> loff
     | Some (j, e) \<Rightarrow> i \<le> j \<and> j < length es \<and> e = es ! j \<and> loff < ext_stop e \<and>
         (\<forall>k \<in> {i..<j}. ext_stop (es ! k) \<le> loff))"

lemma first_from_skip:
  assumes "first_from es loff (Suc i) r" "ext_stop (es ! i) \<le> loff" "i < length es"
  shows "first_from es loff i r"
proof -
  have s: "{i..<n} = insert i {Suc i..<n}" if "i < n" for n using that by auto
  show ?thesis using assms by (cases r) (auto simp: first_from_def s)
qed

lemma get_extent_loop_spec:
  assumes "length (fm_extents fm) = unat (fm_mapped_extents fm)"
    and "\<forall>e \<in> set (fm_extents fm). 0 < fe_length e \<and> ext_stop e < 2 ^ 64"
  shows "\<exists>r. get_extent_loop fm loff i = Some r \<and> first_from (fm_extents fm) (unat loff) i r"
  using assms
proof (induction fm loff i rule: get_extent_loop.induct)
  case (1 fm loff i)
  show ?case
  proof (cases "i < length (fm_extents fm)")
    case False
    then show ?thesis using 1 by (simp add: get_extent_loop.simps [of fm] first_from_def)
  next
    case True
    let ?e = "fm_extents fm ! i"
    have e: "0 < fe_length ?e" "ext_stop ?e < 2 ^ 64" using 1(3) True by auto
    note less = ext_last_less [OF e(2,1), of loff]
    show ?thesis
    proof (cases "ext_stop ?e \<le> unat loff")
      case skip: True
      have "get_extent_loop fm loff i = get_extent_loop fm loff (Suc i)"
        using True 1(2) less skip by (simp add: get_extent_loop.simps [of fm loff i] Let_def)
      moreover obtain r where "get_extent_loop fm loff (Suc i) = Some r"
          "first_from (fm_extents fm) (unat loff) (Suc i) r"
        using 1(1) [OF _ _ refl refl] 1(2,3) True skip less by auto
      ultimately show ?thesis using first_from_skip skip True by auto
    next
      case False
      then show ?thesis
        using True 1(2) less by (simp add: get_extent_loop.simps [of fm loff i] Let_def first_from_def)
    qed
  qed
qed

lemma get_extent_find:
  assumes "fiemap_ok fm"
  shows "\<exists>r. get_extent fm loff = Some r \<and> map_option snd r = List.find (\<lambda>e. unat loff < ext_stop e) (fm_extents fm)"
proof -
  obtain r where r: "get_extent_loop fm loff 0 = Some r" "first_from (fm_extents fm) (unat loff) 0 r"
    using get_extent_loop_spec [of fm loff 0] assms by (auto simp: fiemap_ok_def)
  have "map_option snd r = List.find (\<lambda>e. unat loff < ext_stop e) (fm_extents fm)"
  proof (cases r)
    case None
    then have "\<forall>k < length (fm_extents fm). \<not> unat loff < ext_stop (fm_extents fm ! k)"
      using r(2) by (auto simp: first_from_def not_less)
    then have "List.find (\<lambda>e. unat loff < ext_stop e) (fm_extents fm) = None"
      by (auto simp: find_None_iff set_conv_nth)
    then show ?thesis using None by simp
  next
    case (Some p)
    then have "List.find (\<lambda>e. unat loff < ext_stop e) (fm_extents fm) = Some (snd p)"
      using r(2) by (auto simp: first_from_def find_Some_iff not_less split: prod.splits intro!: exI [of _ "fst p"])
    then show ?thesis using Some by simp
  qed
  with r(1) show ?thesis by (auto simp: get_extent_def)
qed

definition overlap :: "nat \<Rightarrow> nat \<Rightarrow> fiemap_extent \<Rightarrow> nat" where
  "overlap a b e = (if is_shared e then min b (ext_stop e) - max a (ext_start e) else 0)"

lemma count_shared_step_overlap:
  assumes "ext_stop e < 2 ^ 64" "start_off < end_off"
  shows "count_shared_step start_off end_off e shared = shared + of_nat (overlap (unat start_off) (unat end_off) e)"
proof -
  let ?l = "if fe_logical e < start_off then start_off else fe_logical e"
  let ?r = "if end_off < fe_logical e + fe_length e then end_off else fe_logical e + fe_length e"
  have l: "unat ?l = max (unat start_off) (ext_start e)"
    by (auto simp: ext_start_def word_less_nat_alt)
  have r: "unat ?r = min (unat end_off) (ext_stop e)"
    using ext_end_no_wrap [OF assms(1)] by (auto simp: word_less_nat_alt)
  have le: "ext_start e \<le> ext_stop e" by (simp add: ext_start_def ext_stop_def)
  show ?thesis
  proof (cases "start_off \<le> fe_logical e + fe_length e \<and> fe_logical e \<le> end_off")
    case True
    then have "?l \<le> ?r"
      using le assms ext_end_no_wrap [OF assms(1)] unfolding word_le_nat_alt l r
      by (auto simp: ext_start_def word_le_nat_alt word_less_nat_alt)
    then have "?r - ?l = of_nat (unat ?r - unat ?l)" by (rule word_diff_nat)
    with True show ?thesis
      unfolding count_shared_step_def Let_def overlap_def is_shared_def l r by simp
  next
    case False
    then have "min (unat end_off) (ext_stop e) - max (unat start_off) (ext_start e) = 0"
      using ext_end_no_wrap [OF assms(1)] by (auto simp: word_le_nat_alt ext_start_def)
    with False show ?thesis by (auto simp: count_shared_step_def Let_def overlap_def)
  qed
qed

lemma count_shared_loop_sum:
  assumes "length (fm_extents fm) = unat (fm_mapped_extents fm)"
    and "\<forall>e \<in> set (fm_extents fm). ext_stop e < 2 ^ 64" "start_off < end_off"
  shows "count_shared_loop fm start_off end_off i shared =
    Some (shared + of_nat (\<Sum>e\<leftarrow>drop i (fm_extents fm). overlap (unat start_off) (unat end_off) e))"
  using assms
proof (induction fm start_off end_off i shared rule: count_shared_loop.induct)
  case (1 fm start_off end_off i shared)
  show ?case
  proof (cases "i < length (fm_extents fm)")
    case True
    then have "drop i (fm_extents fm) = fm_extents fm ! i # drop (Suc i) (fm_extents fm)"
      by (simp add: Cons_nth_drop_Suc)
    with True 1 show ?thesis
      by (simp add: count_shared_loop.simps [of fm start_off end_off i] count_shared_step_overlap algebra_simps)
  qed (use 1 in \<open>simp add: count_shared_loop.simps [of fm start_off end_off i]\<close>)
qed

lemma finite_shared_bytes [simp]: "finite (shared_bytes es a b)"
  by (rule finite_subset [of _ "{..<b}"]) (auto simp: shared_bytes_def)

lemma card_shared_bytes:
  "sorted_wrt (\<lambda>a b. ext_stop a \<le> ext_start b) es \<Longrightarrow>
   card (shared_bytes es a b) = (\<Sum>e\<leftarrow>es. overlap a b e)"
proof (induction es)
  case (Cons e es)
  let ?A = "{i. a \<le> i \<and> i < b \<and> is_shared e \<and> ext_start e \<le> i \<and> i < ext_stop e}"
  have A: "?A = (if is_shared e then {max a (ext_start e)..<min b (ext_stop e)} else {})" by auto
  have U: "shared_bytes (e # es) a b = ?A \<union> shared_bytes es a b" by (auto simp: shared_bytes_def)
  have D: "?A \<inter> shared_bytes es a b = {}" using Cons.prems by (fastforce simp: shared_bytes_def)
  have "card ?A = overlap a b e" unfolding A by (simp add: overlap_def)
  moreover have "finite ?A" unfolding A by simp
  ultimately show ?case unfolding U using Cons D by (simp add: card_Un_disjoint)
qed (simp add: shared_bytes_def)

lemma shared_bytes_bound: "card (shared_bytes es a b) \<le> b - a"
proof -
  have "card (shared_bytes es a b) \<le> card {a..<b}"
    by (rule card_mono) (auto simp: shared_bytes_def)
  then show ?thesis by simp
qed

lemma fiemap_count_shared_ok:
  assumes "fiemap_ok fm" "start_off < end_off" "map_reply (fiemap_count_extents count_reply) = (err, fm)" "0 \<le> err"
  shows "\<exists>n. fiemap_count_shared count_reply map_reply True start_off end_off s = Some (0, n) \<and>
    unat n = card (shared_bytes (fm_extents fm) (unat start_off) (unat end_off)) \<and> n \<le> end_off - start_off"
proof -
  let ?c = "card (shared_bytes (fm_extents fm) (unat start_off) (unat end_off))"
  have "count_shared_loop fm start_off end_off 0 0 = Some (of_nat ?c)"
    using count_shared_loop_sum [of fm start_off end_off 0 0] card_shared_bytes assms(1,2)
    by (simp add: fiemap_ok_def)
  moreover have b: "?c \<le> unat end_off - unat start_off" by (rule shared_bytes_bound)
  moreover have "?c < 2 ^ 64" using b order_le_less_trans [OF _ unat_u64 [of end_off]] by simp
  then have "unat (of_nat ?c :: u64) = ?c" by (simp add: unsigned_of_nat take_bit_nat_eq_self)
  moreover have "unat (end_off - start_off) = unat end_off - unat start_off"
    using assms(2) by (simp add: unat_sub)
  ultimately show ?thesis
    using assms(2-4) by (simp add: fiemap_count_shared_def do_fiemap_def word_le_nat_alt word_less_nat_alt)
qed

section \<open>The properties of the extent maps\<close>

text \<open>
  C34. \<open>get_extent\<close> on a map of the kernel never reads past the array, and returns the first extent
  that ends after the offset: no extent before it reaches the offset, and NULL means that no extent
  does.
\<close>

theorem get_extent_correct:
  assumes "fiemap_ok fm"
  shows "\<exists>r. get_extent fm loff = Some r \<and> (case r of
      None \<Rightarrow> \<forall>e \<in> set (fm_extents fm). ext_stop e \<le> unat loff
    | Some (i, e) \<Rightarrow> i < length (fm_extents fm) \<and> e = fm_extents fm ! i \<and> unat loff < ext_stop e \<and>
        (\<forall>j < i. ext_stop (fm_extents fm ! j) \<le> unat loff))"
proof -
  obtain r where "get_extent_loop fm loff 0 = Some r" "first_from (fm_extents fm) (unat loff) 0 r"
    using get_extent_loop_spec [of fm loff 0] assms by (auto simp: fiemap_ok_def)
  then show ?thesis
    by (auto simp: get_extent_def first_from_def set_conv_nth split: option.splits)
qed

text \<open>For an offset in a hole that is the extent after the hole.\<close>

theorem get_extent_correct_witness:
  "let a = \<lparr>fe_logical = 0, fe_physical = 4096, fe_length = 4096, fe_flags = 0\<rparr>;
       b = \<lparr>fe_logical = 8192, fe_physical = 16384, fe_length = 4096, fe_flags = 1\<rparr> in
   get_extent \<lparr>fm_mapped_extents = 2, fm_extents = [a, b]\<rparr> 5000 = Some (Some (1, b))"
proof -
  define a :: fiemap_extent where "a = \<lparr>fe_logical = 0, fe_physical = 4096, fe_length = 4096, fe_flags = 0\<rparr>"
  define b :: fiemap_extent where "b = \<lparr>fe_logical = 8192, fe_physical = 16384, fe_length = 4096, fe_flags = 1\<rparr>"
  have e: "ext_stop a = 4096" "ext_stop b = 12288" "ext_start b = 8192" "0 < fe_length a" "0 < fe_length b"
    by (simp_all add: a_def b_def ext_stop_def ext_start_def)
  then have "fiemap_ok \<lparr>fm_mapped_extents = 2, fm_extents = [a, b]\<rparr>" by (simp add: fiemap_ok_def)
  from get_extent_correct [OF this, of 5000] e have "get_extent \<lparr>fm_mapped_extents = 2, fm_extents = [a, b]\<rparr> 5000 = Some (Some (1, b))"
    by (auto simp: less_Suc_eq split: option.splits)
  then show ?thesis unfolding Let_def a_def b_def .
qed

text \<open>
  C33. \<open>fiemap_count_shared\<close> returns the exact number of bytes of the range that lie in extents the
  kernel reports as shared (and not delayed), and never more than the length of the range; the
  ioctl and the allocation of \<open>do_fiemap\<close> succeed here.
\<close>

theorem fiemap_count_shared_correct:
  assumes "fiemap_ok fm" "start_off < end_off" "map_reply (fiemap_count_extents count_reply) = (err, fm)" "0 \<le> err"
  shows "\<exists>n. fiemap_count_shared count_reply map_reply True start_off end_off s = Some (0, n) \<and>
    unat n = card (shared_bytes (fm_extents fm) (unat start_off) (unat end_off)) \<and> n \<le> end_off - start_off"
  using fiemap_count_shared_ok [of fm start_off end_off map_reply count_reply err s] assms by blast

theorem fiemap_count_shared_correct_witness:
  "let fm = \<lparr>fm_mapped_extents = 1,
      fm_extents = [\<lparr>fe_logical = 0, fe_physical = 4096, fe_length = 4096, fe_flags = 0x2000\<rparr>]\<rparr> in
   \<exists>n. fiemap_count_shared (0, 1) (\<lambda>_. (0, fm)) True 100 200 0 = Some (0, n) \<and> n \<le> 100"
  using fiemap_count_shared_correct [of "\<lparr>fm_mapped_extents = 1,
      fm_extents = [\<lparr>fe_logical = 0, fe_physical = 4096, fe_length = 4096, fe_flags = 0x2000\<rparr>]\<rparr>"
      100 200 "\<lambda>_. (0, \<lparr>fm_mapped_extents = 1,
      fm_extents = [\<lparr>fe_logical = 0, fe_physical = 4096, fe_length = 4096, fe_flags = 0x2000\<rparr>]\<rparr>)" "(0, 1)" 0 0]
  by (auto simp: fiemap_ok_def ext_stop_def Let_def)

end
