(* ===== verification/Filerec.thy ===== *)
theory Filerec
  imports RbIndex Fiemap
begin

text \<open>
  The files under consideration, \<open>filerec.c\<close> and \<open>filerec.h\<close>: the global list and the tree by
  file id, the reference counted descriptors, the \<open>open_once\<close> sets that keep every file of a group
  open exactly once, and the extent lookup \<open>fiemap_scan_extent\<close>.

  \<open>filerecs\<close> is the global state: the filerecs by address, the SLIST \<open>filerec_head\<close>, the tree
  \<open>filerec_by_fileid\<close> (entries are file id and address), the counter \<open>num_filerecs\<close>, and the
  kernel's set of open descriptors \<open>open_fds\<close>. \<open>open(2)\<close> is a parameter that sees the path and the
  descriptors in use and returns a descriptor or -1, and \<open>errno\<close>. The memory allocator's answers
  are parameters too: the address of a new object, or \<open>None\<close> for NULL.

  A \<open>file_block\<close> of \<open>hash-tree.h\<close> is declared here because a filerec holds the tree of its blocks.
  Its parent pointer is the digest of the parent, which is the key of the parent in its tree.
\<close>

record file_block =
  b_addr :: nat
  b_parent :: digest
  b_file :: fptr
  b_loff :: u64

record filerec =
  fd :: int
  fd_refs :: u32
  filename :: string
  fileid :: int
  fsize :: u64
  block_tree :: "file_block rb_tree"

record filerecs =
  recs :: "fptr \<rightharpoonup> filerec"
  filerec_head :: "fptr list"
  filerec_by_fileid :: "(int \<times> fptr) rb_tree"
  num_filerecs :: u64
  open_fds :: "int set"

section \<open>Model\<close>

definition init_filerec :: "filerecs \<Rightarrow> filerecs" where
  "init_filerec st = st\<lparr>filerec_head := []\<rparr>"

definition no_filerecs :: filerecs where
  "no_filerecs = \<lparr>recs = Map.empty, filerec_head = [], filerec_by_fileid = RB_NULL,
     num_filerecs = 0, open_fds = {}\<rparr>"

text \<open>Tokens: a \<open>filerec_token\<close> is the filerec it names.\<close>

definition find_filerec_token_rb :: "fptr rb_tree \<Rightarrow> fptr \<Rightarrow> fptr option" where
  "find_filerec_token_rb root val = rb_search (\<lambda>t. word_cmp val t) root"

definition insert_filerec_token_rb :: "fptr rb_tree \<Rightarrow> fptr \<Rightarrow> fptr rb_tree option" where
  "insert_filerec_token_rb root token = rb_add (\<lambda>tmp. word_cmp token tmp) token root"

definition cmp_filerecs :: "int \<Rightarrow> int \<Rightarrow> int" where
  "cmp_filerecs file1_fileid file2_fileid =
     (if file1_fileid < file2_fileid then -1 else if file1_fileid > file2_fileid then 1 else 0)"

definition insert_filerec :: "fptr \<Rightarrow> int \<Rightarrow> filerecs \<Rightarrow> filerecs option" where
  "insert_filerec file fid st = do {
     root \<leftarrow> rb_add (\<lambda>tmp. cmp_filerecs (fst tmp) fid) (fid, file) (filerec_by_fileid st);
     Some (st\<lparr>filerec_by_fileid := root\<rparr>)
   }"

definition filerec_find :: "int \<Rightarrow> filerecs \<Rightarrow> fptr option" where
  "filerec_find fid st =
     map_option snd (rb_search (\<lambda>file. cmp_filerecs (fst file) fid) (filerec_by_fileid st))"

text \<open>\<open>new\<close> is the address from \<open>calloc\<close>, \<open>dup\<close> tells whether \<open>strdup\<close> succeeds.\<close>

definition filerec_alloc_insert ::
    "fptr option \<Rightarrow> bool \<Rightarrow> string \<Rightarrow> int \<Rightarrow> u64 \<Rightarrow> filerecs \<Rightarrow> (fptr option \<times> filerecs) option" where
  "filerec_alloc_insert new dup name fid sz st = (case new of
       None \<Rightarrow> Some (None, st)
     | Some file \<Rightarrow>
         if \<not> dup then Some (None, st)
         else do {
           let r = \<lparr>fd = -1, fd_refs = 0, filename = name, fileid = fid, fsize = sz, block_tree = RB_NULL\<rparr>;
           st \<leftarrow> insert_filerec file fid (st\<lparr>recs := (recs st)(file \<mapsto> r)\<rparr>);
           Some (Some file,
             st\<lparr>filerec_head := file # filerec_head st, num_filerecs := num_filerecs st + 1\<rparr>)
         })"

definition filerec_new ::
    "fptr option \<Rightarrow> bool \<Rightarrow> string \<Rightarrow> int \<Rightarrow> u64 \<Rightarrow> filerecs \<Rightarrow> (fptr option \<times> filerecs) option" where
  "filerec_new new dup name fid sz st = filerec_alloc_insert new dup name fid sz st"

definition slist_remove :: "fptr \<Rightarrow> fptr list \<Rightarrow> fptr list option" where
  "slist_remove x xs = (if x \<in> set xs then Some (remove1 x xs) else None)"

definition filerec_free :: "fptr \<Rightarrow> filerecs \<Rightarrow> filerecs option" where
  "filerec_free file st = do {
     r \<leftarrow> recs st file;
     head \<leftarrow> slist_remove file (filerec_head st);
     root \<leftarrow> rb_del (\<lambda>x. cmp_filerecs (fst x) (fileid r)) (filerec_by_fileid st);
     Some (st\<lparr>recs := (recs st)(file := None), filerec_head := head, filerec_by_fileid := root,
       num_filerecs := num_filerecs st - 1\<rparr>)
   }"

text \<open>\<open>SLIST_FOREACH_SAFE\<close> reads the link before it frees, so it visits the list as it was.\<close>

fun free_filerec_list :: "fptr list \<Rightarrow> filerecs \<Rightarrow> filerecs option" where
  "free_filerec_list [] st = Some st"
| "free_filerec_list (file # fs) st = do {
     st \<leftarrow> filerec_free file st;
     free_filerec_list fs st
   }"

definition free_all_filerecs :: "filerecs \<Rightarrow> filerecs option" where
  "free_all_filerecs st = free_filerec_list (filerec_head st) st"

definition filerec_open ::
    "(string \<Rightarrow> int set \<Rightarrow> int \<times> int) \<Rightarrow> fptr \<Rightarrow> filerecs \<Rightarrow> (int \<times> filerecs) option" where
  "filerec_open sys_open file st = do {
     r \<leftarrow> recs st file;
     if fd_refs r = 0 then do {
       abort_on (fd r \<noteq> -1);
       let (d, errno) = sys_open (filename r) (open_fds st);
       if d = -1 then Some (errno, st)
       else Some (0, st\<lparr>recs := (recs st)(file \<mapsto> r\<lparr>fd := d, fd_refs := fd_refs r + 1\<rparr>),
                       open_fds := insert d (open_fds st)\<rparr>)
     }
     else Some (0, st\<lparr>recs := (recs st)(file \<mapsto> r\<lparr>fd_refs := fd_refs r + 1\<rparr>)\<rparr>)
   }"

definition filerec_close :: "fptr \<Rightarrow> filerecs \<Rightarrow> filerecs option" where
  "filerec_close file st = do {
     r \<leftarrow> recs st file;
     abort_on (fd r = -1);
     abort_on (fd_refs r = 0);
     let refs = fd_refs r - 1;
     if refs = 0 then
       Some (st\<lparr>recs := (recs st)(file \<mapsto> r\<lparr>fd := -1, fd_refs := refs\<rparr>), open_fds := open_fds st - {fd r}\<rparr>)
     else Some (st\<lparr>recs := (recs st)(file \<mapsto> r\<lparr>fd_refs := refs\<rparr>)\<rparr>)
   }"

text \<open>\<open>room\<close>: the token could be allocated. The result is the return code, the set, the state.\<close>

definition filerec_open_once ::
    "(string \<Rightarrow> int set \<Rightarrow> int \<times> int) \<Rightarrow> bool \<Rightarrow> fptr \<Rightarrow> fptr rb_tree \<Rightarrow> filerecs \<Rightarrow>
     (int \<times> fptr rb_tree \<times> filerecs) option" where
  "filerec_open_once sys_open room file open_files st =
     (if find_filerec_token_rb open_files file \<noteq> None then Some (0, open_files, st)
      else if \<not> room then Some (ENOMEM, open_files, st)
      else do {
        (ret, st) \<leftarrow> filerec_open sys_open file st;
        if ret \<noteq> 0 then Some (ret, open_files, st)
        else do {
          open_files \<leftarrow> insert_filerec_token_rb open_files file;
          Some (0, open_files, st)
        }
      })"

partial_function (option) filerec_close_open_list ::
    "fptr rb_tree \<Rightarrow> filerecs \<Rightarrow> (fptr rb_tree \<times> filerecs) option" where
  "filerec_close_open_list open_files st =
     (case rb_first open_files of
        None \<Rightarrow> Some (open_files, st)
      | Some n \<Rightarrow> do {
          st \<leftarrow> filerec_close (cursor_item n) st;
          open_files \<leftarrow> rb_erase n;
          filerec_close_open_list open_files st
        })"

text \<open>
  \<open>fiemap_scan_extent\<close> for an extent of \<open>file\<close> at \<open>loff\<close>: the return code, and the new \<open>e_poff\<close>
  when it is assigned. \<open>sys_fiemap\<close> gives the replies of the two FIEMAP calls on a descriptor.
\<close>

definition fiemap_scan_extent ::
    "(string \<Rightarrow> int set \<Rightarrow> int \<times> int) \<Rightarrow> (int \<Rightarrow> (int \<times> u32) \<times> (u32 \<Rightarrow> int \<times> fiemap)) \<Rightarrow> bool \<Rightarrow>
     fptr \<Rightarrow> u64 \<Rightarrow> filerecs \<Rightarrow> (int \<times> u64 option \<times> filerecs) option" where
  "fiemap_scan_extent sys_open sys_fiemap room file loff st = do {
     (ret, st) \<leftarrow> filerec_open sys_open file st;
     if ret \<noteq> 0 then Some (ret, None, st)
     else do {
       r \<leftarrow> recs st file;
       let (count_reply, map_reply) = sys_fiemap (fd r);
       fm \<leftarrow> do_fiemap count_reply map_reply room;
       case fm of
         None \<Rightarrow> do { st \<leftarrow> filerec_close file st; Some (-1, None, st) }
       | Some fm \<Rightarrow> do {
           result \<leftarrow> get_extent fm loff;
           case result of
             None \<Rightarrow> do { st \<leftarrow> filerec_close file st; Some (-1, None, st) }
           | Some (i, e) \<Rightarrow> do { st \<leftarrow> filerec_close file st; Some (ret, Some (fe_physical e), st) }
         }
     }
   }"

section \<open>The two indexes\<close>

interpretation by_fileid: rb_order "fst :: int \<times> fptr \<Rightarrow> int" "\<lambda>k y. cmp_filerecs y k"
  by unfold_locales (auto simp: cmp_filerecs_def split: if_splits)

interpretation tokens: rb_order "\<lambda>t :: fptr. t" "word_cmp"
  by unfold_locales auto


section \<open>Creating, finding and freeing\<close>

definition fileid_inv :: "(int \<times> fptr) rb_tree \<Rightarrow> bool" where
  "fileid_inv t \<longleftrightarrow> rb_index fst (\<lambda>k y. cmp_filerecs y k) t"

definition filerecs_inv :: "filerecs \<Rightarrow> bool" where
  "filerecs_inv st \<longleftrightarrow> fileid_inv (filerec_by_fileid st) \<and> distinct (filerec_head st) \<and>
     set (filerec_head st) = dom (recs st) \<and>
     set (rb_inorder (filerec_by_fileid st)) = {(fileid r, f) | f r. recs st f = Some r} \<and>
     num_filerecs st = of_nat (length (filerec_head st))"

lemma no_filerecs_inv: "filerecs_inv no_filerecs"
  using by_fileid.rb_index_NULL by (simp add: filerecs_inv_def fileid_inv_def no_filerecs_def)

lemma filerec_find_Some:
  "filerecs_inv st \<Longrightarrow> filerec_find fid st = Some f \<longleftrightarrow> (\<exists>r. recs st f = Some r \<and> fileid r = fid)"
  using by_fileid.find_Some [of "filerec_by_fileid st" fid]
  by (auto simp: filerec_find_def filerecs_inv_def fileid_inv_def)

lemma filerec_find_None:
  "filerecs_inv st \<Longrightarrow> filerec_find fid st = None \<longleftrightarrow> (\<forall>f r. recs st f = Some r \<longrightarrow> fileid r \<noteq> fid)"
  using filerec_find_Some [of st fid] by (metis not_None_eq)

lemma filerec_new_ok:
  assumes inv: "filerecs_inv st" and new: "recs st p = None" "filerec_find fid st = None"
  shows "\<exists>st'. filerec_new (Some p) True name fid sz st = Some (Some p, st') \<and> filerecs_inv st' \<and>
    recs st' = (recs st)(p \<mapsto> \<lparr>fd = -1, fd_refs = 0, filename = name, fileid = fid, fsize = sz,
      block_tree = RB_NULL\<rparr>) \<and> filerec_head st' = p # filerec_head st \<and> open_fds st' = open_fds st"
proof -
  note i = inv [unfolded filerecs_inv_def fileid_inv_def]
  have none: "rb_search (\<lambda>x. cmp_filerecs (fst x) (fst (fid, p))) (filerec_by_fileid st) = None"
    using new(2) by (simp add: filerec_find_def)
  obtain root where r: "rb_add (\<lambda>x. cmp_filerecs (fst x) fid) (fid, p) (filerec_by_fileid st) = Some root"
      "rb_index fst (\<lambda>k y. cmp_filerecs y k) root"
    using by_fileid.addE [OF conjunct1 [OF i] none] by auto
  have s: "set (rb_inorder root) = insert (fid, p) (set (rb_inorder (filerec_by_fileid st)))"
    using by_fileid.set_add [OF conjunct1 [OF i] none] r(1) by simp
  have "p \<notin> set (filerec_head st)" using i new(1) by auto
  with r s i new(1) show ?thesis
    by (auto simp: filerec_new_def filerec_alloc_insert_def insert_filerec_def filerecs_inv_def fileid_inv_def)
qed

lemma filerec_free_ok:
  assumes inv: "filerecs_inv st" and r: "recs st f = Some r"
  shows "\<exists>st'. filerec_free f st = Some st' \<and> filerecs_inv st' \<and> recs st' = (recs st)(f := None) \<and>
    filerec_head st' = remove1 f (filerec_head st) \<and> open_fds st' = open_fds st"
proof -
  note i = inv [unfolded filerecs_inv_def fileid_inv_def]
  have f: "f \<in> set (filerec_head st)" using i r by auto
  have "filerec_find (fileid r) st = Some f" using filerec_find_Some [OF inv] r by blast
  then obtain g where g: "rb_search (\<lambda>x. cmp_filerecs (fst x) (fileid r)) (filerec_by_fileid st) = Some (g, f)"
    by (auto simp: filerec_find_def)
  obtain root where d: "rb_del (\<lambda>x. cmp_filerecs (fst x) (fileid r)) (filerec_by_fileid st) = Some root"
      "rb_index fst (\<lambda>k y. cmp_filerecs y k) root"
    using by_fileid.delE [OF conjunct1 [OF i] g] by auto
  have s: "set (rb_inorder root) = {y \<in> set (rb_inorder (filerec_by_fileid st)). fst y \<noteq> fileid r}"
    by (rule by_fileid.set_del [OF conjunct1 [OF i] g d(1)])
  have u: "fileid r' \<noteq> fileid r" if "recs st h = Some r'" "h \<noteq> f" for h r'
    using that filerec_find_Some [OF inv] \<open>filerec_find (fileid r) st = Some f\<close> by (metis option.inject)
  have n: "set (rb_inorder root) = {(fileid r', h) | h r'. ((recs st)(f := None)) h = Some r'}"
    unfolding s using i u r by (auto split: if_splits) (metis option.inject)
  have "length (filerec_head st) = Suc (length (remove1 f (filerec_head st)))"
    using f length_pos_if_in_set [OF f] by (simp add: length_remove1 del: length_greater_0_conv)
  then have "num_filerecs st - 1 = of_nat (length (remove1 f (filerec_head st)))" using i by simp
  with d n i f r show ?thesis
    by (auto simp: filerec_free_def slist_remove_def filerecs_inv_def fileid_inv_def)
qed

lemma free_filerec_list_ok:
  "filerecs_inv st \<Longrightarrow> set fs \<subseteq> dom (recs st) \<Longrightarrow> distinct fs \<Longrightarrow>
   \<exists>st'. free_filerec_list fs st = Some st' \<and> filerecs_inv st' \<and> dom (recs st') = dom (recs st) - set fs \<and>
     open_fds st' = open_fds st"
proof (induction fs arbitrary: st)
  case (Cons f fs)
  then obtain r where "recs st f = Some r" by auto
  from filerec_free_ok [OF Cons.prems(1) this] obtain st1 where
    st1: "filerec_free f st = Some st1" "filerecs_inv st1" "recs st1 = (recs st)(f := None)"
      "open_fds st1 = open_fds st" by blast
  then have "set fs \<subseteq> dom (recs st1)" using Cons.prems by auto
  then obtain st' where st': "free_filerec_list fs st1 = Some st'" "filerecs_inv st'"
      "dom (recs st') = dom (recs st1) - set fs" "open_fds st' = open_fds st1"
    using Cons.IH [OF st1(2)] Cons.prems(3) by auto
  moreover have "dom (recs st1) - set fs = dom (recs st) - set (f # fs)" using st1(3) by auto
  ultimately show ?case using st1(1,4) by simp
qed auto

lemma filerecs_inv_empty:
  assumes "filerecs_inv st" "dom (recs st) = {}"
  shows "st = no_filerecs\<lparr>open_fds := open_fds st\<rparr>"
proof -
  have "rb_inorder (filerec_by_fileid st) = []" "filerec_head st = []" "recs st = Map.empty"
    using assms by (auto simp: filerecs_inv_def)
  then have "filerec_by_fileid st = RB_NULL" by (cases "filerec_by_fileid st") auto
  with assms \<open>filerec_head st = []\<close> \<open>recs st = Map.empty\<close> show ?thesis
    by (cases st) (simp add: no_filerecs_def filerecs_inv_def)
qed

section \<open>Descriptors\<close>

definition sys_open_ok :: "(string \<Rightarrow> int set \<Rightarrow> int \<times> int) \<Rightarrow> bool" where
  "sys_open_ok sys_open \<longleftrightarrow> (\<forall>name fds. case sys_open name fds of
     (d, errno) \<Rightarrow> if d = -1 then errno \<noteq> 0 else d \<ge> 0 \<and> d \<notin> fds)"

definition fd_inv :: "filerecs \<Rightarrow> bool" where
  "fd_inv st \<longleftrightarrow> (\<forall>f r. recs st f = Some r \<longrightarrow>
     (fd_refs r = 0 \<longleftrightarrow> fd r = -1) \<and> (fd r \<noteq> -1 \<longrightarrow> fd r \<in> open_fds st) \<and> fd_refs r \<noteq> -1)"

text \<open>
  \<open>held st S D\<close>: the state \<open>st\<close> with one more reference on every file of \<open>S\<close>, where \<open>D\<close> gives the
  descriptors of the files that were not open before.
\<close>

definition fresh_fds :: "filerecs \<Rightarrow> fptr set \<Rightarrow> fptr set" where
  "fresh_fds st S = {f \<in> S. \<exists>r. recs st f = Some r \<and> fd_refs r = 0}"

definition held :: "filerecs \<Rightarrow> fptr set \<Rightarrow> (fptr \<Rightarrow> int) \<Rightarrow> filerecs" where
  "held st S D = st\<lparr>
     recs := (\<lambda>f. if f \<in> S then map_option (\<lambda>r. r\<lparr>fd := (if fd_refs r = 0 then D f else fd r),
       fd_refs := fd_refs r + 1\<rparr>) (recs st f) else recs st f),
     open_fds := open_fds st \<union> D ` fresh_fds st S\<rparr>"

definition held_ok :: "filerecs \<Rightarrow> fptr set \<Rightarrow> (fptr \<Rightarrow> int) \<Rightarrow> bool" where
  "held_ok st S D \<longleftrightarrow> S \<subseteq> dom (recs st) \<and> inj_on D (fresh_fds st S) \<and>
     (\<forall>f \<in> fresh_fds st S. D f \<noteq> -1 \<and> D f \<notin> open_fds st)"

lemma held_empty [simp]: "held st {} D = st"
  by (simp add: held_def fresh_fds_def)

lemma held_insert_recs:
  "f \<notin> S \<Longrightarrow> recs (held st S D) f = recs st f"
  by (simp add: held_def)

lemma held_insert_open:
  assumes "f \<notin> S" "recs st f = Some r" "fd_refs r = 0"
  shows "held st (insert f S) (D(f := d)) =
    (held st S D)\<lparr>recs := (recs (held st S D))(f \<mapsto> r\<lparr>fd := d, fd_refs := fd_refs r + 1\<rparr>),
      open_fds := insert d (open_fds (held st S D))\<rparr>"
proof -
  have fr: "fresh_fds st (insert f S) = insert f (fresh_fds st S)" "f \<notin> fresh_fds st S"
    using assms by (auto simp: fresh_fds_def)
  have R: "(\<lambda>g. if g \<in> insert f S then map_option (\<lambda>r. r\<lparr>fd := (if fd_refs r = 0 then (D(f := d)) g else fd r),
      fd_refs := fd_refs r + 1\<rparr>) (recs st g) else recs st g) =
    (\<lambda>g. if g \<in> S then map_option (\<lambda>r. r\<lparr>fd := (if fd_refs r = 0 then D g else fd r),
      fd_refs := fd_refs r + 1\<rparr>) (recs st g) else recs st g)(f \<mapsto> r\<lparr>fd := d, fd_refs := fd_refs r + 1\<rparr>)"
    by (rule ext) (use assms in \<open>auto cong: if_cong\<close>)
  have O: "open_fds st \<union> (D(f := d)) ` fresh_fds st (insert f S) = insert d (open_fds st \<union> D ` fresh_fds st S)"
    unfolding fr(1) using fr(2) by auto
  show ?thesis unfolding held_def R O by simp
qed

lemma held_insert_ref:
  assumes "f \<notin> S" "recs st f = Some r" "fd_refs r \<noteq> 0"
  shows "held st (insert f S) D =
    (held st S D)\<lparr>recs := (recs (held st S D))(f \<mapsto> r\<lparr>fd_refs := fd_refs r + 1\<rparr>)\<rparr>"
proof -
  have O: "fresh_fds st (insert f S) = fresh_fds st S" using assms by (auto simp: fresh_fds_def)
  have R: "(\<lambda>g. if g \<in> insert f S then map_option (\<lambda>r. r\<lparr>fd := (if fd_refs r = 0 then D g else fd r),
      fd_refs := fd_refs r + 1\<rparr>) (recs st g) else recs st g) =
    (\<lambda>g. if g \<in> S then map_option (\<lambda>r. r\<lparr>fd := (if fd_refs r = 0 then D g else fd r),
      fd_refs := fd_refs r + 1\<rparr>) (recs st g) else recs st g)(f \<mapsto> r\<lparr>fd_refs := fd_refs r + 1\<rparr>)"
    by (rule ext) (use assms in simp)
  show ?thesis unfolding held_def R O by simp
qed

lemma filerec_open_held:
  assumes inv: "fd_inv st" and sys: "sys_open_ok sys_open" and ok: "held_ok st S D"
    and f: "f \<notin> S" "f \<in> dom (recs st)"
  shows "(\<exists>D'. filerec_open sys_open f (held st S D) = Some (0, held st (insert f S) D') \<and>
      held_ok st (insert f S) D') \<or>
    (\<exists>e. e \<noteq> 0 \<and> filerec_open sys_open f (held st S D) = Some (e, held st S D))"
proof -
  obtain r where r: "recs st f = Some r" using f(2) by auto
  then have rh: "recs (held st S D) f = Some r" using held_insert_recs f(1) by simp
  show ?thesis
  proof (cases "fd_refs r = 0")
    case True
    then have fr: "fresh_fds st (insert f S) = insert f (fresh_fds st S)" "f \<notin> fresh_fds st S"
      using f(1) r by (auto simp: fresh_fds_def)
    obtain d e where de: "sys_open (filename r) (open_fds (held st S D)) = (d, e)" by fastforce
    then have o: "if d = -1 then e \<noteq> 0 else d \<ge> 0 \<and> d \<notin> open_fds (held st S D)"
      using sys by (auto simp: sys_open_ok_def dest!: spec split: prod.splits)
    have open1: "filerec_open sys_open f (held st S D) =
        (if d = -1 then Some (e, held st S D) else Some (0, held st (insert f S) (D(f := d))))"
      using True rh de r held_insert_open [OF f(1) r True] inv [unfolded fd_inv_def, rule_format, OF r]
      by (simp add: filerec_open_def)
    show ?thesis
    proof (cases "d = -1")
      case False
      then have "held_ok st (insert f S) (D(f := d))"
        using ok o f(2) fr by (auto simp: held_ok_def held_def inj_on_def)
      with open1 False show ?thesis by auto
    qed (use open1 o in auto)
  next
    case False
    then have "fresh_fds st (insert f S) = fresh_fds st S" using r by (auto simp: fresh_fds_def)
    then have "held_ok st (insert f S) D" using ok f(2) by (simp add: held_ok_def)
    with False rh held_insert_ref [OF f(1) r False] show ?thesis by (auto simp: filerec_open_def)
  qed
qed

lemma filerec_close_held:
  assumes inv: "fd_inv st" and ok: "held_ok st (insert f S) D" and f: "f \<notin> S"
  shows "filerec_close f (held st (insert f S) D) = Some (held st S D) \<and> held_ok st S D"
proof -
  obtain r where r: "recs st f = Some r" using ok by (auto simp: held_ok_def)
  let ?r = "r\<lparr>fd := (if fd_refs r = 0 then D f else fd r), fd_refs := fd_refs r + 1\<rparr>"
  have rh: "recs (held st (insert f S) D) f = Some ?r" using r by (simp add: held_def)
  have i: "fd_refs r = 0 \<longleftrightarrow> fd r = -1" "fd_refs r + 1 \<noteq> 0"
    using inv r by (auto simp: fd_inv_def eq_neg_iff_add_eq_0)
  have ok': "held_ok st S D" using ok by (auto simp: held_ok_def fresh_fds_def inj_on_def)
  have "filerec_close f (held st (insert f S) D) = Some (held st S D)"
  proof (cases "fd_refs r = 0")
    case True
    have fr: "f \<in> fresh_fds st (insert f S)" using True r by (simp add: fresh_fds_def)
    then have D: "D f \<noteq> -1" using ok by (auto simp: held_ok_def)
    have "D = D(f := D f)" by simp
    then have h: "held st (insert f S) D = (held st S D)\<lparr>recs := (recs (held st S D))(f \<mapsto> r\<lparr>fd := D f, fd_refs := fd_refs r + 1\<rparr>),
        open_fds := insert (D f) (open_fds (held st S D))\<rparr>"
      using held_insert_open [OF f r True, of D "D f"] by simp
    have "D f \<notin> open_fds (held st S D)"
      using ok fr f by (auto simp: held_ok_def held_def fresh_fds_def inj_on_def)
    moreover have "recs (held st S D) f = Some r" using held_insert_recs f r by simp
    moreover have "r\<lparr>fd := -1, fd_refs := 0\<rparr> = r" using True i(1) by (cases r) simp
    ultimately show ?thesis
      using True D unfolding filerec_close_def h by (simp add: fun_upd_idem)
  next
    case False
    have h: "held st (insert f S) D = (held st S D)\<lparr>recs := (recs (held st S D))(f \<mapsto> r\<lparr>fd_refs := fd_refs r + 1\<rparr>)\<rparr>"
      by (rule held_insert_ref [OF f r False])
    have "recs (held st S D) f = Some r" using held_insert_recs f r by simp
    then show ?thesis using False i unfolding filerec_close_def h by (simp add: fun_upd_idem)
  qed
  with ok' show ?thesis by simp
qed

text \<open>A set of open files, and the calls that fill it. Files that fail to open are left out.\<close>

definition open_once_inv :: "fptr rb_tree \<Rightarrow> bool" where
  "open_once_inv t \<longleftrightarrow> rb_index (\<lambda>t. t) word_cmp t"

fun open_group :: "(string \<Rightarrow> int set \<Rightarrow> int \<times> int) \<Rightarrow> (bool \<times> fptr) list \<Rightarrow> fptr rb_tree \<Rightarrow> filerecs \<Rightarrow>
    (fptr rb_tree \<times> filerecs) option" where
  "open_group sys_open [] open_files st = Some (open_files, st)"
| "open_group sys_open ((room, file) # fs) open_files st = do {
     (ret, open_files, st) \<leftarrow> filerec_open_once sys_open room file open_files st;
     open_group sys_open fs open_files st
   }"

lemma filerec_open_once_held:
  assumes inv: "fd_inv st" "sys_open_ok sys_open" and ok: "held_ok st (set (rb_inorder t)) D"
    and t: "open_once_inv t" and f: "f \<in> dom (recs st)"
  shows "\<exists>ret t' D'. filerec_open_once sys_open room f t (held st (set (rb_inorder t)) D) =
      Some (ret, t', held st (set (rb_inorder t')) D') \<and> open_once_inv t' \<and>
    held_ok st (set (rb_inorder t')) D' \<and> (ret = 0 \<longrightarrow> set (rb_inorder t') = insert f (set (rb_inorder t))) \<and>
    (ret \<noteq> 0 \<longrightarrow> t' = t)"
proof -
  note idx = t [unfolded open_once_inv_def]
  show ?thesis
  proof (cases "find_filerec_token_rb t f")
    case (Some x)
    then have "f \<in> set (rb_inorder t)" using tokens.find_SomeD idx by (fastforce simp: find_filerec_token_rb_def)
    with Some ok t show ?thesis by (auto simp: filerec_open_once_def insert_absorb)
  next
    case None
    then have fn: "rb_search (\<lambda>x. word_cmp f x) t = None" by (simp add: find_filerec_token_rb_def)
    have nf: "f \<notin> set (rb_inorder t)" using fn tokens.find_None [OF idx] by auto
    obtain t' where t': "rb_add (\<lambda>y. word_cmp f y) f t = Some t'" "rb_index (\<lambda>t. t) word_cmp t'"
      using tokens.addE [OF idx fn] by auto
    have st': "set (rb_inorder t') = insert f (set (rb_inorder t))"
      by (rule tokens.set_add [OF idx fn t'(1)])
    show ?thesis
    proof (cases room)
      case True
      from filerec_open_held [OF inv ok nf f] show ?thesis
        using None True t' st' ok t
        by (auto simp: filerec_open_once_def insert_filerec_token_rb_def open_once_inv_def)
    qed (use None ok t in \<open>auto simp: filerec_open_once_def\<close>)
  qed
qed

lemma open_group_held:
  assumes inv: "fd_inv st" "sys_open_ok sys_open"
  shows "held_ok st (set (rb_inorder t)) D \<Longrightarrow> open_once_inv t \<Longrightarrow> snd ` set fs \<subseteq> dom (recs st) \<Longrightarrow>
    \<exists>t' D'. open_group sys_open fs t (held st (set (rb_inorder t)) D) = Some (t', held st (set (rb_inorder t')) D') \<and>
      open_once_inv t' \<and> held_ok st (set (rb_inorder t')) D'"
proof (induction fs arbitrary: t D)
  case (Cons x fs)
  obtain room f where x: "x = (room, f)" by fastforce
  then have "f \<in> dom (recs st)" using Cons.prems(3) by auto
  from filerec_open_once_held [OF inv Cons.prems(1,2) this, of room] obtain ret t1 D1 where
    r: "filerec_open_once sys_open room f t (held st (set (rb_inorder t)) D) = Some (ret, t1, held st (set (rb_inorder t1)) D1)"
      "open_once_inv t1" "held_ok st (set (rb_inorder t1)) D1" by blast
  from Cons.IH [OF r(3,2)] Cons.prems(3) r(1) x show ?case by auto
qed auto

lemma filerec_close_open_list_held:
  assumes inv: "fd_inv st"
  shows "open_once_inv t \<Longrightarrow> held_ok st (set (rb_inorder t)) D \<Longrightarrow>
    filerec_close_open_list t (held st (set (rb_inorder t)) D) = Some (RB_NULL, st)"
proof (induction "length (rb_inorder t)" arbitrary: t)
  case 0
  then have "t = RB_NULL" by (cases t) auto
  then show ?case by (subst filerec_close_open_list.simps) (simp add: rb_first_def)
next
  case (Suc n)
  then have ne: "t \<noteq> RB_NULL" by auto
  have ti: "rb_inv t" "rb_ordered (\<lambda>t. t) word_cmp t" using Suc.prems(1) by (auto simp: open_once_inv_def rb_index_def)
  obtain t' where e: "rb_erase (leftmost t []) = Some t'" "rb_inv t'"
      "rb_inorder t = cursor_item (leftmost t []) # rb_inorder t'"
    using rb_erase_first [OF ti(1) ne] by blast
  let ?f = "cursor_item (leftmost t [])"
  have d: "?f \<notin> set (rb_inorder t')" using tokens.ordered_distinct [OF ti(2)] e(3) by simp
  have t': "open_once_inv t'" using ti(2) e by (simp add: open_once_inv_def rb_index_def rb_ordered_def)
  have ok: "held_ok st (insert ?f (set (rb_inorder t'))) D" using Suc.prems(2) e(3) by simp
  from filerec_close_held [OF inv ok d]
  have "filerec_close ?f (held st (set (rb_inorder t)) D) = Some (held st (set (rb_inorder t')) D)"
      "held_ok st (set (rb_inorder t')) D" using e(3) by auto
  moreover have "n = length (rb_inorder t')" using Suc.hyps(2) e(3) by simp
  ultimately show ?case
    using Suc.hyps(1) [OF _ t'] ne e(1) by (subst filerec_close_open_list.simps) (simp add: rb_first_def)
qed

lemma open_group_close:
  assumes "fd_inv st" "sys_open_ok sys_open" "snd ` set fs \<subseteq> dom (recs st)"
  shows "\<exists>t st1. open_group sys_open fs RB_NULL st = Some (t, st1) \<and> filerec_close_open_list t st1 = Some (RB_NULL, st)"
proof -
  have "held_ok st {} (\<lambda>_. 0)" by (simp add: held_ok_def fresh_fds_def)
  moreover have "open_once_inv RB_NULL" using tokens.rb_index_NULL by (simp add: open_once_inv_def)
  ultimately show ?thesis
    using open_group_held [OF assms(1,2), of RB_NULL "\<lambda>_. 0" fs] assms(3)
      filerec_close_open_list_held [OF assms(1)] by fastforce
qed

lemma open_one:
  assumes "fd_inv st" "sys_open_ok op" "f \<in> dom (recs st)"
  obtains (opened) st1 r where "filerec_open op f st = Some (0, st1)" "recs st1 f = Some r" "filerec_close f st1 = Some st"
    | (failed) e where "e \<noteq> 0" "filerec_open op f st = Some (e, st)"
proof -
  have ok: "held_ok st {} (\<lambda>_. 0)" by (simp add: held_ok_def fresh_fds_def)
  from filerec_open_held [OF assms(1,2) ok _ assms(3)] consider
    D where "filerec_open op f st = Some (0, held st {f} D)" "held_ok st {f} D"
  | e where "e \<noteq> 0" "filerec_open op f st = Some (e, st)" by auto
  then show thesis
  proof cases
    case 1
    moreover have "filerec_close f (held st {f} D) = Some st"
      using filerec_close_held [OF assms(1), of f "{}" D] 1(2) by simp
    moreover obtain r where "recs (held st {f} D) f = Some r" using assms(3) by (auto simp: held_def)
    ultimately show thesis using opened by blast
  qed (use failed in blast)
qed

section \<open>The properties of the file table\<close>

text \<open>A table with one closed file, and a system with one descriptor, for the examples.\<close>

definition example_filerec :: filerec where
  "example_filerec =
     \<lparr>fd = -1, fd_refs = 0, filename = ''a'', fileid = 1, fsize = 8192, block_tree = RB_NULL\<rparr>"

definition example_filerecs :: filerecs where
  "example_filerecs = no_filerecs\<lparr>recs := [64 \<mapsto> example_filerec]\<rparr>"

definition example_open :: "string \<Rightarrow> int set \<Rightarrow> int \<times> int" where
  "example_open name fds = (if 3 \<in> fds then (-1, 24) else (3, 0))"

lemma example_recs [simp]: "recs example_filerecs f = (if f = 64 then Some example_filerec else None)"
  by (simp add: example_filerecs_def no_filerecs_def)

lemma example_ok: "fd_inv example_filerecs" "sys_open_ok example_open" "64 \<in> dom (recs example_filerecs)"
  by (auto simp: fd_inv_def sys_open_ok_def example_open_def example_filerec_def split: if_splits)

lemma filerec_find_new:
  assumes "filerecs_inv st" "recs st p = None" "filerec_find fid st = None"
    and "filerecs_inv st'" "recs st' = (recs st)(p \<mapsto> r)" "fileid r = fid"
  shows "filerec_find k st' = (if k = fid then Some p else filerec_find k st)"
proof (cases "k = fid")
  case True
  then show ?thesis using filerec_find_Some [OF assms(4), of k p] assms(5,6) by auto
next
  case False
  have "filerec_find k st' = Some f \<longleftrightarrow> filerec_find k st = Some f" for f
    using filerec_find_Some [OF assms(4), of k f] filerec_find_Some [OF assms(1), of k f] assms(2,5,6) False by auto
  then have "filerec_find k st' = filerec_find k st" by (metis not_None_eq)
  with False show ?thesis by simp
qed

text \<open>
  \<open>filerec_new\<close> keeps the table consistent (the list, the tree by file id and the counter name
  the same files) and \<open>filerec_find\<close> afterwards finds the new file under its id and every other
  file as before.
\<close>

theorem filerec_new_correct:
  assumes "filerecs_inv st" "recs st p = None" "filerec_find fid st = None"
  shows "\<exists>st'. filerec_new (Some p) True name fid sz st = Some (Some p, st') \<and> filerecs_inv st' \<and>
    num_filerecs st' = num_filerecs st + 1 \<and>
    (\<forall>k. filerec_find k st' = (if k = fid then Some p else filerec_find k st))"
proof -
  obtain st' where st': "filerec_new (Some p) True name fid sz st = Some (Some p, st')" "filerecs_inv st'"
      "recs st' = (recs st)(p \<mapsto> \<lparr>fd = -1, fd_refs = 0, filename = name, fileid = fid, fsize = sz, block_tree = RB_NULL\<rparr>)"
      "filerec_head st' = p # filerec_head st"
    using filerec_new_ok [OF assms] by blast
  have "num_filerecs st' = num_filerecs st + 1"
    using st'(2,4) assms(1) by (simp add: filerecs_inv_def)
  moreover have "filerec_find k st' = (if k = fid then Some p else filerec_find k st)" for k
    by (rule filerec_find_new [OF assms st'(2,3)]) simp
  ultimately show ?thesis using st'(1,2) by blast
qed

theorem filerec_new_correct_witness:
  "\<exists>st'. filerec_new (Some 64) True ''a'' 1 4096 no_filerecs = Some (Some 64, st') \<and> filerec_find 1 st' = Some 64"
proof -
  have "recs no_filerecs 64 = None" "filerec_find 1 no_filerecs = None"
    by (simp_all add: no_filerecs_def filerec_find_def)
  from filerec_new_correct [OF no_filerecs_inv this, of "''a''" 4096] show ?thesis by force
qed

lemma free_all_filerecs_ok:
  assumes "filerecs_inv st"
  shows "free_all_filerecs st = Some (no_filerecs\<lparr>open_fds := open_fds st\<rparr>)"
proof -
  have "set (filerec_head st) \<subseteq> dom (recs st)" "distinct (filerec_head st)" "set (filerec_head st) = dom (recs st)"
    using assms by (simp_all add: filerecs_inv_def)
  then obtain st' where "free_filerec_list (filerec_head st) st = Some st'" "filerecs_inv st'"
      "dom (recs st') = {}" "open_fds st' = open_fds st"
    using free_filerec_list_ok [OF assms, of "filerec_head st"] by auto
  then show ?thesis using filerecs_inv_empty [of st'] by (simp add: free_all_filerecs_def)
qed

text \<open>
  C13. However a group of files is opened through \<open>filerec_open_once\<close> (files named twice, files that
  fail to open, failed allocations), \<open>filerec_close_open_list\<close> ends and restores every reference
  count, every descriptor and the set of open descriptors to what they were: no descriptor leaks
  and none is closed twice.
\<close>

theorem open_once_balanced:
  assumes "fd_inv st" "sys_open_ok sys_open" "snd ` set fs \<subseteq> dom (recs st)"
  shows "\<exists>t st1. open_group sys_open fs RB_NULL st = Some (t, st1) \<and>
    filerec_close_open_list t st1 = Some (RB_NULL, st)"
  by (rule open_group_close [OF assms])

theorem open_once_balanced_witness:
  "\<exists>t st1. open_group example_open [(True, 64), (True, 64)] RB_NULL example_filerecs = Some (t, st1) \<and>
     filerec_close_open_list t st1 = Some (RB_NULL, example_filerecs)"
  using open_once_balanced [OF example_ok(1,2), of "[(True, 64), (True, 64)]"] example_ok(3) by simp

text \<open>
  \<open>fiemap_scan_extent\<close> gives back the descriptor it took on every path. When the file does not
  open it returns the error. When the map is to be had and well formed it returns the physical
  offset of the first extent that ends after the offset, and -1 when there is none.
\<close>

theorem fiemap_scan_extent_correct:
  assumes "fd_inv st" "sys_open_ok sys_open" "f \<in> dom (recs st)"
    and "\<And>d. snd (sys_fiemap d) (fiemap_count_extents (fst (sys_fiemap d))) = (0, maps d) \<and> fiemap_ok (maps d)"
  shows "(\<exists>e. e \<noteq> 0 \<and> filerec_open sys_open f st = Some (e, st) \<and>
      fiemap_scan_extent sys_open sys_fiemap True f loff st = Some (e, None, st)) \<or>
    (\<exists>st1 r. filerec_open sys_open f st = Some (0, st1) \<and> recs st1 f = Some r \<and>
      fiemap_scan_extent sys_open sys_fiemap True f loff st =
        Some (case List.find (\<lambda>e. unat loff < ext_stop e) (fm_extents (maps (fd r))) of
            None \<Rightarrow> (-1, None, st) | Some e \<Rightarrow> (0, Some (fe_physical e), st)))"
proof (rule open_one [OF assms(1-3)])
  fix e assume "e \<noteq> 0" "filerec_open sys_open f st = Some (e, st)"
  then show ?thesis by (auto simp: fiemap_scan_extent_def)
next
  fix st1 r
  assume o: "filerec_open sys_open f st = Some (0, st1)" "recs st1 f = Some r" "filerec_close f st1 = Some st"
  obtain res where res: "get_extent (maps (fd r)) loff = Some res"
      "map_option snd res = List.find (\<lambda>e. unat loff < ext_stop e) (fm_extents (maps (fd r)))"
    using get_extent_find assms(4) by blast
  obtain c m where m: "sys_fiemap (fd r) = (c, m)" by fastforce
  then have "m (fiemap_count_extents c) = (0, maps (fd r))" using assms(4) [of "fd r"] by simp
  then have "fiemap_scan_extent sys_open sys_fiemap True f loff st =
      Some (case map_option snd res of None \<Rightarrow> (-1, None, st) | Some e \<Rightarrow> (0, Some (fe_physical e), st))"
    using o m res(1) by (cases res) (auto simp: fiemap_scan_extent_def do_fiemap_def)
  then show ?thesis unfolding res(2) using o(1,2) by blast
qed

theorem fiemap_scan_extent_correct_witness:
  "\<exists>ret poff. fiemap_scan_extent example_open (\<lambda>d. ((0, 0), \<lambda>_. (0, \<lparr>fm_mapped_extents = 0, fm_extents = []\<rparr>))) True 64 0
     example_filerecs = Some (ret, poff, example_filerecs)"
  using fiemap_scan_extent_correct [OF example_ok,
      of "\<lambda>d. ((0, 0), \<lambda>_. (0, \<lparr>fm_mapped_extents = 0, fm_extents = []\<rparr>))" "\<lambda>_. \<lparr>fm_mapped_extents = 0, fm_extents = []\<rparr>" 0]
  by (auto simp: fiemap_ok_def)

end
