(* ===== verification/HashTree.thy ===== *)
theory HashTree
  imports Filerec ListSort
begin

text \<open>
  The tree of block hashes, \<open>hash-tree.c\<close>. A \<open>dupe_blocks_list\<close> collects the blocks with one
  digest, in the order of insertion (\<open>dl_list\<close>) and by file (\<open>dl_files_root\<close>, with the blocks of a
  file in \<open>h_blocks\<close>). A block is also in the \<open>block_tree\<close> of its file, which belongs to the state
  of \<open>Filerec\<close>, so the operations work on both. A list head that is linked in \<open>size_list\<close> is the
  digest of its \<open>dupe_blocks_list\<close>.

  The allocator's answers are parameters: the address of the block, and whether a
  \<open>dupe_blocks_list\<close> and a \<open>file_hash_head\<close> can be had.
\<close>

record file_hash_head =
  h_file :: fptr
  h_blocks :: "file_block list"

record dupe_blocks_list =
  dl_hash :: digest
  dl_num_elem :: u64
  dl_list :: "file_block list"
  dl_num_files :: u32
  dl_files_root :: "file_hash_head rb_tree"

record hash_tree =
  ht_root :: "dupe_blocks_list rb_tree"
  size_list :: "digest list"
  num_blocks :: u64
  num_hashes :: u64

section \<open>Model\<close>

definition insert_block_into_filerec :: "fptr \<Rightarrow> file_block \<Rightarrow> filerecs \<Rightarrow> filerecs option" where
  "insert_block_into_filerec file block st = do {
     r \<leftarrow> recs st file;
     t \<leftarrow> rb_add (\<lambda>tmp. word_cmp (b_loff block) (b_loff tmp)) block (block_tree r);
     Some (st\<lparr>recs := (recs st)(file \<mapsto> r\<lparr>block_tree := t\<rparr>)\<rparr>)
   }"

definition find_filerec_block :: "filerec \<Rightarrow> u64 \<Rightarrow> file_block option" where
  "find_filerec_block file loff = rb_search (\<lambda>block. word_cmp loff (b_loff block)) (block_tree file)"

text \<open>The heads are in descending order: a smaller \<open>h_file\<close> sends the search to the left.\<close>

definition find_file_hash_head :: "dupe_blocks_list \<Rightarrow> fptr \<Rightarrow> file_hash_head option" where
  "find_file_hash_head dups file = rb_search (\<lambda>head. word_cmp (h_file head) file) (dl_files_root dups)"

definition insert_file_hash_head :: "dupe_blocks_list \<Rightarrow> file_hash_head \<Rightarrow> dupe_blocks_list option" where
  "insert_file_hash_head dups head = do {
     t \<leftarrow> rb_add (\<lambda>tmp. word_cmp (h_file tmp) (h_file head)) head (dl_files_root dups);
     Some (dups\<lparr>dl_files_root := t\<rparr>)
   }"

definition append_block :: "file_block \<Rightarrow> file_hash_head \<Rightarrow> file_hash_head" where
  "append_block block head = head\<lparr>h_blocks := h_blocks head @ [block]\<rparr>"

definition add_file_hash_head ::
    "bool \<Rightarrow> dupe_blocks_list \<Rightarrow> file_block \<Rightarrow> (int \<times> dupe_blocks_list) option" where
  "add_file_hash_head room dups block = do {
     let file = b_file block;
     let add = (\<lambda>dups. dups\<lparr>dl_files_root :=
       rb_adjust (\<lambda>head. word_cmp (h_file head) file) (append_block block) (dl_files_root dups)\<rparr>);
     case find_file_hash_head dups file of
       Some head \<Rightarrow> Some (0, add dups)
     | None \<Rightarrow>
         if \<not> room then Some (ENOMEM, dups)
         else do {
           dups \<leftarrow> insert_file_hash_head dups \<lparr>h_file = file, h_blocks = []\<rparr>;
           Some (0, add (dups\<lparr>dl_num_files := dl_num_files dups + 1\<rparr>))
         }
   }"

definition free_one_hash_head :: "dupe_blocks_list \<Rightarrow> fptr \<Rightarrow> dupe_blocks_list option" where
  "free_one_hash_head dups file = do {
     t \<leftarrow> rb_del (\<lambda>head. word_cmp (h_file head) file) (dl_files_root dups);
     Some (dups\<lparr>dl_files_root := t\<rparr>)
   }"

definition cmp_blocks :: "file_block \<Rightarrow> file_block \<Rightarrow> int" where
  "cmp_blocks fba fbb =
     (if b_loff fba < b_loff fbb then -1 else if b_loff fba > b_loff fbb then 1 else 0)"

definition sort_head :: "file_hash_head \<Rightarrow> file_hash_head" where
  "sort_head head = head\<lparr>h_blocks := sort_items cmp_blocks (h_blocks head)\<rparr>"

definition sort_dups :: "dupe_blocks_list \<Rightarrow> dupe_blocks_list" where
  "sort_dups dups = dups\<lparr>dl_files_root := map_rb_tree sort_head (dl_files_root dups)\<rparr>"

definition sort_file_hash_heads :: "hash_tree \<Rightarrow> hash_tree" where
  "sort_file_hash_heads tree = tree\<lparr>ht_root := map_rb_tree sort_dups (ht_root tree)\<rparr>"

definition insert_block_list :: "hash_tree \<Rightarrow> dupe_blocks_list \<Rightarrow> hash_tree option" where
  "insert_block_list tree lst = do {
     t \<leftarrow> rb_add (\<lambda>tmp. memcmp (dl_hash lst) (dl_hash tmp)) lst (ht_root tree);
     Some (tree\<lparr>ht_root := t, num_hashes := num_hashes tree + 1\<rparr>)
   }"

definition find_block_list :: "hash_tree \<Rightarrow> digest \<Rightarrow> dupe_blocks_list option" where
  "find_block_list tree d = rb_search (\<lambda>lst. memcmp d (dl_hash lst)) (ht_root tree)"

text \<open>A store to the \<open>dupe_blocks_list\<close> with digest \<open>d\<close>.\<close>

definition put_block_list :: "digest \<Rightarrow> dupe_blocks_list \<Rightarrow> hash_tree \<Rightarrow> hash_tree" where
  "put_block_list d dups tree =
     tree\<lparr>ht_root := rb_adjust (\<lambda>lst. memcmp d (dl_hash lst)) (\<lambda>_. dups) (ht_root tree)\<rparr>"

definition new_block_list :: "digest \<Rightarrow> dupe_blocks_list" where
  "new_block_list d = \<lparr>dl_hash = d, dl_num_elem = 0, dl_list = [], dl_num_files = 0, dl_files_root = RB_NULL\<rparr>"

text \<open>The first part: the list for the digest, found or made. \<open>None\<close> inside is a failed \<open>calloc\<close>.\<close>

definition get_block_list :: "bool \<Rightarrow> hash_tree \<Rightarrow> digest \<Rightarrow> hash_tree option option" where
  "get_block_list room tree d = (case find_block_list tree d of
       Some _ \<Rightarrow> Some (Some tree)
     | None \<Rightarrow>
         if \<not> room then Some None
         else do { tree \<leftarrow> insert_block_list tree (new_block_list d); Some (Some tree) })"

text \<open>The last part: the counters and the two lists the new block is linked into.\<close>

definition link_block :: "hash_tree \<Rightarrow> dupe_blocks_list \<Rightarrow> file_block \<Rightarrow> hash_tree" where
  "link_block tree d e =
     (let d = d\<lparr>dl_num_elem := dl_num_elem d + 1\<rparr>;
          tree = (if dl_num_elem d > 1 \<and> dl_hash d \<notin> set (size_list tree)
                  then tree\<lparr>size_list := dl_hash d # size_list tree\<rparr> else tree);
          d = d\<lparr>dl_list := dl_list d @ [e]\<rparr>
      in (put_block_list (dl_hash d) d tree)\<lparr>num_blocks := num_blocks tree + 1\<rparr>)"

definition insert_hashed_block ::
    "nat option \<Rightarrow> bool \<Rightarrow> bool \<Rightarrow> digest \<Rightarrow> fptr \<Rightarrow> u64 \<Rightarrow> hash_tree \<times> filerecs \<Rightarrow>
     (int \<times> hash_tree \<times> filerecs) option" where
  "insert_hashed_block ea droom hroom digest file loff s = (case (ea, s) of
       (None, s) \<Rightarrow> Some (ENOMEM, s)
     | (Some a, tree, st) \<Rightarrow> do {
         res \<leftarrow> get_block_list droom tree digest;
         case res of
           None \<Rightarrow> Some (ENOMEM, tree, st)
         | Some tree \<Rightarrow> do {
             d \<leftarrow> find_block_list tree digest;
             let e = \<lparr>b_addr = a, b_parent = digest, b_file = file, b_loff = loff\<rparr>;
             (ret, d) \<leftarrow> add_file_hash_head hroom d e;
             if ret \<noteq> 0 then Some (ENOMEM, put_block_list digest d tree, st)
             else do {
               st \<leftarrow> insert_block_into_filerec file e st;
               Some (0, link_block tree d e, st)
             }
           }
       })"

text \<open>
  \<open>remove_hashed_block\<close>. \<open>drop_from_head\<close> unlinks the block from the list of its file and frees
  the head when it became empty.
\<close>

definition drop_from_head :: "dupe_blocks_list \<Rightarrow> file_block \<Rightarrow> dupe_blocks_list option" where
  "drop_from_head dups block = (case find_file_hash_head dups (b_file block) of
       None \<Rightarrow> Some dups
     | Some head \<Rightarrow>
         let dups' = dups\<lparr>dl_files_root := rb_adjust (\<lambda>head. word_cmp (h_file head) (b_file block))
               (\<lambda>head. head\<lparr>h_blocks := remove1 block (h_blocks head)\<rparr>) (dl_files_root dups)\<rparr> in
         if remove1 block (h_blocks head) = [] then free_one_hash_head dups' (b_file block) else Some dups')"

definition erase_from_filerec :: "file_block \<Rightarrow> filerecs \<Rightarrow> filerecs option" where
  "erase_from_filerec block st = do {
     r \<leftarrow> recs st (b_file block);
     t \<leftarrow> rb_del (\<lambda>tmp. word_cmp (b_loff block) (b_loff tmp)) (block_tree r);
     Some (st\<lparr>recs := (recs st)(b_file block \<mapsto> r\<lparr>block_tree := t\<rparr>)\<rparr>)
   }"

definition remove_hashed_block ::
    "file_block \<Rightarrow> hash_tree \<times> filerecs \<Rightarrow> (int \<times> hash_tree \<times> filerecs) option" where
  "remove_hashed_block block s = do {
     let (tree, st) = s;
     blocklist \<leftarrow> find_block_list tree (b_parent block);
     abort_on (dl_num_elem blocklist = 0);
     st \<leftarrow> erase_from_filerec block st;
     let blocklist = blocklist\<lparr>dl_list := remove1 block (dl_list blocklist)\<rparr>;
     blocklist \<leftarrow> drop_from_head blocklist block;
     abort_on (dl_num_elem blocklist = 0);
     let blocklist = blocklist\<lparr>dl_num_elem := dl_num_elem blocklist - 1\<rparr>;
     if dl_num_elem blocklist = 0 then do {
       t \<leftarrow> rb_del (\<lambda>lst. memcmp (b_parent block) (dl_hash lst)) (ht_root tree);
       Some (1, tree\<lparr>ht_root := t, size_list := remove1 (b_parent block) (size_list tree),
         num_hashes := num_hashes tree - 1, num_blocks := num_blocks tree - 1\<rparr>, st)
     }
     else Some (0, (put_block_list (b_parent block) blocklist tree)\<lparr>num_blocks := num_blocks tree - 1\<rparr>, st)
   }"

definition init_hash_tree :: hash_tree where
  "init_hash_tree = \<lparr>ht_root = RB_NULL, size_list = [], num_blocks = 0, num_hashes = 0\<rparr>"

fun remove_blocks :: "file_block list \<Rightarrow> hash_tree \<times> filerecs \<Rightarrow> (hash_tree \<times> filerecs) option" where
  "remove_blocks [] s = Some s"
| "remove_blocks (block # bs) s = do {
     (ret, s) \<leftarrow> remove_hashed_block block s;
     if ret \<noteq> 0 then Some s else remove_blocks bs s
   }"

partial_function (option) free_hash_tree :: "hash_tree \<times> filerecs \<Rightarrow> (hash_tree \<times> filerecs) option" where
  "free_hash_tree s = (case rb_first (ht_root (fst s)) of
       None \<Rightarrow> Some s
     | Some n \<Rightarrow> do {
         s \<leftarrow> remove_blocks (dl_list (cursor_item n)) s;
         free_hash_tree s
       })"

section \<open>The indexes and the sort\<close>

interpretation by_loff: rb_order b_loff "word_cmp :: u64 \<Rightarrow> u64 \<Rightarrow> int"
  by unfold_locales auto

interpretation heads: rb_order h_file "\<lambda>k y. word_cmp y k"
  by unfold_locales auto

interpretation by_hash: rb_order dl_hash memcmp
proof
  fix a b c
  show "memcmp a b < 0 \<longleftrightarrow> 0 < memcmp b a" using memcmp_swap [of b a] by simp
  show "memcmp a b < 0 \<Longrightarrow> memcmp b c < 0 \<Longrightarrow> memcmp a c < 0" by (rule memcmp_trans)
qed simp

interpretation block_cmp: list_cmp cmp_blocks
  by unfold_locales (auto simp: cmp_blocks_def split: if_splits)


section \<open>The invariant\<close>

definition heads_ok :: "file_hash_head rb_tree \<Rightarrow> file_block list \<Rightarrow> bool" where
  "heads_ok t bl \<longleftrightarrow> rb_index h_file (\<lambda>k y. word_cmp y k) t \<and>
     (\<forall>f. case rb_search (\<lambda>head. word_cmp (h_file head) f) t of
        None \<Rightarrow> \<forall>b \<in> set bl. b_file b \<noteq> f
      | Some h \<Rightarrow> h_blocks h \<noteq> [] \<and> mset (h_blocks h) = mset (filter (\<lambda>b. b_file b = f) bl))"

definition dups_inv :: "dupe_blocks_list \<Rightarrow> bool" where
  "dups_inv d \<longleftrightarrow> heads_ok (dl_files_root d) (dl_list d) \<and> distinct (dl_list d) \<and>
     dl_num_elem d = of_nat (length (dl_list d)) \<and> (\<forall>b \<in> set (dl_list d). b_parent b = dl_hash d)"

definition root_blocks :: "dupe_blocks_list rb_tree \<Rightarrow> file_block multiset" where
  "root_blocks t = (\<Sum>d \<in># mset (rb_inorder t). mset (dl_list d))"

abbreviation tree_blocks :: "hash_tree \<Rightarrow> file_block multiset" where
  "tree_blocks tree \<equiv> root_blocks (ht_root tree)"

definition tree_inv :: "hash_tree \<Rightarrow> bool" where
  "tree_inv tree \<longleftrightarrow> rb_index dl_hash memcmp (ht_root tree) \<and>
     (\<forall>d \<in> set (rb_inorder (ht_root tree)). dups_inv d \<and> dl_list d \<noteq> [] \<and>
        (length (dl_list d) > 1 \<longrightarrow> dl_hash d \<in> set (size_list tree))) \<and>
     distinct (size_list tree) \<and> set (size_list tree) \<subseteq> dl_hash ` set (rb_inorder (ht_root tree)) \<and>
     num_hashes tree = of_nat (length (rb_inorder (ht_root tree))) \<and>
     num_blocks tree = of_nat (size (tree_blocks tree)) \<and> size (tree_blocks tree) < 2 ^ 64"

definition files_inv :: "file_block multiset \<Rightarrow> filerecs \<Rightarrow> bool" where
  "files_inv bs st \<longleftrightarrow>
     (\<forall>f r. recs st f = Some r \<longrightarrow> rb_index b_loff word_cmp (block_tree r) \<and>
        set (rb_inorder (block_tree r)) = {b. b \<in># bs \<and> b_file b = f}) \<and>
     (\<forall>b. b \<in># bs \<longrightarrow> b_file b \<in> dom (recs st))"

definition hash_inv :: "hash_tree \<times> filerecs \<Rightarrow> bool" where
  "hash_inv s \<longleftrightarrow> tree_inv (fst s) \<and> files_inv (tree_blocks (fst s)) (snd s)"

subsection \<open>Heads\<close>

lemma heads_okD:
  assumes "heads_ok t bl"
  shows "rb_index h_file (\<lambda>k y. word_cmp y k) t"
    and "rb_search (\<lambda>head. word_cmp (h_file head) f) t = None \<Longrightarrow> b \<in> set bl \<Longrightarrow> b_file b \<noteq> f"
    and "rb_search (\<lambda>head. word_cmp (h_file head) f) t = Some h \<Longrightarrow>
      h_blocks h \<noteq> [] \<and> mset (h_blocks h) = mset (filter (\<lambda>b. b_file b = f) bl)"
  using assms [unfolded heads_ok_def, THEN conjunct1]
    assms [unfolded heads_ok_def, THEN conjunct2, THEN spec, of f] by auto

lemma heads_ok_Nil [simp]: "heads_ok RB_NULL []"
  using heads.rb_index_NULL by (simp add: heads_ok_def)

lemma heads_adjust:
  assumes "rb_index h_file (\<lambda>k y. word_cmp y k) t" "\<And>x. h_file (g x) = h_file x"
  shows "rb_index h_file (\<lambda>k y. word_cmp y k) (rb_adjust (\<lambda>head. word_cmp (h_file head) f) g t)"
    and "rb_search (\<lambda>head. word_cmp (h_file head) f') (rb_adjust (\<lambda>head. word_cmp (h_file head) f) g t) =
      (if f' = f then map_option g (rb_search (\<lambda>head. word_cmp (h_file head) f') t)
       else rb_search (\<lambda>head. word_cmp (h_file head) f') t)"
  using heads.adjust_items [of t f g, OF assms(1)] heads.find_adjust [of t f g f', OF assms(1)] assms(2) by auto

lemma append_block_file [simp]: "h_file (append_block b h) = h_file h"
  by (simp add: append_block_def)

lemma append_block_blocks [simp]: "h_blocks (append_block b h) = h_blocks h @ [b]"
  by (simp add: append_block_def)

lemma add_file_hash_head_ok:
  assumes ok: "heads_ok (dl_files_root d) (dl_list d)"
    and room: "room \<or> find_file_hash_head d (b_file e) \<noteq> None"
  shows "\<exists>d'. add_file_hash_head room d e = Some (0, d') \<and> heads_ok (dl_files_root d') (dl_list d @ [e]) \<and>
    dl_hash d' = dl_hash d \<and> dl_num_elem d' = dl_num_elem d \<and> dl_list d' = dl_list d"
proof -
  note idx = heads_okD(1) [OF ok]
  let ?f = "b_file e" and ?g = "append_block e"
  let ?s = "\<lambda>f. rb_search (\<lambda>head. word_cmp (h_file head) f)"
  show ?thesis
  proof (cases "?s ?f (dl_files_root d)")
    case (Some h)
    note adj = heads_adjust [OF idx append_block_file [of e], where f = ?f]
    have "heads_ok (rb_adjust (\<lambda>head. word_cmp (h_file head) ?f) ?g (dl_files_root d)) (dl_list d @ [e])"
      using heads_okD(3) [OF ok Some] heads_okD(2,3) [OF ok] adj Some
      by (auto simp: heads_ok_def split: option.splits)
    with Some show ?thesis by (simp add: add_file_hash_head_def find_file_hash_head_def)
  next
    case None
    let ?h = "\<lparr>h_file = ?f, h_blocks = []\<rparr>"
    have n: "?s (h_file ?h) (dl_files_root d) = None" using None by simp
    obtain t where t: "rb_add (\<lambda>tmp. word_cmp (h_file tmp) ?f) ?h (dl_files_root d) = Some t"
        "rb_index h_file (\<lambda>k y. word_cmp y k) t"
      using heads.addE [OF idx n] by auto
    have s: "?s f t = (if f = ?f then Some ?h else ?s f (dl_files_root d))" for f
      using heads.find_add [OF idx n] t(1) by simp
    note adj = heads_adjust [OF t(2) append_block_file [of e], where f = ?f]
    have "filter (\<lambda>b. b_file b = ?f) (dl_list d) = []" using heads_okD(2) [OF ok None] by (simp add: filter_empty_conv)
    then have "heads_ok (rb_adjust (\<lambda>head. word_cmp (h_file head) ?f) ?g t) (dl_list d @ [e])"
      using heads_okD(2,3) [OF ok] adj s
      by (auto simp: heads_ok_def split: option.splits if_splits)
    with None room t show ?thesis
      by (auto simp: add_file_hash_head_def find_file_hash_head_def insert_file_hash_head_def)
  qed
qed

lemma drop_from_head_ok:
  assumes ok: "heads_ok (dl_files_root d) bl" and e: "e \<in> set bl" "distinct bl"
  shows "\<exists>d'. drop_from_head d e = Some d' \<and> heads_ok (dl_files_root d') (remove1 e bl) \<and>
    dl_hash d' = dl_hash d \<and> dl_num_elem d' = dl_num_elem d \<and> dl_list d' = dl_list d"
proof -
  note idx = heads_okD(1) [OF ok]
  let ?f = "b_file e" and ?g = "\<lambda>head. head\<lparr>h_blocks := remove1 e (h_blocks head)\<rparr>"
  let ?s = "\<lambda>f. rb_search (\<lambda>head. word_cmp (h_file head) f)"
  let ?t = "rb_adjust (\<lambda>head. word_cmp (h_file head) ?f) ?g (dl_files_root d)"
  obtain h where h: "?s ?f (dl_files_root d) = Some h"
    using heads_okD(2) [OF ok _ e(1)] by (cases "?s ?f (dl_files_root d)") auto
  have gf: "h_file (?g x) = h_file x" for x by simp
  note adj = heads_adjust [OF idx gf, where f = ?f]
  have m: "mset (remove1 e (h_blocks h)) = mset (filter (\<lambda>b. b_file b = ?f) (remove1 e bl))"
    using heads_okD(3) [OF ok h] e by (simp add: mset_remove1 filter_diff_mset)
  have other: "filter_mset (\<lambda>b. b_file b = f) (mset (remove1 e bl)) = filter_mset (\<lambda>b. b_file b = f) (mset bl)"
    if "f \<noteq> ?f" for f using that by simp
  have keep: "case ?s f (dl_files_root d) of
        None \<Rightarrow> \<forall>b \<in> set (remove1 e bl). b_file b \<noteq> f
      | Some h \<Rightarrow> h_blocks h \<noteq> [] \<and> mset (h_blocks h) = mset (filter (\<lambda>b. b_file b = f) (remove1 e bl))"
    if "f \<noteq> ?f" for f
    using heads_okD(2,3) [OF ok, of f] other [OF that] set_remove1_subset [of e bl]
    by (auto split: option.splits simp del: mset_remove1)
  show ?thesis
  proof (cases "remove1 e (h_blocks h) = []")
    case False
    have "heads_ok ?t (remove1 e bl)"
      unfolding heads_ok_def
    proof (intro conjI allI)
      show "rb_index h_file (\<lambda>k y. word_cmp y k) ?t" by (rule adj(1))
      fix f show "case ?s f ?t of
          None \<Rightarrow> \<forall>b \<in> set (remove1 e bl). b_file b \<noteq> f
        | Some h \<Rightarrow> h_blocks h \<noteq> [] \<and> mset (h_blocks h) = mset (filter (\<lambda>b. b_file b = f) (remove1 e bl))"
        using keep [of f] m h False unfolding adj(2) by (cases "f = ?f") (simp_all del: mset_remove1)
    qed
    with False h show ?thesis by (simp add: drop_from_head_def find_file_hash_head_def Let_def)
  next
    case True
    have sf: "?s ?f ?t = Some (?g h)" using h unfolding adj(2) by simp
    obtain t' where t': "rb_del (\<lambda>head. word_cmp (h_file head) ?f) ?t = Some t'"
        "rb_index h_file (\<lambda>k y. word_cmp y k) t'"
      using heads.delE [OF adj(1) sf] by auto
    have s': "?s f t' = (if f = ?f then None else ?s f (dl_files_root d))" for f
      using heads.find_del [OF adj(1) sf t'(1)] unfolding adj(2) by simp
    have "filter (\<lambda>b. b_file b = ?f) (remove1 e bl) = []"
      using m unfolding True by (metis mset.simps(1) mset_zero_iff)
    then have none: "\<forall>b \<in> set (remove1 e bl). b_file b \<noteq> ?f" by (simp add: filter_empty_conv)
    have "heads_ok t' (remove1 e bl)"
      unfolding heads_ok_def
    proof (intro conjI allI)
      show "rb_index h_file (\<lambda>k y. word_cmp y k) t'" by (rule t'(2))
      fix f show "case ?s f t' of
          None \<Rightarrow> \<forall>b \<in> set (remove1 e bl). b_file b \<noteq> f
        | Some h \<Rightarrow> h_blocks h \<noteq> [] \<and> mset (h_blocks h) = mset (filter (\<lambda>b. b_file b = f) (remove1 e bl))"
        using keep [of f] none unfolding s' by (cases "f = ?f") (simp_all del: mset_remove1)
    qed
    with True h t' show ?thesis
      by (simp add: drop_from_head_def find_file_hash_head_def free_one_hash_head_def Let_def)
  qed
qed

subsection \<open>The tree\<close>

lemma tree_blocks_member: "b \<in># root_blocks t \<longleftrightarrow> (\<exists>d \<in> set (rb_inorder t). b \<in> set (dl_list d))"
  by (auto simp: root_blocks_def)

lemma tree_blocks_list:
  "d \<in> set (rb_inorder t) \<Longrightarrow> mset (dl_list d) \<subseteq># root_blocks t"
  unfolding root_blocks_def by (metis (no_types, lifting) image_eqI in_multiset_in_set mset_subset_eq_add_left
      multi_member_split image_mset_add_mset sum_mset.insert)

lemma put_block_list_split:
  assumes idx: "rb_index dl_hash memcmp (ht_root tree)" and d: "find_block_list tree k = Some d"
    and d': "dl_hash d' = k"
  shows "rb_index dl_hash memcmp (ht_root (put_block_list k d' tree)) \<and> dl_hash d = k \<and>
    (\<exists>xs ys. rb_inorder (ht_root tree) = xs @ d # ys \<and>
      rb_inorder (ht_root (put_block_list k d' tree)) = xs @ d' # ys)"
proof -
  have f: "rb_search (\<lambda>x. memcmp k (dl_hash x)) (ht_root tree) = Some d" using d by (simp add: find_block_list_def)
  have "rb_index dl_hash memcmp (rb_adjust (\<lambda>x. memcmp k (dl_hash x)) (\<lambda>_. d') (ht_root tree))"
    using by_hash.adjust_items [OF idx, of k "\<lambda>_. d'"] d' by simp
  moreover have "\<exists>xs ys. rb_inorder (ht_root tree) = xs @ d # ys \<and>
      rb_inorder (rb_adjust (\<lambda>x. memcmp k (dl_hash x)) (\<lambda>_. d') (ht_root tree)) = xs @ d' # ys"
    using by_hash.adjust_split [OF idx f, of "\<lambda>_. d'"] d' by auto
  ultimately show ?thesis using by_hash.find_SomeD [OF f idx] by (simp add: put_block_list_def)
qed

lemma get_block_list_ok:
  assumes inv: "tree_inv tree" and room: "room \<or> find_block_list tree k \<noteq> None"
  shows "\<exists>tree' d. get_block_list room tree k = Some (Some tree') \<and> find_block_list tree' k = Some d \<and>
    rb_index dl_hash memcmp (ht_root tree') \<and>
    (if find_block_list tree k = None
     then d = new_block_list k \<and> mset (rb_inorder (ht_root tree')) = add_mset d (mset (rb_inorder (ht_root tree))) \<and>
       tree' = tree\<lparr>ht_root := ht_root tree', num_hashes := num_hashes tree + 1\<rparr>
     else tree' = tree)"
proof (cases "find_block_list tree k")
  case (Some d)
  then show ?thesis using inv by (simp add: get_block_list_def tree_inv_def)
next
  case None
  have idx: "rb_index dl_hash memcmp (ht_root tree)" using inv by (simp add: tree_inv_def)
  have n: "rb_search (\<lambda>x. memcmp (dl_hash (new_block_list k)) (dl_hash x)) (ht_root tree) = None"
    using None by (simp add: find_block_list_def new_block_list_def)
  obtain t where t: "rb_add (\<lambda>x. memcmp (dl_hash (new_block_list k)) (dl_hash x)) (new_block_list k) (ht_root tree) = Some t"
      "rb_index dl_hash memcmp t" "mset (rb_inorder t) = add_mset (new_block_list k) (mset (rb_inorder (ht_root tree)))"
    using by_hash.addE [OF idx n] by blast
  have "rb_search (\<lambda>x. memcmp k (dl_hash x)) t = Some (new_block_list k)"
    using by_hash.find_add [OF idx n t(1), of k] by (simp add: new_block_list_def)
  with None room t show ?thesis
    by (simp add: get_block_list_def insert_block_list_def find_block_list_def)
qed

lemma insert_block_into_filerec_ok:
  assumes inv: "files_inv bs st" and r: "recs st (b_file e) = Some r" and free: "find_filerec_block r (b_loff e) = None"
  shows "\<exists>st'. insert_block_into_filerec (b_file e) e st = Some st' \<and> files_inv (add_mset e bs) st'"
proof -
  have idx: "rb_index b_loff word_cmp (block_tree r)"
    and items: "set (rb_inorder (block_tree r)) = {b. b \<in># bs \<and> b_file b = b_file e}"
    using inv r by (auto simp: files_inv_def)
  have n: "rb_search (\<lambda>x. word_cmp (b_loff e) (b_loff x)) (block_tree r) = None"
    using free by (simp add: find_filerec_block_def)
  obtain t where t: "rb_add (\<lambda>x. word_cmp (b_loff e) (b_loff x)) e (block_tree r) = Some t" "rb_index b_loff word_cmp t"
    using by_loff.addE [OF idx n] by blast
  have s: "set (rb_inorder t) = insert e (set (rb_inorder (block_tree r)))" by (rule by_loff.set_add [OF idx n t(1)])
  have "files_inv (add_mset e bs) (st\<lparr>recs := (recs st)(b_file e \<mapsto> r\<lparr>block_tree := t\<rparr>)\<rparr>)"
    using inv t(2) s items by (auto simp: files_inv_def)
  with r t(1) show ?thesis by (simp add: insert_block_into_filerec_def)
qed

lemma root_blocks_split:
  "rb_inorder t = xs @ d # ys \<Longrightarrow>
   root_blocks t = (\<Sum>d \<in># mset (xs @ ys). mset (dl_list d)) + mset (dl_list d)"
  by (simp add: root_blocks_def)

text \<open>
  The tree once the list for digest \<open>k\<close> is there, possibly still empty: \<open>tree_inv\<close> but for the list
  \<open>d\<close> itself.
\<close>

definition tree_ready :: "hash_tree \<Rightarrow> dupe_blocks_list \<Rightarrow> bool" where
  "tree_ready tree d \<longleftrightarrow> rb_index dl_hash memcmp (ht_root tree) \<and> find_block_list tree (dl_hash d) = Some d \<and>
     dups_inv d \<and> (length (dl_list d) > 1 \<longrightarrow> dl_hash d \<in> set (size_list tree)) \<and>
     (\<forall>x \<in> set (rb_inorder (ht_root tree)). x \<noteq> d \<longrightarrow> dups_inv x \<and> dl_list x \<noteq> [] \<and>
        (length (dl_list x) > 1 \<longrightarrow> dl_hash x \<in> set (size_list tree))) \<and>
     distinct (size_list tree) \<and> set (size_list tree) \<subseteq> dl_hash ` set (rb_inorder (ht_root tree)) \<and>
     num_hashes tree = of_nat (length (rb_inorder (ht_root tree))) \<and>
     num_blocks tree = of_nat (size (tree_blocks tree))"

lemma get_block_list_ready:
  assumes inv: "tree_inv tree" and room: "room \<or> find_block_list tree k \<noteq> None"
  shows "\<exists>tree' d. get_block_list room tree k = Some (Some tree') \<and> dl_hash d = k \<and> tree_ready tree' d \<and>
    tree_blocks tree' = tree_blocks tree \<and> dl_list d = (case find_block_list tree k of None \<Rightarrow> [] | Some d \<Rightarrow> dl_list d)"
proof -
  obtain tree' d where g: "get_block_list room tree k = Some (Some tree')" "find_block_list tree' k = Some d"
    "rb_index dl_hash memcmp (ht_root tree')"
    "if find_block_list tree k = None
     then d = new_block_list k \<and> mset (rb_inorder (ht_root tree')) = add_mset d (mset (rb_inorder (ht_root tree))) \<and>
       tree' = tree\<lparr>ht_root := ht_root tree', num_hashes := num_hashes tree + 1\<rparr>
     else tree' = tree"
    using get_block_list_ok [OF assms] by blast
  have k: "dl_hash d = k" "d \<in> set (rb_inorder (ht_root tree'))"
    using g(2) by_hash.find_SomeD [OF _ g(3)] by (auto simp: find_block_list_def)
  have "tree_ready tree' d \<and> tree_blocks tree' = tree_blocks tree"
  proof (cases "find_block_list tree k = None")
    case False
    with g(4) have t: "tree' = tree" by simp
    then show ?thesis using inv g(2,3) k unfolding tree_inv_def tree_ready_def by blast
  next
    case True
    with g(4) have d: "d = new_block_list k"
      and m: "mset (rb_inorder (ht_root tree')) = add_mset d (mset (rb_inorder (ht_root tree)))"
      and t: "tree' = tree\<lparr>ht_root := ht_root tree', num_hashes := num_hashes tree + 1\<rparr>" by auto
    have st: "set (rb_inorder (ht_root tree')) = insert d (set (rb_inorder (ht_root tree)))"
      using arg_cong [OF m, of set_mset] by simp
    have ln: "length (rb_inorder (ht_root tree')) = Suc (length (rb_inorder (ht_root tree)))"
      using arg_cong [OF m, of size] by simp
    have bl: "tree_blocks tree' = tree_blocks tree" by (simp add: root_blocks_def m d new_block_list_def)
    have dd: "dups_inv d" "dl_list d = []" by (simp_all add: d new_block_list_def dups_inv_def)
    have sl: "size_list tree' = size_list tree" "num_hashes tree' = num_hashes tree + 1"
        "num_blocks tree' = num_blocks tree" by (subst t, simp)+
    show ?thesis using inv g(2,3) k(1) dd st ln bl sl unfolding tree_inv_def tree_ready_def by auto
  qed
  moreover have "dl_list d = (case find_block_list tree k of None \<Rightarrow> [] | Some d \<Rightarrow> dl_list d)"
    using g(2,4) by (auto simp: new_block_list_def split: option.splits if_splits)
  ultimately show ?thesis using g(1) k(1) by blast
qed

lemma link_block_ok:
  assumes ready: "tree_ready tree d" and e: "e \<notin># tree_blocks tree" "b_parent e = dl_hash d"
    and room: "size (tree_blocks tree) + 1 < 2 ^ 64"
    and d1: "heads_ok (dl_files_root d1) (dl_list d @ [e])" "dl_hash d1 = dl_hash d"
      "dl_num_elem d1 = dl_num_elem d" "dl_list d1 = dl_list d"
  shows "tree_inv (link_block tree d1 e) \<and> tree_blocks (link_block tree d1 e) = add_mset e (tree_blocks tree)"
proof -
  let ?d = "d1\<lparr>dl_num_elem := dl_num_elem d1 + 1, dl_list := dl_list d1 @ [e]\<rparr>"
  let ?sl = "if dl_num_elem d + 1 > 1 \<and> dl_hash d \<notin> set (size_list tree)
    then dl_hash d # size_list tree else size_list tree"
  let ?t = "put_block_list (dl_hash d) ?d tree"
  have lb: "link_block tree d1 e = tree\<lparr>ht_root := ht_root ?t, size_list := ?sl, num_blocks := num_blocks tree + 1\<rparr>"
    using d1(2,3) by (simp add: link_block_def put_block_list_def Let_def)
  note r = ready [unfolded tree_ready_def]
  have idx: "rb_index dl_hash memcmp (ht_root tree)" "find_block_list tree (dl_hash d) = Some d" using r by auto
  obtain xs ys where s: "rb_inorder (ht_root tree) = xs @ d # ys" "rb_inorder (ht_root ?t) = xs @ ?d # ys"
      "rb_index dl_hash memcmp (ht_root ?t)"
    using put_block_list_split [OF idx, of ?d] d1(2) by auto
  have bl: "root_blocks (ht_root ?t) = add_mset e (tree_blocks tree)"
    using root_blocks_split [OF s(1)] root_blocks_split [OF s(2)] d1(4) by simp
  have dn: "d \<notin> set (xs @ ys)"
    using by_hash.distinct_keys [OF idx(1)] s(1) by auto
  have "mset (dl_list d) \<subseteq># tree_blocks tree" using tree_blocks_list s(1) by simp
  then have le: "length (dl_list d) \<le> size (tree_blocks tree)" using size_mset_mono by fastforce
  have ed: "e \<notin> set (dl_list d)" using e(1) s(1) by (auto simp: tree_blocks_member)
  have dd: "dups_inv ?d" using r d1 ed e(2) by (auto simp: dups_inv_def)
  have num: "dl_num_elem d + 1 = (of_nat (length (dl_list d) + 1) :: u64)" using r by (simp add: dups_inv_def)
  have "unat (of_nat (length (dl_list d) + 1) :: u64) = length (dl_list d) + 1"
    by (rule unat_of_nat_u64) (use le room in linarith)
  then have "length (dl_list d) + 1 > 1 \<Longrightarrow> dl_num_elem d + 1 > 1"
    unfolding num word_less_nat_alt by simp
  then have big: "length (dl_list ?d) > 1 \<longrightarrow> dl_hash ?d \<in> set ?sl" using d1(2,4) by auto
  have rest: "\<forall>x \<in> set (xs @ ys). dups_inv x \<and> dl_list x \<noteq> [] \<and> (length (dl_list x) > 1 \<longrightarrow> dl_hash x \<in> set ?sl)"
    using r s(1) dn by auto
  have sl: "distinct ?sl" "set ?sl \<subseteq> dl_hash ` set (xs @ ?d # ys)" using r s(1) d1(2) by auto
  have "tree_inv (link_block tree d1 e)"
    unfolding tree_inv_def lb using s(2,3) bl dd big rest sl r s(1) room d1(4) by auto
  with bl lb show ?thesis by simp
qed

lemma insert_hashed_block_ok:
  assumes inv: "hash_inv (tree, st)" and room: "size (tree_blocks tree) + 1 < 2 ^ 64"
    and r: "recs st file = Some r" "find_filerec_block r loff = None"
  shows "\<exists>s'. insert_hashed_block (Some a) True True digest file loff (tree, st) = Some (0, s') \<and> hash_inv s' \<and>
    tree_blocks (fst s') = add_mset \<lparr>b_addr = a, b_parent = digest, b_file = file, b_loff = loff\<rparr> (tree_blocks tree)"
proof -
  let ?e = "\<lparr>b_addr = a, b_parent = digest, b_file = file, b_loff = loff\<rparr>"
  have ti: "tree_inv tree" and fi: "files_inv (tree_blocks tree) st" using inv by (simp_all add: hash_inv_def)
  obtain tree' d where g: "get_block_list True tree digest = Some (Some tree')" "dl_hash d = digest"
      "tree_ready tree' d" "tree_blocks tree' = tree_blocks tree"
    using get_block_list_ready [OF ti, of True digest] by auto
  have fd: "find_block_list tree' digest = Some d" using g by (simp add: tree_ready_def)
  have ok: "heads_ok (dl_files_root d) (dl_list d)" using g(3) by (simp add: tree_ready_def dups_inv_def)
  obtain d1 where d1: "add_file_hash_head True d ?e = Some (0, d1)" "heads_ok (dl_files_root d1) (dl_list d @ [?e])"
      "dl_hash d1 = dl_hash d" "dl_num_elem d1 = dl_num_elem d" "dl_list d1 = dl_list d"
    using add_file_hash_head_ok [OF ok, of True ?e] by auto
  have free: "?e \<notin># tree_blocks tree"
  proof
    assume "?e \<in># tree_blocks tree"
    then have "?e \<in> set (rb_inorder (block_tree r))" "rb_index b_loff word_cmp (block_tree r)"
      using fi r(1) by (auto simp: files_inv_def)
    then have "find_filerec_block r (b_loff ?e) = Some ?e"
      using by_loff.find_unique unfolding find_filerec_block_def by blast
    with r(2) show False by simp
  qed
  have rf: "recs st (b_file ?e) = Some r" "find_filerec_block r (b_loff ?e) = None" using r by simp_all
  obtain st' where st': "insert_block_into_filerec file ?e st = Some st'" "files_inv (add_mset ?e (tree_blocks tree)) st'"
    using insert_block_into_filerec_ok [OF fi rf] by auto
  have "tree_inv (link_block tree' d1 ?e) \<and> tree_blocks (link_block tree' d1 ?e) = add_mset ?e (tree_blocks tree')"
    by (rule link_block_ok [OF g(3) _ _ _ d1(2-5)]) (use g free room in auto)
  with g st' fd d1(1) show ?thesis by (simp add: insert_hashed_block_def hash_inv_def)
qed

text \<open>
  \<open>dl_num_files\<close> is not part of the invariant, since \<open>remove_hashed_block\<close> never decrements it; an insertion
  counts the file when the list has no block of it.
\<close>

lemma head_num_files:
  assumes "heads_ok (dl_files_root d) (dl_list d)" "add_file_hash_head True d e = Some (0, d')"
  shows "dl_num_files d' = dl_num_files d + (if b_file e \<in> b_file ` set (dl_list d) then 0 else 1)" "dl_hash d' = dl_hash d"
proof -
  have seen: "(find_file_hash_head d (b_file e) \<noteq> None) = (b_file e \<in> b_file ` set (dl_list d))"
  proof (cases "rb_search (\<lambda>head. word_cmp (h_file head) (b_file e)) (dl_files_root d)")
    case None
    have "b_file b \<noteq> b_file e" if "b \<in> set (dl_list d)" for b using heads_okD(2) [OF assms(1) None that] .
    then have "b_file e \<notin> b_file ` set (dl_list d)" by (metis imageE)
    with None show ?thesis by (simp add: find_file_hash_head_def)
  next
    case (Some h)
    then have "filter (\<lambda>b. b_file b = b_file e) (dl_list d) \<noteq> []" using heads_okD(3) [OF assms(1) Some] by (metis mset.simps(1) mset_zero_iff)
    then obtain b where "b \<in> set (dl_list d)" "b_file b = b_file e" by (auto simp: filter_empty_conv)
    then have "b_file e \<in> b_file ` set (dl_list d)" by (metis image_eqI)
    with Some show ?thesis by (simp add: find_file_hash_head_def)
  qed
  show "dl_num_files d' = dl_num_files d + (if b_file e \<in> b_file ` set (dl_list d) then 0 else 1)" "dl_hash d' = dl_hash d"
    using assms(2) unfolding seen [symmetric]
    by (auto simp: add_file_hash_head_def insert_file_hash_head_def Let_def split: option.splits bind_splits)
qed

lemma insert_num_files:
  assumes inv: "hash_inv (tree, st)" and ins: "insert_hashed_block (Some a) True True digest file loff (tree, st) = Some (0, s')"
  shows "\<exists>d'. find_block_list (fst s') digest = Some d' \<and> dl_num_files d' = (case find_block_list tree digest of
    None \<Rightarrow> 1 | Some d \<Rightarrow> dl_num_files d + (if file \<in> b_file ` set (dl_list d) then 0 else 1))"
proof -
  let ?e = "\<lparr>b_addr = a, b_parent = digest, b_file = file, b_loff = loff\<rparr>"
  have ti: "tree_inv tree" using inv by (simp add: hash_inv_def)
  obtain tree' d where g: "get_block_list True tree digest = Some (Some tree')" "find_block_list tree' digest = Some d"
      "rb_index dl_hash memcmp (ht_root tree')" "if find_block_list tree digest = None then d = new_block_list digest else tree' = tree"
    using get_block_list_ok [OF ti, of True digest] by (auto split: if_splits)
  obtain tree2 d2 where r: "get_block_list True tree digest = Some (Some tree2)" "dl_hash d2 = digest" "tree_ready tree2 d2"
    using get_block_list_ready [OF ti, of True digest] by auto
  have ok: "heads_ok (dl_files_root d) (dl_list d)" using r g(1,2) by (auto simp: tree_ready_def dups_inv_def)
  have h: "dl_hash d = digest" using r g(1,2) by (auto simp: tree_ready_def)
  obtain d1 where d1: "add_file_hash_head True d ?e = Some (0, d1)" using add_file_hash_head_ok [OF ok, of True ?e] by auto
  note n = head_num_files [OF ok d1]
  obtain t where t: "fst s' = link_block tree' d1 ?e" using ins g(1,2) d1 by (auto simp: insert_hashed_block_def Let_def split: bind_splits)
  define d' where "d' = d1\<lparr>dl_num_elem := dl_num_elem d1 + 1, dl_list := dl_list d1 @ [?e]\<rparr>"
  have f: "rb_search (\<lambda>x. memcmp digest (dl_hash x)) (ht_root tree') = Some d" using g(2) by (simp add: find_block_list_def)
  have "rb_search (\<lambda>x. memcmp digest (dl_hash x)) (rb_adjust (\<lambda>x. memcmp digest (dl_hash x)) (\<lambda>_. d') (ht_root tree')) = Some d'"
    using by_hash.find_adjust [OF g(3), of digest "\<lambda>_. d'" digest] n(2) h f by (simp add: d'_def)
  then have "find_block_list (link_block tree' d1 ?e) digest = Some d'"
    using n(2) h by (simp add: find_block_list_def link_block_def put_block_list_def Let_def d'_def)
  moreover have "dl_num_files d' = (case find_block_list tree digest of
      None \<Rightarrow> 1 | Some d \<Rightarrow> dl_num_files d + (if file \<in> b_file ` set (dl_list d) then 0 else 1))"
    using n(1) g(2,4) by (auto simp: d'_def new_block_list_def split: option.splits)
  ultimately show ?thesis unfolding t by blast
qed

subsection \<open>Removing\<close>

lemma erase_from_filerec_ok:
  assumes inv: "files_inv bs st" and b: "b \<in># bs" and u: "b \<notin># bs - {#b#}"
  shows "\<exists>st'. erase_from_filerec b st = Some st' \<and> files_inv (bs - {#b#}) st'"
proof -
  obtain r where r: "recs st (b_file b) = Some r" using inv b by (auto simp: files_inv_def)
  have idx: "rb_index b_loff word_cmp (block_tree r)"
    and items: "set (rb_inorder (block_tree r)) = {x. x \<in># bs \<and> b_file x = b_file b}"
    using inv r by (auto simp: files_inv_def)
  have f: "rb_search (\<lambda>x. word_cmp (b_loff b) (b_loff x)) (block_tree r) = Some b"
    using by_loff.find_unique [OF idx, of b] items b by simp
  obtain t where t: "rb_del (\<lambda>x. word_cmp (b_loff b) (b_loff x)) (block_tree r) = Some t" "rb_index b_loff word_cmp t"
    using by_loff.delE [OF idx f] by blast
  have s: "set (rb_inorder t) = {y \<in> set (rb_inorder (block_tree r)). b_loff y \<noteq> b_loff b}"
    by (rule by_loff.set_del [OF idx f t(1)])
  have same: "x = b" if "x \<in> set (rb_inorder (block_tree r))" "b_loff x = b_loff b" for x
    using by_loff.find_unique [OF idx that(1)] that(2) f by simp
  have mem: "x \<in># bs - {#b#} \<longleftrightarrow> x \<in># bs \<and> x \<noteq> b" for x
    using u by (cases "x = b") (auto simp: in_diff_count)
  have s': "set (rb_inorder t) = {x. x \<in># bs - {#b#} \<and> b_file x = b_file b}"
    unfolding s mem using items same by auto
  have "files_inv (bs - {#b#}) (st\<lparr>recs := (recs st)(b_file b \<mapsto> r\<lparr>block_tree := t\<rparr>)\<rparr>)"
    using inv t(2) s' r unfolding files_inv_def mem by auto
  with r t(1) show ?thesis by (simp add: erase_from_filerec_def)
qed

lemma dups_inv_remove:
  assumes "dups_inv d" "b \<in> set (dl_list d)" "drop_from_head (d\<lparr>dl_list := remove1 b (dl_list d)\<rparr>) b = Some d1"
  shows "dups_inv (d1\<lparr>dl_num_elem := dl_num_elem d1 - 1\<rparr>)" "dl_list d1 = remove1 b (dl_list d)"
    "dl_hash d1 = dl_hash d" "dl_num_elem d1 = dl_num_elem d"
proof -
  let ?d = "d\<lparr>dl_list := remove1 b (dl_list d)\<rparr>"
  have ok: "heads_ok (dl_files_root ?d) (dl_list d)" "distinct (dl_list d)" using assms(1) by (simp_all add: dups_inv_def)
  obtain d' where d': "drop_from_head ?d b = Some d'" "heads_ok (dl_files_root d') (remove1 b (dl_list d))"
      "dl_hash d' = dl_hash d" "dl_num_elem d' = dl_num_elem d" "dl_list d' = remove1 b (dl_list d)"
    using drop_from_head_ok [OF ok(1) assms(2) ok(2)] by auto
  have "length (dl_list d) = Suc (length (remove1 b (dl_list d)))"
    using assms(2) length_pos_if_in_set [OF assms(2)] by (simp add: length_remove1 del: length_greater_0_conv)
  then show "dups_inv (d1\<lparr>dl_num_elem := dl_num_elem d1 - 1\<rparr>)" "dl_list d1 = remove1 b (dl_list d)"
    "dl_hash d1 = dl_hash d" "dl_num_elem d1 = dl_num_elem d"
    using assms d' set_remove1_subset [of b "dl_list d"] by (auto simp: dups_inv_def)
qed

lemma tree_block_unique:
  assumes "tree_inv tree" "b \<in># tree_blocks tree"
  shows "\<exists>d. find_block_list tree (b_parent b) = Some d \<and> b \<in> set (dl_list d) \<and> dl_hash d = b_parent b \<and>
    count (tree_blocks tree) b = 1"
proof -
  obtain d where d: "d \<in> set (rb_inorder (ht_root tree))" "b \<in> set (dl_list d)"
    using assms(2) by (auto simp: tree_blocks_member)
  then have h: "b_parent b = dl_hash d" "distinct (dl_list d)" using assms(1) by (auto simp: tree_inv_def dups_inv_def)
  have idx: "rb_index dl_hash memcmp (ht_root tree)" using assms(1) by (simp add: tree_inv_def)
  have f: "rb_search (\<lambda>x. memcmp (b_parent b) (dl_hash x)) (ht_root tree) = Some d"
    using by_hash.find_unique [OF idx d(1)] h(1) by simp
  obtain xs ys where s: "rb_inorder (ht_root tree) = xs @ d # ys" "b_parent b \<notin> dl_hash ` set (xs @ ys)"
    using by_hash.items_split [OF idx f] by blast
  have "b \<notin> set (dl_list x)" if "x \<in> set (xs @ ys)" for x
    using that s assms(1) by (auto simp: tree_inv_def dups_inv_def)
  then have "b \<notin># (\<Sum>d \<in># mset (xs @ ys). mset (dl_list d))" by auto
  then have "count (\<Sum>d \<in># mset (xs @ ys). mset (dl_list d)) b = 0" by (simp only: not_in_iff)
  moreover have "count (mset (dl_list d)) b = 1" using h(2) d(2) by (simp add: distinct_count_atmost_1)
  ultimately have "count (tree_blocks tree) b = 1" unfolding root_blocks_split [OF s(1)] by simp
  with f d h show ?thesis by (auto simp: find_block_list_def)
qed

lemma tree_inv_split:
  assumes "tree_inv tree" "find_block_list tree k = Some d"
  obtains xs ys where "rb_inorder (ht_root tree) = xs @ d # ys" "dl_hash d = k"
    "\<forall>x \<in> set (xs @ ys). dl_hash x \<noteq> k \<and> dups_inv x \<and> dl_list x \<noteq> [] \<and>
      (length (dl_list x) > 1 \<longrightarrow> dl_hash x \<in> set (size_list tree))"
    "rb_index dl_hash memcmp (ht_root tree)" "rb_search (\<lambda>x. memcmp k (dl_hash x)) (ht_root tree) = Some d"
    "num_hashes tree = of_nat (Suc (length (xs @ ys)))" "set (size_list tree) \<subseteq> insert k (dl_hash ` set (xs @ ys))"
proof -
  have idx: "rb_index dl_hash memcmp (ht_root tree)" using assms(1) by (simp add: tree_inv_def)
  have f: "rb_search (\<lambda>x. memcmp k (dl_hash x)) (ht_root tree) = Some d"
    using assms(2) by (simp add: find_block_list_def)
  obtain xs ys where s: "rb_inorder (ht_root tree) = xs @ d # ys" "k \<notin> dl_hash ` set (xs @ ys)" "dl_hash d = k"
    using by_hash.items_split [OF idx f] by blast
  have "dl_hash x \<noteq> k" if "x \<in> set (xs @ ys)" for x using that s(2) by blast
  moreover have "set (xs @ ys) \<subseteq> set (rb_inorder (ht_root tree))" using s(1) by auto
  ultimately have "\<forall>x \<in> set (xs @ ys). dl_hash x \<noteq> k \<and> dups_inv x \<and> dl_list x \<noteq> [] \<and>
      (length (dl_list x) > 1 \<longrightarrow> dl_hash x \<in> set (size_list tree))"
    using assms(1) unfolding tree_inv_def by blast
  then show thesis using that [OF s(1,3) _ idx f] assms(1) s(1,3) by (simp add: tree_inv_def)
qed

lemma tree_remove_last:
  assumes ti: "tree_inv tree" and d: "find_block_list tree k = Some d" "dl_list d = [b]"
  shows "\<exists>t. rb_del (\<lambda>x. memcmp k (dl_hash x)) (ht_root tree) = Some t \<and>
    tree_inv (tree\<lparr>ht_root := t, size_list := remove1 k (size_list tree), num_hashes := num_hashes tree - 1,
      num_blocks := num_blocks tree - 1\<rparr>) \<and> root_blocks t = tree_blocks tree - {#b#}"
proof -
  obtain xs ys where s: "rb_inorder (ht_root tree) = xs @ d # ys" "dl_hash d = k"
    "\<forall>x \<in> set (xs @ ys). dl_hash x \<noteq> k \<and> dups_inv x \<and> dl_list x \<noteq> [] \<and>
      (length (dl_list x) > 1 \<longrightarrow> dl_hash x \<in> set (size_list tree))"
    "rb_index dl_hash memcmp (ht_root tree)" "rb_search (\<lambda>x. memcmp k (dl_hash x)) (ht_root tree) = Some d"
    "num_hashes tree = of_nat (Suc (length (xs @ ys)))" "set (size_list tree) \<subseteq> insert k (dl_hash ` set (xs @ ys))"
    using tree_inv_split [OF ti d(1)] by blast
  obtain t where t: "rb_del (\<lambda>x. memcmp k (dl_hash x)) (ht_root tree) = Some t" "rb_index dl_hash memcmp t"
      "mset (rb_inorder t) + {#d#} = mset (rb_inorder (ht_root tree))"
    using by_hash.delE [OF s(4,5)] by blast
  have m: "mset (rb_inorder t) = mset (xs @ ys)" using t(3) s(1) by simp
  have bl: "tree_blocks tree = add_mset b (root_blocks t)"
    using root_blocks_split [OF s(1)] d(2) m by (simp add: root_blocks_def)
  have st: "set (rb_inorder t) = set (xs @ ys)" "length (rb_inorder t) = length (xs @ ys)"
    using mset_eq_setD [OF m] mset_eq_length [OF m] by simp_all
  have sl: "distinct (size_list tree)" "num_blocks tree = of_nat (size (tree_blocks tree))"
      "size (tree_blocks tree) < 2 ^ 64" using ti by (simp_all add: tree_inv_def)
  then have sl': "set (remove1 k (size_list tree)) = set (size_list tree) - {k}" by (simp add: set_remove1_eq)
  have "tree_inv (tree\<lparr>ht_root := t, size_list := remove1 k (size_list tree), num_hashes := num_hashes tree - 1,
      num_blocks := num_blocks tree - 1\<rparr>)"
    unfolding tree_inv_def using t(2) s(3,6,7) st sl bl
    by (simp add: sl' del: One_nat_def) blast
  with t(1) bl show ?thesis by simp
qed

lemma tree_remove_some:
  assumes ti: "tree_inv tree" and d: "find_block_list tree k = Some d" "b \<in> set (dl_list d)"
    and d': "dups_inv d'" "dl_list d' = remove1 b (dl_list d)" "dl_list d' \<noteq> []" "dl_hash d' = k"
  shows "tree_inv ((put_block_list k d' tree)\<lparr>num_blocks := num_blocks tree - 1\<rparr>) \<and>
    tree_blocks (put_block_list k d' tree) = tree_blocks tree - {#b#} \<and>
    find_block_list (put_block_list k d' tree) k = Some d'"
proof -
  let ?t = "put_block_list k d' tree"
  have idx: "rb_index dl_hash memcmp (ht_root tree)" using ti by (simp add: tree_inv_def)
  obtain xs ys where s: "rb_inorder (ht_root tree) = xs @ d # ys" "rb_inorder (ht_root ?t) = xs @ d' # ys"
      "rb_index dl_hash memcmp (ht_root ?t)" "dl_hash d = k"
    using put_block_list_split [OF idx d(1) d'(4)] by blast
  have bl: "tree_blocks tree = add_mset b (tree_blocks ?t)"
    using root_blocks_split [OF s(1)] root_blocks_split [OF s(2)] d'(2) d(2) by simp
  have fields: "size_list ?t = size_list tree" "num_hashes ?t = num_hashes tree" by (simp_all add: put_block_list_def)
  have "length (dl_list d') > 1 \<Longrightarrow> length (dl_list d) > 1"
    using d'(2) d(2) by (auto simp: length_remove1 split: if_splits)
  then have "tree_inv (?t\<lparr>num_blocks := num_blocks tree - 1\<rparr>)"
    using ti d' s bl fields unfolding tree_inv_def by auto
  moreover have "rb_search (\<lambda>x. memcmp k (dl_hash x)) (ht_root ?t) = Some d'"
    using by_hash.find_unique [OF s(3), of d'] s(2) d'(4) by simp
  ultimately show ?thesis using bl by (simp add: find_block_list_def)
qed

lemma remove_hashed_block_ok:
  assumes inv: "hash_inv (tree, st)" and b: "b \<in># tree_blocks tree"
    and d: "find_block_list tree (b_parent b) = Some d"
  shows "\<exists>ret s'. remove_hashed_block b (tree, st) = Some (ret, s') \<and> hash_inv s' \<and>
    tree_blocks (fst s') = tree_blocks tree - {#b#} \<and> ret = (if dl_list d = [b] then 1 else 0) \<and>
    (ret = 0 \<longrightarrow> (\<exists>d'. find_block_list (fst s') (b_parent b) = Some d' \<and> dl_list d' = remove1 b (dl_list d)))"
proof -
  have ti: "tree_inv tree" and fi: "files_inv (tree_blocks tree) st" using inv by (simp_all add: hash_inv_def)
  have u: "b \<in> set (dl_list d)" "dl_hash d = b_parent b" "count (tree_blocks tree) b = 1"
    using tree_block_unique [OF ti b] d by auto
  have "d \<in> set (rb_inorder (ht_root tree))" using tree_inv_split [OF ti d] by force
  then have di: "dups_inv d" and sub: "mset (dl_list d) \<subseteq># tree_blocks tree"
    using ti tree_blocks_list by (auto simp: tree_inv_def)
  then have le: "length (dl_list d) < 2 ^ 64" using size_mset_mono [OF sub] ti by (simp add: tree_inv_def)
  have un: "unat (dl_num_elem d) = length (dl_list d)"
    using di unat_of_nat_u64 [OF le] by (simp add: dups_inv_def)
  then have nz: "dl_num_elem d \<noteq> 0" using u(1) by (auto simp: unat_pos_iff [symmetric])
  have nu: "b \<notin># tree_blocks tree - {#b#}" using u(3) by (simp add: in_diff_count)
  obtain st' where st': "erase_from_filerec b st = Some st'" "files_inv (tree_blocks tree - {#b#}) st'"
    using erase_from_filerec_ok [OF fi b nu] by blast
  have ok: "heads_ok (dl_files_root d) (dl_list d)" "distinct (dl_list d)" using di by (simp_all add: dups_inv_def)
  obtain d1 where d1: "drop_from_head (d\<lparr>dl_list := remove1 b (dl_list d)\<rparr>) b = Some d1"
    using drop_from_head_ok [of "d\<lparr>dl_list := remove1 b (dl_list d)\<rparr>" "dl_list d" b] ok u(1) by auto
  note r = dups_inv_remove [OF di u(1) d1]
  let ?d = "d1\<lparr>dl_num_elem := dl_num_elem d1 - 1\<rparr>"
  have ln: "length (dl_list d) = Suc (length (remove1 b (dl_list d)))"
    using u(1) length_pos_if_in_set [OF u(1)] by (simp add: length_remove1 del: length_greater_0_conv)
  have "unat (dl_num_elem d - 1) = length (remove1 b (dl_list d))" using nz un ln by (simp add: unat_minus_one)
  then have last: "dl_num_elem d - 1 = 0 \<longleftrightarrow> remove1 b (dl_list d) = []"
    by (metis length_0_conv unat_eq_zero)
  have one: "remove1 b (dl_list d) = [] \<longleftrightarrow> dl_list d = [b]"
    using ln u(1) by (cases "dl_list d"; cases "tl (dl_list d)") auto
  show ?thesis
  proof (cases "dl_list d = [b]")
    case True
    with tree_remove_last [OF ti d True] last one st' d d1 nz r(4) show ?thesis
      by (auto simp: remove_hashed_block_def hash_inv_def)
  next
    case False
    have "tree_inv ((put_block_list (b_parent b) ?d tree)\<lparr>num_blocks := num_blocks tree - 1\<rparr>) \<and>
        tree_blocks (put_block_list (b_parent b) ?d tree) = tree_blocks tree - {#b#} \<and>
        find_block_list (put_block_list (b_parent b) ?d tree) (b_parent b) = Some ?d"
      by (rule tree_remove_some [OF ti d u(1) r(1)]) (use r False one u(2) in auto)
    with False last one st' d d1 nz r show ?thesis
      by (auto simp: remove_hashed_block_def hash_inv_def find_block_list_def)
  qed
qed

subsection \<open>Freeing everything\<close>

lemma remove_blocks_ok:
  "hash_inv s \<Longrightarrow> find_block_list (fst s) k = Some d \<Longrightarrow> dl_list d = bs \<Longrightarrow> bs \<noteq> [] \<Longrightarrow>
   \<exists>s'. remove_blocks bs s = Some s' \<and> hash_inv s' \<and> tree_blocks (fst s') = tree_blocks (fst s) - mset bs"
proof (induction bs arbitrary: s d)
  case (Cons b bs)
  obtain tree st where s: "s = (tree, st)" by fastforce
  have ti: "tree_inv tree" using Cons.prems(1) s by (simp add: hash_inv_def)
  have d: "find_block_list tree k = Some d" using Cons.prems(2) s by simp
  have dk: "dl_hash d = k" "d \<in> set (rb_inorder (ht_root tree))" using tree_inv_split [OF ti d] by force+
  then have b: "b \<in># tree_blocks tree" "b_parent b = k"
    using Cons.prems(3) ti mset_subset_eqD [OF tree_blocks_list [OF dk(2)], of b]
    by (auto simp: tree_inv_def dups_inv_def)
  obtain ret s1 where r: "remove_hashed_block b s = Some (ret, s1)" "hash_inv s1"
      "tree_blocks (fst s1) = tree_blocks tree - {#b#}" "ret = (if dl_list d = [b] then 1 else 0)"
      "ret = 0 \<longrightarrow> (\<exists>d'. find_block_list (fst s1) k = Some d' \<and> dl_list d' = remove1 b (dl_list d))"
    using remove_hashed_block_ok [of tree st b d] Cons.prems(1) s b d by auto
  show ?case
  proof (cases "bs = []")
    case True
    with r Cons.prems(3) s show ?thesis by auto
  next
    case False
    with r(4,5) Cons.prems(3) obtain d' where "ret = 0" "find_block_list (fst s1) k = Some d'" "dl_list d' = bs"
      by auto
    with Cons.IH [OF r(2)] False r(1,3) s show ?thesis by auto
  qed
qed simp

lemma free_hash_tree_ok:
  "hash_inv s \<Longrightarrow> \<exists>st'. free_hash_tree s = Some (init_hash_tree, st') \<and> files_inv {#} st'"
proof (induction "size (tree_blocks (fst s))" arbitrary: s rule: less_induct)
  case less
  obtain tree st where s: "s = (tree, st)" by fastforce
  have ti: "tree_inv tree" "files_inv (tree_blocks tree) st" using less.prems s by (simp_all add: hash_inv_def)
  show ?case
  proof (cases "ht_root tree = RB_NULL")
    case True
    then have "tree = init_hash_tree" using ti(1) by (cases tree) (simp add: tree_inv_def init_hash_tree_def root_blocks_def)
    with True ti s show ?thesis
      by (subst free_hash_tree.simps) (simp add: rb_first_def root_blocks_def)
  next
    case False
    let ?d = "cursor_item (leftmost (ht_root tree) [])"
    have d: "?d \<in> set (rb_inorder (ht_root tree))"
      using leftmost_rest [OF False, of "[]"] by (metis append_Nil2 after.simps(1) list.set_intros(1))
    have idx: "rb_index dl_hash memcmp (ht_root tree)" using ti by (simp add: tree_inv_def)
    have f: "find_block_list (fst s) (dl_hash ?d) = Some ?d"
      using by_hash.find_unique [OF idx d] s by (simp add: find_block_list_def)
    have ne: "dl_list ?d \<noteq> []" using ti(1) d by (simp add: tree_inv_def)
    obtain s' where s': "remove_blocks (dl_list ?d) s = Some s'" "hash_inv s'"
        "tree_blocks (fst s') = tree_blocks (fst s) - mset (dl_list ?d)"
      using remove_blocks_ok [OF less.prems f refl ne] by blast
    have "mset (dl_list ?d) \<subseteq># tree_blocks (fst s)" using tree_blocks_list [OF d] s by simp
    then have "size (tree_blocks (fst s')) < size (tree_blocks (fst s))"
      using ne unfolding s'(3) by (simp add: size_Diff_submset) (metis diff_less length_greater_0_conv size_mset size_mset_mono less_le_trans)
    with less.hyps [OF _ s'(2)] s'(1) False s show ?thesis
      by (subst free_hash_tree.simps) (simp add: rb_first_def)
  qed
qed

subsection \<open>Sorting the heads\<close>

lemma sort_head_simps [simp]:
  "h_file (sort_head h) = h_file h"
  "mset (h_blocks (sort_head h)) = mset (h_blocks h)"
  using block_cmp.sort_items_sorts [of "h_blocks h"] by (simp_all add: sort_head_def sorts_def)

lemma sort_dups_simps [simp]:
  "dl_hash (sort_dups d) = dl_hash d" "dl_list (sort_dups d) = dl_list d" "dl_num_elem (sort_dups d) = dl_num_elem d"
  "dl_files_root (sort_dups d) = map_rb_tree sort_head (dl_files_root d)"
  by (simp_all add: sort_dups_def)

lemma heads_ok_sort: "heads_ok t bl \<Longrightarrow> heads_ok (map_rb_tree sort_head t) bl"
  unfolding heads_ok_def
proof (intro conjI allI)
  assume ok: "rb_index h_file (\<lambda>k y. word_cmp y k) t \<and>
     (\<forall>f. case rb_search (\<lambda>head. word_cmp (h_file head) f) t of
        None \<Rightarrow> \<forall>b \<in> set bl. b_file b \<noteq> f
      | Some h \<Rightarrow> h_blocks h \<noteq> [] \<and> mset (h_blocks h) = mset (filter (\<lambda>b. b_file b = f) bl))"
  then show "rb_index h_file (\<lambda>k y. word_cmp y k) (map_rb_tree sort_head t)" by (simp add: rb_index_map)
  fix f
  have "h_blocks (sort_head h) = [] \<longleftrightarrow> h_blocks h = []" for h by (metis mset_zero_iff sort_head_simps(2))
  with ok show "case rb_search (\<lambda>head. word_cmp (h_file head) f) (map_rb_tree sort_head t) of
        None \<Rightarrow> \<forall>b \<in> set bl. b_file b \<noteq> f
      | Some h \<Rightarrow> h_blocks h \<noteq> [] \<and> mset (h_blocks h) = mset (filter (\<lambda>b. b_file b = f) bl)"
    by (auto simp: rb_search_map dest: spec [of _ f] split: option.splits)
qed

lemma sort_file_hash_heads_inv: "tree_inv tree \<Longrightarrow> tree_inv (sort_file_hash_heads tree)"
  by (auto simp: tree_inv_def sort_file_hash_heads_def rb_index_map dups_inv_def heads_ok_sort root_blocks_def
      image_mset.compositionality comp_def image_image)

lemma sort_file_hash_heads_blocks [simp]: "tree_blocks (sort_file_hash_heads tree) = tree_blocks tree"
  by (simp add: sort_file_hash_heads_def root_blocks_def image_mset.compositionality comp_def)

lemma sort_file_hash_heads_sorted:
  assumes "d \<in> set (rb_inorder (ht_root (sort_file_hash_heads tree)))" "h \<in> set (rb_inorder (dl_files_root d))"
  shows "sorted_wrt (\<lambda>a b. b_loff a \<le> b_loff b) (h_blocks h)"
proof -
  obtain h0 where "h = sort_head h0" using assms by (auto simp: sort_file_hash_heads_def)
  then have "sorted_wrt (\<lambda>a b. cmp_blocks a b \<le> 0) (h_blocks h)"
    using block_cmp.sort_items_sorts [of "h_blocks h0"] by (simp add: sort_head_def sorts_def)
  then show ?thesis by (rule sorted_wrt_mono_rel [rotated]) (auto simp: cmp_blocks_def split: if_splits)
qed

section \<open>The properties of the hash tree\<close>

interpretation linked_blocks: list_cmp "\<lambda>a b. cmp_blocks (blk a) (blk b)" for blk :: "addr \<Rightarrow> file_block"
  by unfold_locales (auto simp: cmp_blocks_def split: if_splits)

lemma hash_inv_init: "(\<And>f r. recs st f = Some r \<Longrightarrow> block_tree r = RB_NULL) \<Longrightarrow> hash_inv (init_hash_tree, st)"
  using by_hash.rb_index_NULL by_loff.rb_index_NULL
  by (auto simp: hash_inv_def tree_inv_def files_inv_def init_hash_tree_def root_blocks_def)

lemma example_hash_inv: "hash_inv (init_hash_tree, example_filerecs)"
  by (rule hash_inv_init) (auto simp: example_filerec_def split: if_splits)

lemma example_free:
  "size (tree_blocks init_hash_tree) + 1 < 2 ^ 64" "recs example_filerecs 64 = Some example_filerec"
  "find_filerec_block example_filerec loff = None"
  by (simp_all add: init_hash_tree_def root_blocks_def find_filerec_block_def example_filerec_def)

text \<open>
  C30. \<open>list_sort\<close> with the comparison of blocks, on a well formed list, ends without following a
  NULL pointer and leaves a well formed doubly linked list: the same entries, ordered by offset,
  and entries with the same offset in their old order.
\<close>

theorem list_sort_blocks_correct:
  assumes "ring h head xs" "local \<notin> set (head # xs)" "0 \<notin> set xs"
  shows "\<exists>h' ys. list_sort local (\<lambda>a b. cmp_blocks (blk a) (blk b)) head h = Some h' \<and> ring h' head ys \<and>
    sorts (\<lambda>a b. cmp_blocks (blk a) (blk b)) xs ys"
  using list_sort_ring [OF assms, of "\<lambda>a b. cmp_blocks (blk a) (blk b)"]
    linked_blocks.sort_items_sorts [of blk xs] by blast

theorem list_sort_blocks_correct_witness:
  "let h = list_add_tail 11 1 (list_add_tail 10 1 \<lparr>lnext = id, lprev = id\<rparr>);
       blk = (\<lambda>a. \<lparr>b_addr = a, b_parent = [], b_file = 5, b_loff = (if a = 10 then 4096 else 0)\<rparr>)
   in \<exists>h' ys. list_sort 9 (\<lambda>a b. cmp_blocks (blk a) (blk b)) 1 h = Some h' \<and> ring h' 1 ys"
  using list_sort_blocks_correct [of "list_add_tail 11 1 (list_add_tail 10 1 \<lparr>lnext = id, lprev = id\<rparr>)" 1 "[10, 11]" 9
      "\<lambda>a. \<lparr>b_addr = a, b_parent = [], b_file = 5, b_loff = (if a = 10 then 4096 else 0)\<rparr>"]
  by (auto simp: ring_def Let_def list_add_tail_def list_add_between_def)

text \<open>
  C24. \<open>insert_hashed_block\<close> of a block that its file does not have yet succeeds when memory is
  there, adds exactly that block, and keeps the invariant that ties together the tree of hashes,
  the lists per hash and per file, the trees per file, the list of hashes with duplicates, and the counters of hashes, of
  blocks, and of blocks per hash. The counter of files per hash goes up by one exactly when the
  list of the hash had no block of the file; it is not part of the invariant, as a removal does not lower it.
\<close>

theorem insert_hashed_block_correct:
  assumes "hash_inv (tree, st)" "size (tree_blocks tree) + 1 < 2 ^ 64"
    and "recs st file = Some r" "find_filerec_block r loff = None"
  shows "\<exists>s' d'. insert_hashed_block (Some a) True True digest file loff (tree, st) = Some (0, s') \<and> hash_inv s' \<and>
    tree_blocks (fst s') = add_mset \<lparr>b_addr = a, b_parent = digest, b_file = file, b_loff = loff\<rparr> (tree_blocks tree) \<and>
    find_block_list (fst s') digest = Some d' \<and> dl_num_files d' = (case find_block_list tree digest of
      None \<Rightarrow> 1 | Some d \<Rightarrow> dl_num_files d + (if file \<in> b_file ` set (dl_list d) then 0 else 1))"
proof -
  obtain s' where s': "insert_hashed_block (Some a) True True digest file loff (tree, st) = Some (0, s')" "hash_inv s'"
      "tree_blocks (fst s') = add_mset \<lparr>b_addr = a, b_parent = digest, b_file = file, b_loff = loff\<rparr> (tree_blocks tree)"
    using insert_hashed_block_ok [OF assms, of a digest] by blast
  obtain d' where "find_block_list (fst s') digest = Some d'" "dl_num_files d' = (case find_block_list tree digest of
      None \<Rightarrow> 1 | Some d \<Rightarrow> dl_num_files d + (if file \<in> b_file ` set (dl_list d) then 0 else 1))"
    using insert_num_files [OF assms(1) s'(1)] by blast
  with s' show ?thesis by blast
qed

theorem insert_hashed_block_correct_witness:
  "\<exists>s'. insert_hashed_block (Some 7) True True [1] 64 0 (init_hash_tree, example_filerecs) = Some (0, s') \<and> hash_inv s'"
  using insert_hashed_block_correct [OF example_hash_inv, of 64 example_filerec 0 7 "[1]"] example_free by auto

text \<open>
  C25. \<open>remove_hashed_block\<close> of a block of the tree never aborts, removes exactly that block, keeps
  the invariant, and returns 1 exactly when it was the last block with its hash, whose list is then
  gone.
\<close>

theorem remove_hashed_block_correct:
  assumes "hash_inv (tree, st)" "b \<in># tree_blocks tree" "find_block_list tree (b_parent b) = Some d"
  shows "\<exists>ret s'. remove_hashed_block b (tree, st) = Some (ret, s') \<and> hash_inv s' \<and>
    tree_blocks (fst s') = tree_blocks tree - {#b#} \<and> ret = (if dl_list d = [b] then 1 else 0)"
  using remove_hashed_block_ok [OF assms] by blast

theorem remove_hashed_block_correct_witness:
  "\<exists>tree st b ret s'. b \<in># tree_blocks tree \<and> remove_hashed_block b (tree, st) = Some (ret, s') \<and> hash_inv s'"
proof -
  obtain s where s: "hash_inv s" "tree_blocks (fst s) =
      add_mset \<lparr>b_addr = 7, b_parent = [1], b_file = 64, b_loff = 0\<rparr> (tree_blocks init_hash_tree)"
    using insert_hashed_block_ok [OF example_hash_inv example_free, of 7 "[1]" 0] by blast
  then have inv: "hash_inv (fst s, snd s)" and b: "\<lparr>b_addr = 7, b_parent = [1], b_file = 64, b_loff = 0\<rparr> \<in># tree_blocks (fst s)"
    by simp_all
  then obtain d where d: "find_block_list (fst s) (b_parent \<lparr>b_addr = 7, b_parent = [1], b_file = 64, b_loff = 0\<rparr>) = Some d"
    using tree_block_unique [OF _ b] by (auto simp: hash_inv_def)
  from remove_hashed_block_correct [OF inv b d] b show ?thesis by blast
qed

text \<open>
  \<open>free_hash_tree\<close> ends and leaves the tree as \<open>init_hash_tree\<close> made it, and no block in any
  file.
\<close>

theorem free_hash_tree_correct:
  assumes "hash_inv s"
  shows "\<exists>st'. free_hash_tree s = Some (init_hash_tree, st') \<and> files_inv {#} st'"
  by (rule free_hash_tree_ok [OF assms])

theorem free_hash_tree_correct_witness:
  "\<exists>st'. free_hash_tree (init_hash_tree, no_filerecs) = Some (init_hash_tree, st') \<and> files_inv {#} st'"
  using free_hash_tree_correct [of "(init_hash_tree, no_filerecs)"] hash_inv_init [of no_filerecs]
  by (simp add: no_filerecs_def)

text \<open>
  \<open>sort_file_hash_heads\<close> leaves the blocks of every file under every hash in the order of
  their offsets, which the extent search relies on, and changes nothing else the invariant sees.
\<close>

theorem sort_file_hash_heads_correct:
  assumes "hash_inv (tree, st)"
  shows "hash_inv (sort_file_hash_heads tree, st) \<and>
    tree_blocks (sort_file_hash_heads tree) = tree_blocks tree \<and>
    (\<forall>d \<in> set (rb_inorder (ht_root (sort_file_hash_heads tree))). \<forall>h \<in> set (rb_inorder (dl_files_root d)).
       sorted_wrt (\<lambda>a b. b_loff a \<le> b_loff b) (h_blocks h))"
  using assms sort_file_hash_heads_inv [of tree] sort_file_hash_heads_sorted by (auto simp: hash_inv_def)

theorem sort_file_hash_heads_correct_witness:
  "hash_inv (sort_file_hash_heads init_hash_tree, no_filerecs)"
  using sort_file_hash_heads_correct [of init_hash_tree no_filerecs] hash_inv_init [of no_filerecs]
  by (simp add: no_filerecs_def)

end
