(* ===== verification/ResultsTree.thy ===== *)
theory ResultsTree
  imports RbIndex
begin

text \<open>
  The duplicate groups, \<open>results-tree.c\<close>. A \<open>dupe_extents\<close> is a group of extents with one length
  and one digest; \<open>results_tree\<close> indexes the groups by length and digest. The extents of a group are
  in a tree by file and offset and in a list; the list is kept as the list of their keys, since list
  and tree hold the same objects.

  An allocation that fails is a \<open>False\<close> argument. \<open>find_alloc_dext\<close> takes the tree lock twice, and is
  split at that point.
\<close>

record extent =
  e_file :: fptr
  e_loff :: u64
  e_poff :: u64
  e_plen :: u64
  e_shared_bytes :: u64

type_synonym ext_key = "fptr \<times> u64"
type_synonym group_key = "u64 \<times> digest"

record dupe_extents =
  de_num_dupes :: u32
  de_len :: u64
  de_hash :: digest
  de_score :: u64
  de_extents :: "ext_key list"
  de_extents_root :: "extent rb_tree"

record results_tree =
  rt_root :: "dupe_extents rb_tree"
  num_dupes :: u32
  num_extents :: u64

section \<open>Model\<close>

definition ext_key :: "extent \<Rightarrow> ext_key" where
  "ext_key e = (e_file e, e_loff e)"

definition group_key :: "dupe_extents \<Rightarrow> group_key" where
  "group_key d = (de_len d, de_hash d)"

definition alloc_extent :: "bool \<Rightarrow> fptr \<Rightarrow> u64 \<Rightarrow> extent option" where
  "alloc_extent room file loff =
     (if room then Some \<lparr>e_file = file, e_loff = loff, e_poff = 0, e_plen = 0, e_shared_bytes = 0\<rparr> else None)"

fun extents_rb_cmp :: "ext_key \<Rightarrow> ext_key \<Rightarrow> int" where
  "extents_rb_cmp (file1, loff1) (file2, loff2) =
     (if file1 > file2 then -1 else if file1 < file2 then 1
      else if loff1 > loff2 then -1 else if loff1 < loff2 then 1 else 0)"

definition insert_extent_rb :: "dupe_extents \<Rightarrow> extent \<Rightarrow> (int \<times> dupe_extents) option" where
  "insert_extent_rb dext e =
     (case rb_descend (\<lambda>tmp. extents_rb_cmp (ext_key tmp) (ext_key e)) (de_extents_root dext) [] of
        None \<Rightarrow> Some (1, dext)
      | Some p \<Rightarrow> do {
          t \<leftarrow> rb_insert_color (rb_link_node e p);
          Some (0, dext\<lparr>de_extents_root := t\<rparr>)
        })"

text \<open>The order of the groups: by length, then by digest.\<close>

fun dupe_extents_cmp :: "group_key \<Rightarrow> group_key \<Rightarrow> int" where
  "dupe_extents_cmp (len1, hash1) (len2, hash2) =
     (if len1 < len2 then -1 else if len1 > len2 then 1 else memcmp hash1 hash2)"

definition insert_dupe_extents :: "results_tree \<Rightarrow> dupe_extents \<Rightarrow> results_tree option" where
  "insert_dupe_extents res dext = do {
     t \<leftarrow> rb_add (\<lambda>tmp. dupe_extents_cmp (group_key dext) (group_key tmp)) dext (rt_root res);
     Some (res\<lparr>rt_root := t, num_dupes := num_dupes res + 1\<rparr>)
   }"

definition find_dupe_extents :: "results_tree \<Rightarrow> digest \<Rightarrow> u64 \<Rightarrow> dupe_extents option" where
  "find_dupe_extents res digest len =
     rb_search (\<lambda>dext. dupe_extents_cmp (len, digest) (group_key dext)) (rt_root res)"

definition put_dupe_extents :: "dupe_extents \<Rightarrow> results_tree \<Rightarrow> results_tree" where
  "put_dupe_extents dext res = res\<lparr>rt_root :=
     rb_adjust (\<lambda>x. dupe_extents_cmp (group_key dext) (group_key x)) (\<lambda>_. dext) (rt_root res)\<rparr>"

text \<open>The result tells whether the extent was inserted (\<open>*e\<close> is not NULL afterwards).\<close>

definition insert_extent_list_free :: "dupe_extents \<Rightarrow> extent \<Rightarrow> (bool \<times> dupe_extents) option" where
  "insert_extent_list_free dext e = do {
     (ret, dext) \<leftarrow> insert_extent_rb dext e;
     if ret = 0 then
       Some (True, dext\<lparr>de_num_dupes := de_num_dupes dext + 1, de_extents := de_extents dext @ [ext_key e]\<rparr>)
     else Some (False, dext)
   }"

definition dupe_extents_new :: "bool \<Rightarrow> digest \<Rightarrow> u64 \<Rightarrow> dupe_extents option" where
  "dupe_extents_new room digest len =
     (if room then Some \<lparr>de_num_dupes = 0, de_len = len, de_hash = digest, de_score = len,
        de_extents = [], de_extents_root = RB_NULL\<rparr> else None)"

text \<open>
  The second critical section of \<open>find_alloc_dext\<close>: look again, or insert. A NULL \<open>new\<close> is
  dereferenced by \<open>insert_dupe_extents\<close>. The flag is \<open>*add_score\<close>.
\<close>

definition find_alloc_insert ::
    "dupe_extents option \<Rightarrow> results_tree \<Rightarrow> digest \<Rightarrow> u64 \<Rightarrow> (bool \<times> results_tree) option" where
  "find_alloc_insert new res digest len = (case find_dupe_extents res digest len of
       Some dext \<Rightarrow> Some (True, res)
     | None \<Rightarrow> do {
         dext \<leftarrow> new;
         res \<leftarrow> insert_dupe_extents res dext;
         Some (False, res)
       })"

definition find_alloc_dext :: "bool \<Rightarrow> results_tree \<Rightarrow> digest \<Rightarrow> u64 \<Rightarrow> (bool \<times> results_tree) option" where
  "find_alloc_dext room res digest len = (case find_dupe_extents res digest len of
       Some dext \<Rightarrow> Some (True, res)
     | None \<Rightarrow> find_alloc_insert (dupe_extents_new room digest len) res digest len)"

definition insert_one_result ::
    "bool \<Rightarrow> bool \<Rightarrow> results_tree \<Rightarrow> digest \<Rightarrow> fptr \<Rightarrow> u64 \<Rightarrow> u64 \<Rightarrow> u64 \<Rightarrow> (int \<times> results_tree) option" where
  "insert_one_result eroom droom res digest file startoff len poff = (case alloc_extent eroom file startoff of
       None \<Rightarrow> Some (ENOMEM, res)
     | Some extent \<Rightarrow> do {
         let extent = extent\<lparr>e_poff := poff, e_plen := len, e_shared_bytes := 0\<rparr>;
         (add_score, res) \<leftarrow> find_alloc_dext droom res digest len;
         dext \<leftarrow> find_dupe_extents res digest len;
         abort_on (de_len dext \<noteq> len);
         (ok, dext) \<leftarrow> insert_extent_list_free dext extent;
         let res = put_dupe_extents dext res;
         if \<not> ok then Some (0, res)
         else Some (0, res\<lparr>num_extents := num_extents res + 1\<rparr>)
       })"

definition insert_result ::
    "bool \<Rightarrow> bool \<Rightarrow> bool \<Rightarrow> results_tree \<Rightarrow> digest \<Rightarrow> fptr \<times> fptr \<Rightarrow> u64 \<times> u64 \<Rightarrow> u64 \<times> u64 \<Rightarrow>
     (int \<times> results_tree) option" where
  "insert_result room0 room1 droom res digest files startoff endoff =
     (let len = fst endoff - fst startoff + 1 in
      case (alloc_extent room0 (fst files) (fst startoff), alloc_extent room1 (snd files) (snd startoff)) of
        (Some e0, Some e1) \<Rightarrow> do {
          (add_score, res) \<leftarrow> find_alloc_dext droom res digest len;
          dext \<leftarrow> find_dupe_extents res digest len;
          abort_on (de_len dext \<noteq> len);
          (ok0, dext) \<leftarrow> insert_extent_list_free dext e0;
          (ok1, dext) \<leftarrow> insert_extent_list_free dext e1;
          let dext = (if add_score \<and> ok0 then dext\<lparr>de_score := de_score dext + len\<rparr> else dext);
          let dext = (if add_score \<and> ok1 then dext\<lparr>de_score := de_score dext + len\<rparr> else dext);
          let res = put_dupe_extents dext res;
          let res = (if ok0 then res\<lparr>num_extents := num_extents res + 1\<rparr> else res);
          Some (0, if ok1 then res\<lparr>num_extents := num_extents res + 1\<rparr> else res)
        }
      | _ \<Rightarrow> Some (ENOMEM, res))"

text \<open>
  \<open>remove_extent\<close>: the part from the label \<open>again\<close>, on the group \<open>p\<close> and the counter of extents.
  The result is \<open>result\<close>, the group and the counter.
\<close>

partial_function (option) remove_again ::
    "ext_key \<Rightarrow> dupe_extents \<Rightarrow> u64 \<Rightarrow> (u32 \<times> dupe_extents \<times> u64) option" where
  "remove_again k p num = do {
     let p = p\<lparr>de_score := de_score p - de_len p, de_num_dupes := de_num_dupes p - 1\<rparr>;
     let result = de_num_dupes p;
     t \<leftarrow> rb_del (\<lambda>x. extents_rb_cmp (ext_key x) k) (de_extents_root p);
     let p = p\<lparr>de_extents := remove1 k (de_extents p), de_extents_root := t\<rparr>;
     let num = num - 1;
     if de_num_dupes p = 1 then do {
       n \<leftarrow> rb_first (de_extents_root p);
       remove_again (ext_key (cursor_item n)) p num
     }
     else Some (result, p, num)
   }"

definition remove_extent :: "results_tree \<Rightarrow> group_key \<Rightarrow> ext_key \<Rightarrow> (u32 \<times> results_tree) option" where
  "remove_extent res g k = do {
     p \<leftarrow> find_dupe_extents res (snd g) (fst g);
     (result, p, num) \<leftarrow> remove_again k p (num_extents res);
     let res = (put_dupe_extents p res)\<lparr>num_extents := num\<rparr>;
     if de_num_dupes p = 0 then do {
       t \<leftarrow> rb_del (\<lambda>x. dupe_extents_cmp g (group_key x)) (rt_root res);
       Some (result, res\<lparr>rt_root := t, num_dupes := num_dupes res - 1\<rparr>)
     }
     else Some (result, res)
   }"

definition init_results_tree :: results_tree where
  "init_results_tree = \<lparr>rt_root = RB_NULL, num_dupes = 0, num_extents = 0\<rparr>"

partial_function (option) dupe_extents_free :: "group_key \<Rightarrow> results_tree \<Rightarrow> results_tree option" where
  "dupe_extents_free g res = do {
     dext \<leftarrow> find_dupe_extents res (snd g) (fst g);
     n \<leftarrow> rb_first (de_extents_root dext);
     (count, res) \<leftarrow> remove_extent res g (ext_key (cursor_item n));
     if count > 0 then dupe_extents_free g res else Some res
   }"

partial_function (option) free_results_tree :: "results_tree \<Rightarrow> results_tree option" where
  "free_results_tree res = (case rb_first (rt_root res) of
       None \<Rightarrow> Some res
     | Some n \<Rightarrow> do {
         res \<leftarrow> dupe_extents_free (group_key (cursor_item n)) res;
         free_results_tree res
       })"

section \<open>The indexes\<close>

interpretation exts: rb_order ext_key "\<lambda>k y. extents_rb_cmp y k"
proof
  fix a b c :: ext_key
  obtain fa la fb lb fc lc where "a = (fa, la)" "b = (fb, lb)" "c = (fc, lc)" by (metis surj_pair)
  then show "extents_rb_cmp b a = 0 \<longleftrightarrow> a = b" "extents_rb_cmp b a < 0 \<longleftrightarrow> 0 < extents_rb_cmp a b"
    "extents_rb_cmp b a < 0 \<Longrightarrow> extents_rb_cmp c b < 0 \<Longrightarrow> extents_rb_cmp c a < 0"
    by (auto split: if_splits)
qed

interpretation groups: rb_order group_key dupe_extents_cmp
proof
  fix a b c :: group_key
  obtain la ha lb hb lc hc where abc: "a = (la, ha)" "b = (lb, hb)" "c = (lc, hc)" by (metis surj_pair)
  show "dupe_extents_cmp a b = 0 \<longleftrightarrow> a = b" using abc by auto
  show "dupe_extents_cmp a b < 0 \<longleftrightarrow> 0 < dupe_extents_cmp b a"
    using abc memcmp_swap [of hb ha] by auto
  show "dupe_extents_cmp a b < 0 \<Longrightarrow> dupe_extents_cmp b c < 0 \<Longrightarrow> dupe_extents_cmp a c < 0"
    using abc memcmp_trans [of ha hb hc] by (auto split: if_splits)
qed


section \<open>The invariant\<close>

definition dext_ok :: "dupe_extents \<Rightarrow> bool" where
  "dext_ok d \<longleftrightarrow> rb_index ext_key (\<lambda>k y. extents_rb_cmp y k) (de_extents_root d) \<and> distinct (de_extents d) \<and>
     set (de_extents d) = ext_key ` set (rb_inorder (de_extents_root d)) \<and>
     de_num_dupes d = of_nat (length (de_extents d)) \<and> length (de_extents d) < 2 ^ 32"

definition res_inv :: "results_tree \<Rightarrow> bool" where
  "res_inv res \<longleftrightarrow> rb_index group_key dupe_extents_cmp (rt_root res) \<and>
     (\<forall>d \<in> set (rb_inorder (rt_root res)). dext_ok d \<and> de_extents d \<noteq> []) \<and>
     num_dupes res = of_nat (length (rb_inorder (rt_root res))) \<and>
     num_extents res = of_nat (\<Sum>d\<leftarrow>rb_inorder (rt_root res). length (de_extents d))"

definition res_room :: "results_tree \<Rightarrow> bool" where
  "res_room res \<longleftrightarrow> (\<forall>d \<in> set (rb_inorder (rt_root res)). length (de_extents d) + 2 < 2 ^ 32)"

text \<open>What the tree says, without its representation: which extents are in which group.\<close>

definition res_extents :: "results_tree \<Rightarrow> (group_key \<times> ext_key) set" where
  "res_extents res = {(group_key d, k) | d k. d \<in> set (rb_inorder (rt_root res)) \<and> k \<in> set (de_extents d)}"

lemma res_extents_split:
  "rb_inorder (rt_root res) = xs @ d # ys \<Longrightarrow>
   res_extents res = (\<Union>x \<in> set (xs @ ys). {group_key x} \<times> set (de_extents x)) \<union> {group_key d} \<times> set (de_extents d)"
  by (fastforce simp: res_extents_def)

lemma unat_u32_of_nat: "n < 2 ^ 32 \<Longrightarrow> unat (of_nat n :: u32) = n"
  by (simp add: unsigned_of_nat take_bit_nat_eq_self)

lemma dext_ok_search:
  "dext_ok d \<Longrightarrow> rb_search (\<lambda>x. extents_rb_cmp (ext_key x) k) (de_extents_root d) = None \<longleftrightarrow> k \<notin> set (de_extents d)"
  using exts.find_None [of "de_extents_root d" k] by (auto simp: dext_ok_def)

lemma insert_extent_list_free_ok:
  assumes ok: "dext_ok d" and room: "length (de_extents d) + 1 < 2 ^ 32"
  shows "\<exists>d'. insert_extent_list_free d e = Some (ext_key e \<notin> set (de_extents d), d') \<and> dext_ok d' \<and>
    group_key d' = group_key d \<and>
    de_extents d' = (if ext_key e \<in> set (de_extents d) then de_extents d else de_extents d @ [ext_key e])"
proof -
  let ?s = "rb_search (\<lambda>x. extents_rb_cmp (ext_key x) (ext_key e)) (de_extents_root d)"
  have idx: "rb_index ext_key (\<lambda>k y. extents_rb_cmp y k) (de_extents_root d)" using ok by (simp add: dext_ok_def)
  note dn = exts.descend_None [of "ext_key e" "de_extents_root d" "[]"]
  show ?thesis
  proof (cases "ext_key e \<in> set (de_extents d)")
    case True
    then have "?s \<noteq> None" using dext_ok_search [OF ok] by blast
    then have "rb_descend (\<lambda>x. extents_rb_cmp (ext_key x) (ext_key e)) (de_extents_root d) [] = None" using dn by blast
    with True ok show ?thesis by (simp add: insert_extent_list_free_def insert_extent_rb_def)
  next
    case False
    then have n: "?s = None" using dext_ok_search [OF ok] by blast
    then obtain p where p: "rb_descend (\<lambda>x. extents_rb_cmp (ext_key x) (ext_key e)) (de_extents_root d) [] = Some p"
      using dn by auto
    obtain t where t: "rb_add (\<lambda>y. extents_rb_cmp (ext_key y) (ext_key e)) e (de_extents_root d) = Some t"
        "rb_index ext_key (\<lambda>k y. extents_rb_cmp y k) t"
      using exts.addE [OF idx n] by blast
    have s: "set (rb_inorder t) = insert e (set (rb_inorder (de_extents_root d)))"
      by (rule exts.set_add [OF idx n t(1)])
    have "rb_insert_color (rb_link_node e p) = Some t" using t(1) p by (simp add: rb_add_def)
    with False ok t(2) s p room show ?thesis
      by (auto simp: insert_extent_list_free_def insert_extent_rb_def dext_ok_def group_key_def)
  qed
qed

lemma put_dupe_extents_split:
  assumes idx: "rb_index group_key dupe_extents_cmp (rt_root res)"
    and d: "find_dupe_extents res (de_hash d) (de_len d) = Some d" and d': "group_key d' = group_key d"
  shows "rb_index group_key dupe_extents_cmp (rt_root (put_dupe_extents d' res)) \<and>
    (\<exists>xs ys. rb_inorder (rt_root res) = xs @ d # ys \<and> group_key d \<notin> group_key ` set (xs @ ys) \<and>
      rb_inorder (rt_root (put_dupe_extents d' res)) = xs @ d' # ys)"
proof -
  have f: "rb_search (\<lambda>x. dupe_extents_cmp (group_key d) (group_key x)) (rt_root res) = Some d"
    using d by (simp add: find_dupe_extents_def group_key_def)
  have "rb_index group_key dupe_extents_cmp (rb_adjust (\<lambda>x. dupe_extents_cmp (group_key d) (group_key x)) (\<lambda>_. d') (rt_root res))"
    using groups.adjust_items [OF idx, of "group_key d" "\<lambda>_. d'"] d' by simp
  moreover have "\<exists>xs ys. rb_inorder (rt_root res) = xs @ d # ys \<and>
      rb_inorder (rb_adjust (\<lambda>x. dupe_extents_cmp (group_key d) (group_key x)) (\<lambda>_. d') (rt_root res)) = xs @ d' # ys \<and>
      group_key d \<notin> group_key ` set (xs @ ys)"
    using groups.adjust_split [OF idx f, of "\<lambda>_. d'"] d' by auto
  ultimately show ?thesis using d' by (auto simp: put_dupe_extents_def)
qed

text \<open>The tree once the group is there, possibly still empty.\<close>

definition res_ready :: "results_tree \<Rightarrow> dupe_extents \<Rightarrow> bool" where
  "res_ready res d \<longleftrightarrow> rb_index group_key dupe_extents_cmp (rt_root res) \<and>
     find_dupe_extents res (de_hash d) (de_len d) = Some d \<and> dext_ok d \<and>
     (\<forall>x \<in> set (rb_inorder (rt_root res)). x \<noteq> d \<longrightarrow> dext_ok x \<and> de_extents x \<noteq> []) \<and>
     num_dupes res = of_nat (length (rb_inorder (rt_root res))) \<and>
     num_extents res = of_nat (\<Sum>d\<leftarrow>rb_inorder (rt_root res). length (de_extents d))"

lemma find_alloc_dext_ready:
  assumes inv: "res_inv res"
  shows "\<exists>b res' d. find_alloc_dext True res digest len = Some (b, res') \<and> group_key d = (len, digest) \<and>
    res_ready res' d \<and> res_extents res' = res_extents res \<and> (res_room res \<longrightarrow> length (de_extents d) + 2 < 2 ^ 32)"
proof (cases "find_dupe_extents res digest len")
  case (Some d)
  have idx: "rb_index group_key dupe_extents_cmp (rt_root res)" using inv by (simp add: res_inv_def)
  have d: "d \<in> set (rb_inorder (rt_root res))" "group_key d = (len, digest)"
    using groups.find_SomeD [OF _ idx, of "(len, digest)" d] Some by (simp_all add: find_dupe_extents_def)
  then have "res_ready res d" using inv Some by (auto simp: res_ready_def res_inv_def group_key_def)
  with Some d show ?thesis by (auto simp: find_alloc_dext_def res_room_def)
next
  case None
  let ?d = "\<lparr>de_num_dupes = 0, de_len = len, de_hash = digest, de_score = len, de_extents = [], de_extents_root = RB_NULL\<rparr>"
  have idx: "rb_index group_key dupe_extents_cmp (rt_root res)" using inv by (simp add: res_inv_def)
  have n: "rb_search (\<lambda>x. dupe_extents_cmp (group_key ?d) (group_key x)) (rt_root res) = None"
    using None by (simp add: find_dupe_extents_def group_key_def)
  obtain t where t: "rb_add (\<lambda>x. dupe_extents_cmp (group_key ?d) (group_key x)) ?d (rt_root res) = Some t"
      "rb_index group_key dupe_extents_cmp t" "mset (rb_inorder t) = add_mset ?d (mset (rb_inorder (rt_root res)))"
    using groups.addE [OF idx n] by blast
  let ?r = "res\<lparr>rt_root := t, num_dupes := num_dupes res + 1\<rparr>"
  have f: "find_dupe_extents ?r digest len = Some ?d"
    using groups.find_add [OF idx n t(1), of "(len, digest)"] by (simp add: find_dupe_extents_def group_key_def)
  have st: "set (rb_inorder t) = insert ?d (set (rb_inorder (rt_root res)))"
    using arg_cong [OF t(3), of set_mset] by simp
  have "length (rb_inorder t) = Suc (length (rb_inorder (rt_root res)))" using arg_cong [OF t(3), of size] by simp
  moreover have "(\<Sum>d\<leftarrow>rb_inorder t. length (de_extents d)) = (\<Sum>d\<leftarrow>rb_inorder (rt_root res). length (de_extents d))"
    using arg_cong [OF t(3), of "\<lambda>M. \<Sum>d\<in>#M. length (de_extents d)"]
    by (simp flip: sum_mset_sum_list add: mset_map)
  moreover have "dext_ok ?d" using exts.rb_index_NULL by (simp add: dext_ok_def)
  ultimately have "res_ready ?r ?d"
    using inv t(2) f st unfolding res_ready_def res_inv_def by (simp add: group_key_def)
  moreover have "res_extents ?r = res_extents res" unfolding res_extents_def by (auto simp: st)
  moreover have "insert_dupe_extents res ?d = Some ?r" unfolding insert_dupe_extents_def t(1) by simp
  then have "find_alloc_dext True res digest len = Some (False, ?r)"
    using None by (simp add: find_alloc_dext_def find_alloc_insert_def dupe_extents_new_def)
  moreover have "group_key ?d = (len, digest)" "length (de_extents ?d) + 2 < 2 ^ 32" by (simp_all add: group_key_def)
  ultimately show ?thesis by blast
qed

lemma put_dupe_extents_ok:
  assumes ready: "res_ready res d" and d': "dext_ok d'" "group_key d' = group_key d" "de_extents d' \<noteq> []"
    and more: "length (de_extents d') = length (de_extents d) + n" "set (de_extents d) \<subseteq> set (de_extents d')"
  shows "res_inv ((put_dupe_extents d' res)\<lparr>num_extents := num_extents res + of_nat n\<rparr>) \<and>
    res_extents (put_dupe_extents d' res) = res_extents res \<union> {group_key d} \<times> set (de_extents d')"
proof -
  note r = ready [unfolded res_ready_def]
  have idx: "rb_index group_key dupe_extents_cmp (rt_root res)" and f: "find_dupe_extents res (de_hash d) (de_len d) = Some d"
    using r by auto
  obtain xs ys where s: "rb_inorder (rt_root res) = xs @ d # ys" "group_key d \<notin> group_key ` set (xs @ ys)"
      "rb_inorder (rt_root (put_dupe_extents d' res)) = xs @ d' # ys"
      "rb_index group_key dupe_extents_cmp (rt_root (put_dupe_extents d' res))"
    using put_dupe_extents_split [OF idx f d'(2)] by blast
  have rest: "\<forall>x \<in> set (xs @ ys). dext_ok x \<and> de_extents x \<noteq> []" using r s(1,2) by auto
  have nd: "num_dupes (put_dupe_extents d' res) = num_dupes res" by (simp add: put_dupe_extents_def)
  have "res_inv ((put_dupe_extents d' res)\<lparr>num_extents := num_extents res + of_nat n\<rparr>)"
    using r s rest d' nd more(1) by (auto simp: res_inv_def)
  moreover have "res_extents (put_dupe_extents d' res) = res_extents res \<union> {group_key d} \<times> set (de_extents d')"
    unfolding res_extents_split [OF s(1)] res_extents_split [OF s(3)] using d'(2) more(2) by auto
  ultimately show ?thesis by simp
qed

lemma res_extents_counter [simp]: "res_extents (res\<lparr>num_extents := n\<rparr>) = res_extents res"
  by (simp add: res_extents_def)

lemma insert_one_result_ok:
  assumes inv: "res_inv res" and room: "res_room res"
  shows "\<exists>res'. insert_one_result True True res digest file startoff len poff = Some (0, res') \<and> res_inv res' \<and>
    res_extents res' = insert ((len, digest), (file, startoff)) (res_extents res)"
proof -
  let ?e = "\<lparr>e_file = file, e_loff = startoff, e_poff = poff, e_plen = len, e_shared_bytes = 0\<rparr>"
  obtain b res1 d where f: "find_alloc_dext True res digest len = Some (b, res1)" "group_key d = (len, digest)"
      "res_ready res1 d" "res_extents res1 = res_extents res" "length (de_extents d) + 2 < 2 ^ 32"
    using find_alloc_dext_ready [OF inv] room by blast
  have k: "de_len d = len" "de_hash d = digest" using f(2) by (simp_all add: group_key_def)
  have fd: "find_dupe_extents res1 digest len = Some d" and dk: "dext_ok d" using f(3) k by (simp_all add: res_ready_def)
  have ke: "ext_key ?e = (file, startoff)" by (simp add: ext_key_def)
  obtain d' where d': "insert_extent_list_free d ?e = Some ((file, startoff) \<notin> set (de_extents d), d')" "dext_ok d'"
      "group_key d' = group_key d" "de_extents d' = (if (file, startoff) \<in> set (de_extents d) then de_extents d
        else de_extents d @ [(file, startoff)])"
    using insert_extent_list_free_ok [OF dk, of ?e] f(5) unfolding ke by auto
  have ne: "de_extents d' \<noteq> []" using d'(4) by (auto split: if_splits)
  let ?n = "if (file, startoff) \<in> set (de_extents d) then 0 else 1"
  have put: "res_inv ((put_dupe_extents d' res1)\<lparr>num_extents := num_extents res1 + of_nat ?n\<rparr>) \<and>
      res_extents (put_dupe_extents d' res1) = res_extents res1 \<union> {group_key d} \<times> set (de_extents d')"
    by (rule put_dupe_extents_ok [OF f(3) d'(2,3) ne]) (auto simp: d'(4))
  have nx: "num_extents (put_dupe_extents d' res1) = num_extents res1" by (simp add: put_dupe_extents_def)
  have sub: "{group_key d} \<times> set (de_extents d) \<subseteq> res_extents res1"
  proof -
    have "d \<in> set (rb_inorder (rt_root res1))"
      using groups.find_SomeD [of "(len, digest)" "rt_root res1" d] f(3) fd by (simp add: find_dupe_extents_def res_ready_def)
    then show ?thesis by (auto simp: res_extents_def)
  qed
  have ex: "res_extents (put_dupe_extents d' res1) = insert ((len, digest), (file, startoff)) (res_extents res)"
    using put sub f(2,4) d'(4) by (auto split: if_splits)
  have res0: "(put_dupe_extents d' res1)\<lparr>num_extents := num_extents res1\<rparr> = put_dupe_extents d' res1"
    by (simp flip: nx)
  show ?thesis
  proof (cases "(file, startoff) \<in> set (de_extents d)")
    case True
    with put nx have "res_inv (put_dupe_extents d' res1)" using res0 by simp
    with True f(1) fd k d'(1) ex show ?thesis by (simp add: insert_one_result_def alloc_extent_def)
  next
    case False
    with put nx f(1) fd k d'(1) ex show ?thesis by (simp add: insert_one_result_def alloc_extent_def)
  qed
qed

lemma dext_ok_score [simp]:
  "dext_ok (d\<lparr>de_score := n\<rparr>) = dext_ok d" "group_key (d\<lparr>de_score := n\<rparr>) = group_key d"
  by (simp_all add: dext_ok_def group_key_def)

lemma res_ready_member:
  "res_ready res d \<Longrightarrow> {group_key d} \<times> set (de_extents d) \<subseteq> res_extents res"
  using groups.find_SomeD [of "group_key d" "rt_root res" d]
  by (auto simp: res_ready_def find_dupe_extents_def group_key_def res_extents_def)

lemma count_two:
  fixes r :: results_tree
  assumes "r0 = (if p then r else r\<lparr>num_extents := num_extents r + 1\<rparr>)"
  shows "(if q then r0 else r0\<lparr>num_extents := num_extents r0 + 1\<rparr>) =
    r\<lparr>num_extents := num_extents r + of_nat ((if p then 0 else 1) + (if q then 0 else 1))\<rparr>"
  unfolding assms by (cases r) simp

lemma insert_result_ok:
  assumes inv: "res_inv res" and room: "res_room res" and len: "len = eoff - soff + 1"
  shows "\<exists>res'. insert_result True True True res digest (f0, f1) (soff, soff1) (eoff, eoff1) = Some (0, res') \<and> res_inv res' \<and>
    res_extents res' = res_extents res \<union> {(len, digest)} \<times> {(f0, soff), (f1, soff1)}"
proof -
  let ?k0 = "(f0, soff)" and ?k1 = "(f1, soff1)"
  let ?e0 = "\<lparr>e_file = f0, e_loff = soff, e_poff = 0, e_plen = 0, e_shared_bytes = 0\<rparr>"
  let ?e1 = "\<lparr>e_file = f1, e_loff = soff1, e_poff = 0, e_plen = 0, e_shared_bytes = 0\<rparr>"
  obtain b res1 d where f: "find_alloc_dext True res digest len = Some (b, res1)" "group_key d = (len, digest)"
      "res_ready res1 d" "res_extents res1 = res_extents res" "length (de_extents d) + 2 < 2 ^ 32"
    using find_alloc_dext_ready [OF inv] room by blast
  have k: "de_len d = len" "de_hash d = digest" using f(2) by (simp_all add: group_key_def)
  have fd: "find_dupe_extents res1 digest len = Some d" and dk: "dext_ok d" using f(3) k by (simp_all add: res_ready_def)
  have ke: "ext_key ?e0 = ?k0" "ext_key ?e1 = ?k1" by (simp_all add: ext_key_def)
  obtain d0 where d0: "insert_extent_list_free d ?e0 = Some (?k0 \<notin> set (de_extents d), d0)" "dext_ok d0"
      "group_key d0 = group_key d" "de_extents d0 = (if ?k0 \<in> set (de_extents d) then de_extents d else de_extents d @ [?k0])"
    using insert_extent_list_free_ok [OF dk, of ?e0] f(5) unfolding ke by auto
  have "length (de_extents d0) + 1 < 2 ^ 32" using d0(4) f(5) by (simp split: if_splits)
  then obtain d1 where d1: "insert_extent_list_free d0 ?e1 = Some (?k1 \<notin> set (de_extents d0), d1)" "dext_ok d1"
      "group_key d1 = group_key d" "de_extents d1 = (if ?k1 \<in> set (de_extents d0) then de_extents d0 else de_extents d0 @ [?k1])"
    using insert_extent_list_free_ok [OF d0(2), of ?e1] d0(3) unfolding ke by auto
  let ?d2 = "if b \<and> ?k0 \<notin> set (de_extents d) then d1\<lparr>de_score := de_score d1 + len\<rparr> else d1"
  let ?d3 = "if b \<and> ?k1 \<notin> set (de_extents d0) then ?d2\<lparr>de_score := de_score ?d2 + len\<rparr> else ?d2"
  have d3: "dext_ok ?d3" "group_key ?d3 = group_key d" "de_extents ?d3 = de_extents d1" using d1 by simp_all
  let ?n = "(if ?k0 \<in> set (de_extents d) then 0 else 1) + (if ?k1 \<in> set (de_extents d0) then 0 else 1) :: nat"
  have len3: "length (de_extents ?d3) = length (de_extents d) + ?n" "set (de_extents ?d3) = set (de_extents d) \<union> {?k0, ?k1}"
    unfolding d3(3) using d0(4) d1(4) by auto
  then have ne: "de_extents ?d3 \<noteq> []" by (metis Un_empty empty_set insert_not_empty)
  have put: "res_inv ((put_dupe_extents ?d3 res1)\<lparr>num_extents := num_extents res1 + of_nat ?n\<rparr>) \<and>
      res_extents (put_dupe_extents ?d3 res1) = res_extents res1 \<union> {group_key d} \<times> set (de_extents ?d3)"
    by (rule put_dupe_extents_ok [OF f(3) d3(1,2) ne len3(1)]) (use len3(2) in blast)
  have ex: "res_extents (put_dupe_extents ?d3 res1) = res_extents res \<union> {(len, digest)} \<times> {?k0, ?k1}"
    using put len3(2) res_ready_member [OF f(3)] f(2,4) by auto
  define r where "r = put_dupe_extents ?d3 res1"
  define r0 where "r0 = (if ?k0 \<in> set (de_extents d) then r else r\<lparr>num_extents := num_extents r + 1\<rparr>)"
  define r1 where "r1 = (if ?k1 \<in> set (de_extents d0) then r0 else r0\<lparr>num_extents := num_extents r0 + 1\<rparr>)"
  have nx: "num_extents r = num_extents res1" by (simp add: r_def put_dupe_extents_def)
  have "r1 = r\<lparr>num_extents := num_extents res1 + of_nat ?n\<rparr>"
    unfolding r1_def count_two [OF r0_def] nx ..
  then have "res_inv r1" "res_extents r1 = res_extents r" using put unfolding r_def by simp_all
  moreover have "insert_result True True True res digest (f0, f1) (soff, soff1) (eoff, eoff1) = Some (0, r1)"
    using f(1) fd k d0(1) d1(1) len
    by (simp add: insert_result_def alloc_extent_def Let_def r1_def r0_def r_def)
  ultimately show ?thesis using ex unfolding r_def by auto
qed

subsection \<open>Removing\<close>

definition remove_one :: "ext_key \<Rightarrow> dupe_extents \<Rightarrow> extent rb_tree \<Rightarrow> dupe_extents" where
  "remove_one k p t = p\<lparr>de_score := de_score p - de_len p, de_num_dupes := de_num_dupes p - 1,
     de_extents := remove1 k (de_extents p), de_extents_root := t\<rparr>"

lemma length_remove1_Suc: "k \<in> set xs \<Longrightarrow> length xs = Suc (length (remove1 k xs))"
  using length_pos_if_in_set [of k xs] by (simp add: length_remove1 del: length_greater_0_conv)

lemma remove_one_ok:
  assumes ok: "dext_ok p" and k: "k \<in> set (de_extents p)"
  shows "\<exists>t. rb_del (\<lambda>x. extents_rb_cmp (ext_key x) k) (de_extents_root p) = Some t \<and> dext_ok (remove_one k p t) \<and>
    group_key (remove_one k p t) = group_key p"
proof -
  have idx: "rb_index ext_key (\<lambda>k y. extents_rb_cmp y k) (de_extents_root p)" using ok by (simp add: dext_ok_def)
  obtain e where e: "rb_search (\<lambda>x. extents_rb_cmp (ext_key x) k) (de_extents_root p) = Some e"
    using dext_ok_search [OF ok, of k] k by auto
  obtain t where t: "rb_del (\<lambda>x. extents_rb_cmp (ext_key x) k) (de_extents_root p) = Some t"
      "rb_index ext_key (\<lambda>k y. extents_rb_cmp y k) t"
    using exts.delE [OF idx e] by blast
  have s: "set (rb_inorder t) = {y \<in> set (rb_inorder (de_extents_root p)). ext_key y \<noteq> k}"
    by (rule exts.set_del [OF idx e t(1)])
  have d: "distinct (de_extents p)" "set (de_extents p) = ext_key ` set (rb_inorder (de_extents_root p))"
      "de_num_dupes p = of_nat (length (de_extents p))" "length (de_extents p) < 2 ^ 32"
    using ok by (simp_all add: dext_ok_def)
  have "set (remove1 k (de_extents p)) = ext_key ` set (rb_inorder t)"
    unfolding set_remove1_eq [OF d(1)] d(2) s by auto
  moreover have "de_num_dupes p - 1 = of_nat (length (remove1 k (de_extents p)))"
    using d(3) length_remove1_Suc [OF k] by simp
  ultimately have "dext_ok (remove_one k p t)"
    using t(2) d(1,4) length_remove1_Suc [OF k] by (simp add: dext_ok_def remove_one_def)
  with t(1) show ?thesis by (simp add: group_key_def remove_one_def)
qed

lemma remove_again_step:
  assumes "rb_del (\<lambda>x. extents_rb_cmp (ext_key x) k) (de_extents_root p) = Some t"
  shows "remove_again k p num =
    (if de_num_dupes (remove_one k p t) = 1 then
       Option.bind (rb_first t) (\<lambda>n. remove_again (ext_key (cursor_item n)) (remove_one k p t) (num - 1))
     else Some (de_num_dupes (remove_one k p t), remove_one k p t, num - 1))"
  using assms by (subst remove_again.simps) (simp add: remove_one_def Let_def)

lemma dext_ok_one:
  assumes "dext_ok d"
  shows "de_num_dupes d = 1 \<longleftrightarrow> length (de_extents d) = 1" "de_num_dupes d = 0 \<longleftrightarrow> de_extents d = []"
proof -
  have "unat (de_num_dupes d) = length (de_extents d)" using assms unat_u32_of_nat by (simp add: dext_ok_def)
  moreover have "de_num_dupes d = 1 \<longleftrightarrow> unat (de_num_dupes d) = 1" "de_num_dupes d = 0 \<longleftrightarrow> unat (de_num_dupes d) = 0"
    by (metis unat_1 word_unat_eq_iff, metis unat_0 word_unat_eq_iff)
  ultimately show "de_num_dupes d = 1 \<longleftrightarrow> length (de_extents d) = 1" "de_num_dupes d = 0 \<longleftrightarrow> de_extents d = []" by auto
qed

lemma first_extent:
  assumes "dext_ok d" "de_extents d \<noteq> []"
  shows "\<exists>n. rb_first (de_extents_root d) = Some n \<and> ext_key (cursor_item n) \<in> set (de_extents d)"
proof -
  have ne: "de_extents_root d \<noteq> RB_NULL" using assms by (auto simp: dext_ok_def)
  then have "cursor_item (leftmost (de_extents_root d) []) \<in> set (rb_inorder (de_extents_root d))"
    using leftmost_rest [OF ne, of "[]"] by (metis append_Nil2 after.simps(1) list.set_intros(1))
  with assms ne show ?thesis by (auto simp: dext_ok_def rb_first_def)
qed

lemma remove_again_ok:
  assumes ok: "dext_ok p" and k: "k \<in> set (de_extents p)"
  shows "\<exists>p'. remove_again k p num = Some (de_num_dupes p', p', num - of_nat (length (de_extents p) - length (de_extents p'))) \<and>
    dext_ok p' \<and> group_key p' = group_key p \<and>
    de_extents p' = (if length (de_extents p) = 2 then [] else remove1 k (de_extents p))"
proof -
  obtain t where t: "rb_del (\<lambda>x. extents_rb_cmp (ext_key x) k) (de_extents_root p) = Some t"
      "dext_ok (remove_one k p t)" "group_key (remove_one k p t) = group_key p"
    using remove_one_ok [OF ok k] by blast
  let ?p = "remove_one k p t"
  have de: "de_extents ?p = remove1 k (de_extents p)" "de_extents_root ?p = t" by (simp_all add: remove_one_def)
  have ln: "length (de_extents p) = Suc (length (de_extents ?p))" using length_remove1_Suc [OF k] de by simp
  show ?thesis
  proof (cases "length (de_extents p) = 2")
    case False
    then have "de_num_dupes ?p \<noteq> 1" using ln dext_ok_one(1) [OF t(2)] by simp
    then have "remove_again k p num = Some (de_num_dupes ?p, ?p, num - 1)" using remove_again_step [OF t(1)] by simp
    with False t ln de show ?thesis by auto
  next
    case True
    then have one: "length (de_extents ?p) = 1" using ln by simp
    then have "de_extents ?p \<noteq> []" by auto
    then obtain n where n: "rb_first t = Some n" "ext_key (cursor_item n) \<in> set (de_extents ?p)"
      using first_extent [OF t(2)] de(2) by auto
    let ?k = "ext_key (cursor_item n)"
    obtain u where u: "rb_del (\<lambda>x. extents_rb_cmp (ext_key x) ?k) (de_extents_root ?p) = Some u"
        "dext_ok (remove_one ?k ?p u)" "group_key (remove_one ?k ?p u) = group_key ?p"
      using remove_one_ok [OF t(2) n(2)] by blast
    let ?q = "remove_one ?k ?p u"
    have e: "de_extents ?q = []" using one length_remove1_Suc [OF n(2)] by (simp add: remove_one_def)
    have "de_num_dupes ?q \<noteq> 1" using dext_ok_one(1) [OF u(2)] e by simp
    then have "remove_again ?k ?p (num - 1) = Some (de_num_dupes ?q, ?q, num - 1 - 1)"
      using remove_again_step [OF u(1)] by simp
    then have "remove_again k p num = Some (de_num_dupes ?q, ?q, num - of_nat 2)"
      using remove_again_step [OF t(1), of num] n(1) one dext_ok_one(1) [OF t(2)] by simp
    with True u(2,3) t(3) e show ?thesis by auto
  qed
qed

lemma res_inv_group:
  assumes "res_inv res" "(g, k) \<in> res_extents res"
  shows "\<exists>d. find_dupe_extents res (snd g) (fst g) = Some d \<and> group_key d = g \<and> k \<in> set (de_extents d) \<and> dext_ok d"
proof -
  obtain d where d: "d \<in> set (rb_inorder (rt_root res))" "group_key d = g" "k \<in> set (de_extents d)"
    using assms(2) by (auto simp: res_extents_def)
  have "rb_search (\<lambda>x. dupe_extents_cmp (group_key d) (group_key x)) (rt_root res) = Some d"
    using groups.find_unique [OF _ d(1)] assms(1) by (simp add: res_inv_def)
  then show ?thesis using d assms(1) by (auto simp: find_dupe_extents_def res_inv_def)
qed

text \<open>Putting back a group that lost extents, and unlinking it when none is left.\<close>

lemma shrink_group_ok:
  assumes inv: "res_inv res" and d: "find_dupe_extents res (snd g) (fst g) = Some d" "group_key d = g"
    and p: "dext_ok p" "group_key p = g" "set (de_extents p) \<subseteq> set (de_extents d)"
      "length (de_extents p) \<le> length (de_extents d)"
  defines "res1 \<equiv> (put_dupe_extents p res)\<lparr>num_extents :=
    num_extents res - of_nat (length (de_extents d) - length (de_extents p))\<rparr>"
  shows "de_extents p \<noteq> [] \<Longrightarrow> res_inv res1 \<and>
      res_extents res1 = res_extents res - {g} \<times> (set (de_extents d) - set (de_extents p))"
    and "de_extents p = [] \<Longrightarrow> \<exists>t. rb_del (\<lambda>x. dupe_extents_cmp g (group_key x)) (rt_root res1) = Some t \<and>
      res_inv (res1\<lparr>rt_root := t, num_dupes := num_dupes res1 - 1\<rparr>) \<and>
      res_extents (res1\<lparr>rt_root := t, num_dupes := num_dupes res1 - 1\<rparr>) = res_extents res - {g} \<times> set (de_extents d)"
proof -
  have idx: "rb_index group_key dupe_extents_cmp (rt_root res)" using inv by (simp add: res_inv_def)
  have gd: "de_hash d = snd g" "de_len d = fst g" using d(2) by (auto simp: group_key_def)
  obtain xs ys where s: "rb_inorder (rt_root res) = xs @ d # ys" "g \<notin> group_key ` set (xs @ ys)"
      "rb_inorder (rt_root res1) = xs @ p # ys" "rb_index group_key dupe_extents_cmp (rt_root res1)"
    using put_dupe_extents_split [OF idx, of d p] d p(2) gd by (auto simp: res1_def)
  have rest: "\<forall>x \<in> set (xs @ ys). dext_ok x \<and> de_extents x \<noteq> []" using inv s(1) by (auto simp: res_inv_def)
  have nd: "num_dupes res1 = of_nat (length (xs @ p # ys))"
    using inv s(1) by (simp add: res1_def put_dupe_extents_def res_inv_def)
  have ne: "num_extents res1 = of_nat (\<Sum>x\<leftarrow>xs @ p # ys. length (de_extents x))"
  proof -
    have "num_extents res1 = of_nat (\<Sum>x\<leftarrow>xs @ d # ys. length (de_extents x)) -
        of_nat (length (de_extents d) - length (de_extents p))"
      using inv s(1) by (simp add: res1_def res_inv_def)
    then show ?thesis using p(4) by (simp add: of_nat_diff)
  qed
  have ex: "res_extents res = (\<Union>x \<in> set (xs @ ys). {group_key x} \<times> set (de_extents x)) \<union> {g} \<times> set (de_extents d)"
    using res_extents_split [OF s(1)] d(2) by simp
  have out: "(g, k) \<notin> (\<Union>x \<in> set (xs @ ys). {group_key x} \<times> set (de_extents x))" for k using s(2) by auto
  show "res_inv res1 \<and> res_extents res1 = res_extents res - {g} \<times> (set (de_extents d) - set (de_extents p))"
    if "de_extents p \<noteq> []"
  proof
    show "res_inv res1" using s rest nd ne p(1) that by (auto simp: res_inv_def)
    show "res_extents res1 = res_extents res - {g} \<times> (set (de_extents d) - set (de_extents p))"
      unfolding ex res_extents_split [OF s(3)] using p(2,3) out by blast
  qed
  show "\<exists>t. rb_del (\<lambda>x. dupe_extents_cmp g (group_key x)) (rt_root res1) = Some t \<and>
      res_inv (res1\<lparr>rt_root := t, num_dupes := num_dupes res1 - 1\<rparr>) \<and>
      res_extents (res1\<lparr>rt_root := t, num_dupes := num_dupes res1 - 1\<rparr>) = res_extents res - {g} \<times> set (de_extents d)"
    if e: "de_extents p = []"
  proof -
    have f: "rb_search (\<lambda>x. dupe_extents_cmp g (group_key x)) (rt_root res1) = Some p"
      using groups.find_unique [OF s(4), of p] s(3) p(2) by simp
    obtain t where t: "rb_del (\<lambda>x. dupe_extents_cmp g (group_key x)) (rt_root res1) = Some t"
        "rb_index group_key dupe_extents_cmp t" "mset (rb_inorder t) + {#p#} = mset (rb_inorder (rt_root res1))"
      using groups.delE [OF s(4) f] by blast
    have m: "mset (rb_inorder t) = mset (xs @ ys)" using t(3) s(3) by simp
    have st: "set (rb_inorder t) = set (xs @ ys)" "length (rb_inorder t) = length (xs @ ys)"
      using mset_eq_setD [OF m] mset_eq_length [OF m] by simp_all
    have "(\<Sum>x\<leftarrow>rb_inorder t. length (de_extents x)) = (\<Sum>x\<leftarrow>xs @ ys. length (de_extents x))"
      using arg_cong [OF m, of "\<lambda>M. \<Sum>d\<in>#M. length (de_extents d)"] by (simp flip: sum_mset_sum_list add: mset_map)
    then have "res_inv (res1\<lparr>rt_root := t, num_dupes := num_dupes res1 - 1\<rparr>)"
      using t(2) st rest nd ne e by (simp add: res_inv_def)
    moreover have "res_extents (res1\<lparr>rt_root := t, num_dupes := num_dupes res1 - 1\<rparr>) = res_extents res - {g} \<times> set (de_extents d)"
      unfolding ex using st(1) out by (auto simp: res_extents_def)
    ultimately show ?thesis using t(1) by blast
  qed
qed

lemma remove_extent_ok:
  assumes inv: "res_inv res" and d: "find_dupe_extents res (snd g) (fst g) = Some d" "group_key d = g" "dext_ok d"
    and k: "k \<in> set (de_extents d)"
  shows "\<exists>result res'. remove_extent res g k = Some (result, res') \<and> res_inv res' \<and>
    unat result = (if length (de_extents d) = 2 then 0 else length (de_extents d) - 1) \<and>
    res_extents res' = res_extents res - {g} \<times> (if length (de_extents d) = 2 then set (de_extents d) else {k})"
proof -
  obtain p where p: "remove_again k d (num_extents res) = Some (de_num_dupes p, p,
        num_extents res - of_nat (length (de_extents d) - length (de_extents p)))"
      "dext_ok p" "group_key p = g" "de_extents p = (if length (de_extents d) = 2 then [] else remove1 k (de_extents d))"
    using remove_again_ok [OF d(3) k] d(2) by blast
  have dist: "distinct (de_extents d)" using d(3) by (simp add: dext_ok_def)
  note ln = length_remove1_Suc [OF k]
  have sub: "set (de_extents p) \<subseteq> set (de_extents d)" "length (de_extents p) \<le> length (de_extents d)"
    using p(4) set_remove1_subset [of k "de_extents d"] ln by (auto split: if_splits)
  have un: "unat (de_num_dupes p) = (if length (de_extents d) = 2 then 0 else length (de_extents d) - 1)"
    using p(2,4) unat_u32_of_nat ln by (auto simp: dext_ok_def split: if_splits)
  have gone: "set (de_extents d) - set (de_extents p) = (if length (de_extents d) = 2 then set (de_extents d) else {k})"
    using p(4) k dist by (auto simp: set_remove1_eq)
  note shrink = shrink_group_ok [OF inv d(1,2) p(2,3) sub]
  show ?thesis
  proof (cases "de_extents p = []")
    case False
    then have "de_num_dupes p \<noteq> 0" using dext_ok_one(2) [OF p(2)] by simp
    with shrink(1) [OF False] p(1) un gone d(1) show ?thesis by (simp add: remove_extent_def Let_def)
  next
    case True
    then have "de_num_dupes p = 0" using dext_ok_one(2) [OF p(2)] by simp
    with shrink(2) [OF True] p(1) un gone d(1) True show ?thesis by (auto simp: remove_extent_def Let_def)
  qed
qed

lemma group_extents:
  assumes "res_inv res" "find_dupe_extents res (snd g) (fst g) = Some d"
  shows "group_key d = g" "dext_ok d" "de_extents d \<noteq> []" "set (de_extents d) = res_extents res `` {g}"
proof -
  have idx: "rb_index group_key dupe_extents_cmp (rt_root res)" using assms(1) by (simp add: res_inv_def)
  have f: "rb_search (\<lambda>x. dupe_extents_cmp g (group_key x)) (rt_root res) = Some d"
    using assms(2) by (simp add: find_dupe_extents_def)
  have d: "d \<in> set (rb_inorder (rt_root res))" "group_key d = g" using groups.find_SomeD [OF f idx] by auto
  then show "group_key d = g" "dext_ok d" "de_extents d \<noteq> []" using assms(1) by (auto simp: res_inv_def)
  have u: "x = d" if "x \<in> set (rb_inorder (rt_root res))" "group_key x = g" for x
    using groups.find_unique [OF idx that(1)] that(2) f by simp
  have "res_extents res `` {g} = {k. \<exists>x \<in> set (rb_inorder (rt_root res)). group_key x = g \<and> k \<in> set (de_extents x)}"
    unfolding res_extents_def by blast
  also have "\<dots> = set (de_extents d)" using d u by blast
  finally show "set (de_extents d) = res_extents res `` {g}" ..
qed

lemma finite_res_extents [simp]: "finite (res_extents res)"
proof -
  have "res_extents res = (\<Union>d \<in> set (rb_inorder (rt_root res)). {group_key d} \<times> set (de_extents d))"
    by (auto simp: res_extents_def)
  then show ?thesis by simp
qed

text \<open>What a removal leaves of a group with more than two extents.\<close>

lemma remove_extent_group:
  assumes inv: "res_inv res" and d: "find_dupe_extents res (snd g) (fst g) = Some d"
    and s: "rb_inorder (de_extents_root d) = xs @ e # ys" and ln: "2 < length (de_extents d)"
  shows "\<exists>result res' d'. remove_extent res g (ext_key e) = Some (result, res') \<and> res_inv res' \<and> result \<noteq> 0 \<and>
    res_extents res' = res_extents res - {(g, ext_key e)} \<and> find_dupe_extents res' (snd g) (fst g) = Some d' \<and>
    rb_inorder (de_extents_root d') = xs @ ys"
proof -
  note grp = group_extents [OF inv d]
  have idx: "rb_index ext_key (\<lambda>k y. extents_rb_cmp y k) (de_extents_root d)" using grp(2) by (simp add: dext_ok_def)
  have k: "ext_key e \<in> set (de_extents d)" using grp(2) s by (auto simp: dext_ok_def)
  obtain t where t: "rb_del (\<lambda>x. extents_rb_cmp (ext_key x) (ext_key e)) (de_extents_root d) = Some t"
      "rb_inorder t = xs @ ys" using exts.rb_del_at [OF idx s] by blast
  let ?p = "remove_one (ext_key e) d t"
  have p: "dext_ok ?p" "group_key ?p = g" using remove_one_ok [OF grp(2) k] t(1) grp(1) by auto
  have l: "length (de_extents d) = Suc (length (de_extents ?p))"
    using length_remove1_Suc [OF k] by (simp add: remove_one_def)
  have un: "unat (de_num_dupes ?p) = length (de_extents ?p)" using p(1) unat_u32_of_nat by (simp add: dext_ok_def)
  then have nz: "de_num_dupes ?p \<noteq> 1" "de_num_dupes ?p \<noteq> 0" using dext_ok_one [OF p(1)] l ln by auto
  define res1 where "res1 = (put_dupe_extents ?p res)\<lparr>num_extents := num_extents res - of_nat (length (de_extents d) - length (de_extents ?p))\<rparr>"
  have "remove_again (ext_key e) d (num_extents res) = Some (de_num_dupes ?p, ?p, num_extents res - 1)"
    using remove_again_step [OF t(1)] nz(1) by simp
  then have r: "remove_extent res g (ext_key e) = Some (de_num_dupes ?p, res1)"
    using d nz(2) l by (simp add: remove_extent_def Let_def res1_def)
  have dist: "distinct (de_extents d)" using grp(2) by (simp add: dext_ok_def)
  have sub: "set (de_extents ?p) = set (de_extents d) - {ext_key e}"
    using set_remove1_eq [OF dist] by (simp add: remove_one_def)
  have ne: "de_extents ?p \<noteq> []" using l ln by auto
  have ss: "set (de_extents ?p) \<subseteq> set (de_extents d)" "length (de_extents ?p) \<le> length (de_extents d)"
    unfolding sub l by (blast, simp)
  have "set (de_extents d) - set (de_extents ?p) = {ext_key e}" unfolding sub using k by blast
  with shrink_group_ok(1) [OF inv d grp(1) p ss ne]
  have "res_inv res1 \<and> res_extents res1 = res_extents res - {g} \<times> {ext_key e}" unfolding res1_def by simp
  moreover have "find_dupe_extents res1 (snd g) (fst g) = Some ?p"
  proof -
    have ix: "rb_index group_key dupe_extents_cmp (rt_root res)" using inv by (simp add: res_inv_def)
    have gd: "de_hash d = snd g" "de_len d = fst g" using grp(1) by (auto simp: group_key_def)
    from put_dupe_extents_split [OF ix, of d ?p] d gd p(2) grp(1)
    have "rb_index group_key dupe_extents_cmp (rt_root res1)" "?p \<in> set (rb_inorder (rt_root res1))"
      by (auto simp: res1_def)
    from groups.find_unique [OF this] p(2) show ?thesis by (simp add: find_dupe_extents_def)
  qed
  moreover have "rb_inorder (de_extents_root ?p) = xs @ ys" using t(2) by (simp add: remove_one_def)
  ultimately show ?thesis using r nz(2) by (intro exI [of _ "de_num_dupes ?p"] exI [of _ res1] exI [of _ ?p]) simp
qed

lemma dupe_extents_free_ok:
  "res_inv res \<Longrightarrow> find_dupe_extents res (snd g) (fst g) = Some d \<Longrightarrow>
   \<exists>res'. dupe_extents_free g res = Some res' \<and> res_inv res' \<and> res_extents res' = res_extents res - {g} \<times> UNIV"
proof (induction "length (de_extents d)" arbitrary: res d rule: less_induct)
  case less
  note grp = group_extents [OF less.prems]
  obtain n where n: "rb_first (de_extents_root d) = Some n" "ext_key (cursor_item n) \<in> set (de_extents d)"
    using first_extent [OF grp(2,3)] by blast
  let ?k = "ext_key (cursor_item n)"
  obtain result res1 where r: "remove_extent res g ?k = Some (result, res1)" "res_inv res1"
      "unat result = (if length (de_extents d) = 2 then 0 else length (de_extents d) - 1)"
      "res_extents res1 = res_extents res - {g} \<times> (if length (de_extents d) = 2 then set (de_extents d) else {?k})"
    using remove_extent_ok [OF less.prems grp(1,2) n(2)] by blast
  have free: "dupe_extents_free g res = (if result > 0 then dupe_extents_free g res1 else Some res1)"
    using less.prems(2) n(1) r(1) by (subst dupe_extents_free.simps) simp
  have left: "res_extents res1 `` {g} = set (de_extents d) - (if length (de_extents d) = 2 then set (de_extents d) else {?k})"
    using grp(4) r(4) by auto
  show ?case
  proof (cases "result = 0")
    case True
    then have "length (de_extents d) = 2 \<or> length (de_extents d) = 1" using r(3) grp(3) by (cases "de_extents d") (auto split: if_splits)
    then have "res_extents res1 `` {g} = {}" using left n(2) by (auto simp: length_Suc_conv)
    then have "res_extents res1 = res_extents res - {g} \<times> UNIV" using r(4) by (auto split: if_splits)
    with free True r(2) show ?thesis by simp
  next
    case False
    then have "unat result \<noteq> 0" by (simp add: unat_eq_zero)
    then have l: "length (de_extents d) \<noteq> 2" "length (de_extents d) > 1" using r(3) by (auto split: if_splits)
    have dist: "distinct (de_extents d)" using grp(2) by (simp add: dext_ok_def)
    have c: "card (res_extents res1 `` {g}) = length (de_extents d) - 1"
      unfolding left using l(1) n(2) distinct_card [OF dist] by simp
    then have "res_extents res1 `` {g} \<noteq> {}" using l(2) by auto
    then obtain k' where "(g, k') \<in> res_extents res1" by auto
    then obtain d1 where d1: "find_dupe_extents res1 (snd g) (fst g) = Some d1" "dext_ok d1"
      using res_inv_group [OF r(2)] by blast
    have "length (de_extents d1) = card (res_extents res1 `` {g})"
      using group_extents(4) [OF r(2) d1(1)] d1(2) distinct_card by (fastforce simp: dext_ok_def)
    then have "length (de_extents d1) < length (de_extents d)" using c l by simp
    from less.hyps [OF this r(2) d1(1)] obtain res' where
      "dupe_extents_free g res1 = Some res'" "res_inv res'" "res_extents res' = res_extents res1 - {g} \<times> UNIV" by blast
    moreover have "res_extents res1 - {g} \<times> UNIV = res_extents res - {g} \<times> UNIV" using r(4) by auto
    ultimately show ?thesis using free False by (simp add: word_gt_0)
  qed
qed

lemma free_results_tree_ok: "res_inv res \<Longrightarrow> free_results_tree res = Some init_results_tree"
proof (induction "card (res_extents res)" arbitrary: res rule: less_induct)
  case less
  show ?case
  proof (cases "rt_root res = RB_NULL")
    case True
    then have "res = init_results_tree" using less.prems by (cases res) (simp add: res_inv_def init_results_tree_def)
    then show ?thesis by (subst free_results_tree.simps) (simp add: rb_first_def init_results_tree_def)
  next
    case False
    let ?d = "cursor_item (leftmost (rt_root res) [])"
    have d: "?d \<in> set (rb_inorder (rt_root res))"
      using leftmost_rest [OF False, of "[]"] by (metis append_Nil2 after.simps(1) list.set_intros(1))
    have f: "find_dupe_extents res (snd (group_key ?d)) (fst (group_key ?d)) = Some ?d"
      using groups.find_unique [OF _ d] less.prems by (simp add: find_dupe_extents_def res_inv_def)
    obtain res' where r: "dupe_extents_free (group_key ?d) res = Some res'" "res_inv res'"
        "res_extents res' = res_extents res - {group_key ?d} \<times> UNIV"
      using dupe_extents_free_ok [OF less.prems f] by blast
    have "res_extents res `` {group_key ?d} \<noteq> {}" using group_extents(3,4) [OF less.prems f] by (metis set_empty)
    then have "res_extents res' \<subset> res_extents res" unfolding r(3) by blast
    then have "card (res_extents res') < card (res_extents res)" by (simp add: psubset_card_mono)
    with less.hyps [OF _ r(2)] r(1) False show ?thesis
      by (subst free_results_tree.simps) (simp add: rb_first_def)
  qed
qed

section \<open>The properties of the results tree\<close>

lemma init_results_inv: "res_inv init_results_tree" "res_room init_results_tree" "res_extents init_results_tree = {}"
  using groups.rb_index_NULL by (simp_all add: res_inv_def res_room_def init_results_tree_def res_extents_def)

text \<open>
  C26. \<open>insert_result\<close> files the two extents under their length and digest, in one group per length
  and digest, keeps everything that was there, adds no extent twice, and keeps the counters exact.
\<close>

theorem insert_result_correct:
  assumes "res_inv res" "res_room res"
  shows "\<exists>res'. insert_result True True True res digest (f0, f1) (soff, soff1) (eoff, eoff1) = Some (0, res') \<and> res_inv res' \<and>
    res_extents res' = res_extents res \<union> {(eoff - soff + 1, digest)} \<times> {(f0, soff), (f1, soff1)}"
  using insert_result_ok [OF assms refl] .

theorem insert_result_correct_witness:
  "\<exists>res'. insert_result True True True init_results_tree [1] (64, 65) (0, 4096) (4095, 8191) = Some (0, res') \<and>
     res_extents res' = {(4096, [1])} \<times> {(64, 0), (65, 4096)}"
  using insert_result_correct [OF init_results_inv(1,2), of "[1]" 64 65 0 4096 4095 8191] init_results_inv(3) by auto

text \<open>
  C27. \<open>remove_extent\<close> removes the extent and, when that leaves its group with a single extent, the
  whole group: no group is ever left with exactly one extent by a removal. It returns the number
  of extents the group still has, and the counters stay exact.
\<close>

theorem remove_extent_correct:
  assumes "res_inv res" "(g, k) \<in> res_extents res"
  shows "\<exists>result res'. remove_extent res g k = Some (result, res') \<and> res_inv res' \<and>
    unat result = card (res_extents res' `` {g}) \<and> card (res_extents res' `` {g}) \<noteq> 1 \<and>
    res_extents res' = res_extents res - {g} \<times> (if card (res_extents res `` {g}) = 2 then UNIV else {k})"
proof -
  obtain d where d: "find_dupe_extents res (snd g) (fst g) = Some d" using res_inv_group [OF assms] by blast
  note grp = group_extents [OF assms(1) d]
  have k: "k \<in> set (de_extents d)" using grp(4) assms(2) by auto
  have dist: "distinct (de_extents d)" using grp(2) by (simp add: dext_ok_def)
  have ln: "card (res_extents res `` {g}) = length (de_extents d)" using distinct_card [OF dist] grp(4) by simp
  obtain result res' where r: "remove_extent res g k = Some (result, res')" "res_inv res'"
      "unat result = (if length (de_extents d) = 2 then 0 else length (de_extents d) - 1)"
      "res_extents res' = res_extents res - {g} \<times> (if length (de_extents d) = 2 then set (de_extents d) else {k})"
    using remove_extent_ok [OF assms(1) d grp(1,2) k] by blast
  have im: "res_extents res' `` {g} = (if length (de_extents d) = 2 then {} else set (de_extents d) - {k})"
    using r(4) grp(4) by auto
  then have c: "card (res_extents res' `` {g}) = unat result" using r(3) k distinct_card [OF dist] by simp
  have "unat result \<noteq> 1" using r(3) by (auto split: if_splits)
  moreover have "{g} \<times> set (de_extents d) \<inter> res_extents res = {g} \<times> UNIV \<inter> res_extents res" using grp(4) by auto
  then have "res_extents res' = res_extents res - {g} \<times> (if card (res_extents res `` {g}) = 2 then UNIV else {k})"
    using r(4) ln by auto
  ultimately show ?thesis using r(1,2) c by metis
qed

theorem remove_extent_correct_witness:
  "\<exists>res result res'. remove_extent res (4096, [1]) (64, 0) = Some (result, res') \<and> res_extents res' = {}"
proof -
  obtain res where res: "res_inv res" "res_extents res = {(4096, [1])} \<times> {(64, 0), (65, 4096)}"
    using insert_result_ok [OF init_results_inv(1,2) refl, of "[1]" 64 65 0 4096 4095 8191] init_results_inv(3) by auto
  then have "((4096, [1]), (64, 0)) \<in> res_extents res" by simp
  moreover have "res_extents res `` {(4096, [1])} = {(64, 0), (65, 4096)}" using res(2) by auto
  ultimately show ?thesis using remove_extent_correct [OF res(1), of "(4096, [1])" "(64, 0)"] res(2) by fastforce
qed

end
