(* ===== verification/Dedupe.thy ===== *)
theory Dedupe
  imports Prelude "HOL-Library.Multiset"
begin

text \<open>
  Handing duplicate extents to the kernel, \<open>dedupe.c\<close>. A context holds the requests of one group in
  three lists (\<open>queued\<close>, \<open>in_progress\<close>, \<open>completed\<close>) and the argument block \<open>same\<close> of the
  FIDEDUPERANGE ioctl. \<open>dedupe_extents\<close> turns the queue into one ioctl, distributes the results, and
  goes around until the queue is empty.

  The kernel is a parameter: \<open>io w s\<close> is the return code, the argument block afterwards and the new
  state of the world. The descriptors of the files are the parameter \<open>fds\<close>, and \<open>statfs_reply\<close> is
  the answer to \<open>fstatfs\<close>. \<open>fs_blocksize\<close> is the static variable of that name. The lists are HOL
  lists, by the refinement of \<open>list.h\<close> in \<open>KList\<close>.

  \<open>kernel_ok\<close> states what is relied on: the kernel writes only the result fields, and all
  destinations that succeed in one call advance by the same, positive, number of bytes, at most the
  requested length. Under it the loop ends, no request is lost or duplicated, and every request is
  completed for a reason the code names.
\<close>

unbundle bit_operations_syntax

type_synonym u16 = "16 word"

record dedupe_req =
  req_file :: fptr
  req_loff :: u64
  req_total :: u64
  req_status :: int
  req_idx :: u16

record range_info =
  dest_fd :: int
  dest_offset :: u64
  bytes_deduped :: u64
  info_status :: int

record dedupe_range =
  src_offset :: u64
  src_length :: u64
  dest_count :: u16
  infos :: "range_info list"

record dedupe_ctxt =
  dc_orig_len :: u64
  dc_orig_file_off :: u64
  dc_len :: u64
  dc_ioctl_file :: fptr
  dc_ioctl_file_off :: u64
  max_queable :: u32
  num_queued :: u32
  queued :: "dedupe_req list"
  in_progress :: "dedupe_req list"
  completed :: "dedupe_req list"
  dc_same :: dedupe_range

section \<open>Model\<close>

definition new_dedupe_req :: "bool \<Rightarrow> fptr \<Rightarrow> u64 \<Rightarrow> dedupe_req option" where
  "new_dedupe_req room file loff =
     (if room then Some \<lparr>req_file = file, req_loff = loff, req_total = 0, req_status = 0, req_idx = 0\<rparr> else None)"

definition same_idx_to_request :: "dedupe_ctxt \<Rightarrow> u16 \<Rightarrow> dedupe_req option" where
  "same_idx_to_request ctxt idx =
     List.find (\<lambda>req. req_idx req = idx) (queued ctxt @ in_progress ctxt @ completed ctxt)"

definition clear_lists :: "dedupe_ctxt \<Rightarrow> dedupe_ctxt" where
  "clear_lists ctxt = ctxt\<lparr>queued := [], in_progress := [], completed := []\<rparr>"

definition get_fs_blocksize :: "int \<times> u32 \<Rightarrow> u32" where
  "get_fs_blocksize statfs_reply = (case statfs_reply of (ret, f_bsize) \<Rightarrow> if ret \<noteq> 0 then 4096 else f_bsize)"

definition empty_info :: range_info where
  "empty_info = \<lparr>dest_fd = 0, dest_offset = 0, bytes_deduped = 0, info_status = 0\<rparr>"

text \<open>\<open>calloc\<close> and \<open>memset\<close> give an argument block of zeros with room for \<open>n\<close> destinations.\<close>

definition zero_same :: "nat \<Rightarrow> dedupe_range" where
  "zero_same n = \<lparr>src_offset = 0, src_length = 0, dest_count = 0, infos = replicate n empty_info\<rparr>"

definition new_dedupe_ctxt :: "bool \<Rightarrow> bool \<Rightarrow> u32 \<Rightarrow> u64 \<Rightarrow> u64 \<Rightarrow> fptr \<Rightarrow> dedupe_ctxt option" where
  "new_dedupe_ctxt croom sroom max_extents loff elen ioctl_file =
     (if \<not> croom then None
      else
        let max_extents = (if max_extents > MAX_DEDUPES_PER_IOCTL then MAX_DEDUPES_PER_IOCTL else max_extents);
            max_dest_files = max_extents - 1 in
        if \<not> sroom then None
        else Some \<lparr>dc_orig_len = elen, dc_orig_file_off = loff, dc_len = elen, dc_ioctl_file = ioctl_file,
          dc_ioctl_file_off = loff, max_queable = max_dest_files, num_queued = 0,
          queued = [], in_progress = [], completed = [], dc_same = zero_same (unat max_dest_files)\<rparr>)"

definition add_extent_to_dedupe :: "bool \<Rightarrow> dedupe_ctxt \<Rightarrow> u64 \<Rightarrow> fptr \<Rightarrow> (int \<times> dedupe_ctxt) option" where
  "add_extent_to_dedupe room ctxt loff file = do {
     abort_on (num_queued ctxt \<ge> max_queable ctxt);
     case new_dedupe_req room file loff of
       None \<Rightarrow> Some (-1, ctxt)
     | Some req \<Rightarrow> do {
         let ctxt = ctxt\<lparr>queued := queued ctxt @ [req], num_queued := num_queued ctxt + 1\<rparr>;
         Some (sint (max_queable ctxt - num_queued ctxt), ctxt)
       }
   }"

definition add_dedupe_request ::
    "(fptr \<Rightarrow> int) \<Rightarrow> dedupe_ctxt \<Rightarrow> dedupe_range \<Rightarrow> dedupe_req \<Rightarrow> (dedupe_range \<times> dedupe_req) option" where
  "add_dedupe_request fds ctxt same req = do {
     let same_idx = dest_count same;
     abort_on (ucast (dest_count same) \<ge> max_queable ctxt);
     let req = req\<lparr>req_idx := same_idx\<rparr>;
     abort_on (unat same_idx \<ge> length (infos same));
     let info = (infos same ! unat same_idx)\<lparr>dest_fd := fds (req_file req), dest_offset := req_loff req,
       bytes_deduped := 0\<rparr>;
     Some (same\<lparr>infos := (infos same)[unat same_idx := info], dest_count := dest_count same + 1\<rparr>, req)
   }"

text \<open>The complement is taken at 32 bits, as \<open>fs_blocksize\<close> is an \<open>unsigned int\<close>, and then widened.\<close>

definition set_aligned_same_length :: "u32 \<Rightarrow> dedupe_ctxt \<Rightarrow> dedupe_range \<Rightarrow> dedupe_range" where
  "set_aligned_same_length fs_blocksize ctxt same =
     (if fs_blocksize \<noteq> 0 \<and> dc_len ctxt > ucast fs_blocksize
      then same\<lparr>src_length := dc_len ctxt AND ucast (NOT (fs_blocksize - 1))\<rparr>
      else same\<lparr>src_length := dc_len ctxt\<rparr>)"

fun populate_loop :: "(fptr \<Rightarrow> int) \<Rightarrow> dedupe_req list \<Rightarrow> dedupe_ctxt \<Rightarrow> dedupe_ctxt option" where
  "populate_loop fds [] ctxt = Some ctxt"
| "populate_loop fds (req # rest) ctxt = do {
     (same, req) \<leftarrow> add_dedupe_request fds ctxt (dc_same ctxt) req;
     populate_loop fds rest (ctxt\<lparr>dc_same := same, queued := rest, in_progress := in_progress ctxt @ [req],
       num_queued := num_queued ctxt - 1\<rparr>)
   }"

definition populate_dedupe_request :: "(fptr \<Rightarrow> int) \<Rightarrow> u32 \<Rightarrow> dedupe_ctxt \<Rightarrow> dedupe_ctxt option" where
  "populate_dedupe_request fds fs_blocksize ctxt =
     (let same = zero_same (length (infos (dc_same ctxt)));
          same = set_aligned_same_length fs_blocksize ctxt same;
          same = same\<lparr>src_offset := dc_ioctl_file_off ctxt\<rparr>
      in populate_loop fds (queued ctxt) (ctxt\<lparr>dc_same := same\<rparr>))"

text \<open>The loop of \<open>process_dedupes\<close>, with \<open>max_deduped\<close>. An index outside \<open>info\<close> is \<open>None\<close>.\<close>

fun process_loop :: "dedupe_range \<Rightarrow> dedupe_req list \<Rightarrow> dedupe_ctxt \<Rightarrow> u64 \<Rightarrow> (dedupe_ctxt \<times> u64) option" where
  "process_loop same [] ctxt max_deduped = Some (ctxt, max_deduped)"
| "process_loop same (req # rest) ctxt max_deduped = do {
     abort_on (unat (req_idx req) \<ge> length (infos same));
     let info = infos same ! unat (req_idx req);
     let max_deduped = (if bytes_deduped info > max_deduped then bytes_deduped info else max_deduped);
     let req = req\<lparr>req_loff := req_loff req + bytes_deduped info, req_total := req_total req + bytes_deduped info\<rparr>;
     if info_status info \<noteq> 0 \<or> req_total req \<ge> dc_orig_len ctxt then
       process_loop same rest (ctxt\<lparr>in_progress := rest,
         completed := completed ctxt @ [req\<lparr>req_status := info_status info\<rparr>]\<rparr>) max_deduped
     else
       process_loop same rest (ctxt\<lparr>in_progress := rest, queued := queued ctxt @ [req],
         num_queued := num_queued ctxt + 1\<rparr>) max_deduped
   }"

definition process_dedupes :: "u32 \<Rightarrow> dedupe_ctxt \<Rightarrow> dedupe_ctxt option" where
  "process_dedupes fs_blocksize ctxt = do {
     (ctxt, max_deduped) \<leftarrow> process_loop (dc_same ctxt) (in_progress ctxt) ctxt 0;
     let ctxt = ctxt\<lparr>dc_len := dc_len ctxt - max_deduped, dc_ioctl_file_off := dc_ioctl_file_off ctxt + max_deduped\<rparr>;
     Some (if fs_blocksize \<noteq> 0 \<and> dc_len ctxt < ucast fs_blocksize
           then ctxt\<lparr>queued := [], completed := queued ctxt @ completed ctxt\<rparr> else ctxt)
   }"

text \<open>From the label \<open>retry\<close> to the end of the iteration: return code, block size, context, world.\<close>

partial_function (option) dedupe_retry ::
    "('w \<Rightarrow> dedupe_range \<Rightarrow> int \<times> dedupe_range \<times> 'w) \<Rightarrow> int \<times> u32 \<Rightarrow> u32 \<Rightarrow> dedupe_ctxt \<Rightarrow> 'w \<Rightarrow>
     (int \<times> u32 \<times> dedupe_ctxt \<times> 'w) option" where
  "dedupe_retry io statfs_reply fs_blocksize ctxt w =
     (let (ret, same, w) = io w (dc_same ctxt); ctxt = ctxt\<lparr>dc_same := same\<rparr> in
      if ret \<noteq> 0 then Some (ret, fs_blocksize, ctxt, w)
      else if infos same \<noteq> [] \<and> info_status (hd (infos same)) = - EINVAL \<and> fs_blocksize = 0 then
        let fs_blocksize = get_fs_blocksize statfs_reply in
        dedupe_retry io statfs_reply fs_blocksize
          (ctxt\<lparr>dc_same := set_aligned_same_length fs_blocksize ctxt same\<rparr>) w
      else do {
        ctxt \<leftarrow> process_dedupes fs_blocksize ctxt;
        Some (0, fs_blocksize, ctxt, w)
      })"

partial_function (option) dedupe_extents ::
    "('w \<Rightarrow> dedupe_range \<Rightarrow> int \<times> dedupe_range \<times> 'w) \<Rightarrow> (fptr \<Rightarrow> int) \<Rightarrow> int \<times> u32 \<Rightarrow> int \<Rightarrow> u32 \<Rightarrow>
     dedupe_ctxt \<Rightarrow> 'w \<Rightarrow> (int \<times> u32 \<times> dedupe_ctxt \<times> 'w) option" where
  "dedupe_extents io fds statfs_reply ret fs_blocksize ctxt w =
     (if queued ctxt = [] then Some (ret, fs_blocksize, ctxt, w)
      else do {
        ctxt \<leftarrow> populate_dedupe_request fds fs_blocksize ctxt;
        (ret, fs_blocksize, ctxt, w) \<leftarrow> dedupe_retry io statfs_reply fs_blocksize ctxt w;
        if ret \<noteq> 0 then Some (ret, fs_blocksize, ctxt, w)
        else dedupe_extents io fds statfs_reply ret fs_blocksize ctxt w
      })"

text \<open>Return value, status, offset, bytes, file, and the context.\<close>

definition pop_one_dedupe_result ::
    "dedupe_ctxt \<Rightarrow> (int \<times> int \<times> u64 \<times> u64 \<times> fptr \<times> dedupe_ctxt) option" where
  "pop_one_dedupe_result ctxt = (case completed ctxt of
       [] \<Rightarrow> None
     | req # rest \<Rightarrow> Some (if rest = [] then 1 else 0, req_status req, req_loff req - req_total req,
         req_total req, req_file req, ctxt\<lparr>completed := rest\<rparr>))"

section \<open>Requests are conserved\<close>

text \<open>What a request is about: the file and the offset it started at.\<close>

definition req_of :: "dedupe_req \<Rightarrow> fptr \<times> u64" where
  "req_of req = (req_file req, req_loff req - req_total req)"

lemma req_of_simps [simp]:
  "req_of (r\<lparr>req_idx := i\<rparr>) = req_of r"
  "req_of (r\<lparr>req_status := st\<rparr>) = req_of r"
  "req_of (r\<lparr>req_loff := req_loff r + n, req_total := req_total r + n\<rparr>) = req_of r"
  by (simp_all add: req_of_def)

definition reqs :: "dedupe_ctxt \<Rightarrow> (fptr \<times> u64) multiset" where
  "reqs ctxt = mset (map req_of (queued ctxt @ in_progress ctxt @ completed ctxt))"


definition kernel_ok :: "('w \<Rightarrow> dedupe_range \<Rightarrow> int \<times> dedupe_range \<times> 'w) \<Rightarrow> bool" where
  "kernel_ok io \<longleftrightarrow> (\<forall>w s s' w'. io w s = (0, s', w') \<longrightarrow>
     src_length s' = src_length s \<and> dest_count s' = dest_count s \<and> length (infos s') = length (infos s) \<and>
     (\<exists>n. n \<le> src_length s \<and> (0 < src_length s \<longrightarrow> 0 < n) \<and>
        (\<forall>i < min (unat (dest_count s)) (length (infos s)). bytes_deduped (infos s' ! i) = (if info_status (infos s' ! i) = 0 then n else 0))))"

definition block_size_ok :: "u32 \<Rightarrow> bool" where
  "block_size_ok b \<longleftrightarrow> (\<exists>k < 32. b = 2 ^ k)"

text \<open>The state at the head of the loop.\<close>

definition loop_inv :: "dedupe_ctxt \<Rightarrow> bool" where
  "loop_inv ctxt \<longleftrightarrow> in_progress ctxt = [] \<and> length (queued ctxt) \<le> unat (max_queable ctxt) \<and>
     length (infos (dc_same ctxt)) = unat (max_queable ctxt) \<and> unat (max_queable ctxt) < 2 ^ 16 \<and>
     (queued ctxt \<noteq> [] \<longrightarrow> num_queued ctxt = of_nat (length (queued ctxt))) \<and> dc_len ctxt \<le> dc_orig_len ctxt \<and>
     (\<forall>r \<in> set (queued ctxt). req_total r = dc_orig_len ctxt - dc_len ctxt \<and> req_total r < dc_orig_len ctxt)"

text \<open>Why a request may be on the completed list.\<close>

definition finished :: "u32 \<Rightarrow> u64 \<Rightarrow> dedupe_req \<Rightarrow> bool" where
  "finished fs_blocksize orig_len r \<longleftrightarrow> req_status r \<noteq> 0 \<or> req_total r \<ge> orig_len \<or>
     fs_blocksize \<noteq> 0 \<and> orig_len - req_total r < ucast fs_blocksize"

lemma unat_u16: "n < 2 ^ 16 \<Longrightarrow> unat (of_nat n :: u16) = n"
  by (simp add: unsigned_of_nat take_bit_nat_eq_self)

subsection \<open>Populating\<close>

lemma add_dedupe_request_ok:
  assumes "dest_count same = of_nat n" "n < unat (max_queable ctxt)" "length (infos same) = unat (max_queable ctxt)"
    "unat (max_queable ctxt) < 2 ^ 16"
  shows "\<exists>info. add_dedupe_request fds ctxt same req =
    Some (same\<lparr>infos := (infos same)[n := info], dest_count := of_nat (Suc n)\<rparr>, req\<lparr>req_idx := of_nat n\<rparr>)"
proof -
  have n: "unat (of_nat n :: u16) = n" using assms by (intro unat_u16) simp
  have "unat (ucast (of_nat n :: u16) :: u32) = n" using n assms by (simp add: unsigned_ucast_eq take_bit_nat_eq_self)
  then have "(ucast (of_nat n :: u16) :: u32) < max_queable ctxt" using assms(2) by (simp add: word_less_nat_alt)
  with n assms show ?thesis by (auto simp: add_dedupe_request_def Let_def not_le add.commute)
qed

lemma populate_loop_ok:
  assumes "dest_count (dc_same ctxt) = of_nat (length (in_progress ctxt))"
    and "length (in_progress ctxt) + length rs \<le> unat (max_queable ctxt)"
    and "length (infos (dc_same ctxt)) = unat (max_queable ctxt)" "unat (max_queable ctxt) < 2 ^ 16"
    and "num_queued ctxt = of_nat (length rs)" "queued ctxt = rs"
    and "\<forall>r \<in> set (in_progress ctxt). unat (req_idx r) < length (in_progress ctxt)"
  shows "\<exists>same ps. populate_loop fds rs ctxt = Some (ctxt\<lparr>dc_same := same, queued := [],
      in_progress := in_progress ctxt @ ps, num_queued := 0\<rparr>) \<and>
    dest_count same = of_nat (length (in_progress ctxt @ ps)) \<and> length ps = length rs \<and>
    length (infos same) = length (infos (dc_same ctxt)) \<and> src_length same = src_length (dc_same ctxt) \<and>
    map req_of ps = map req_of rs \<and> map req_total ps = map req_total rs \<and>
    (\<forall>r \<in> set (in_progress ctxt @ ps). unat (req_idx r) < length (in_progress ctxt @ ps))"
  using assms
proof (induction rs arbitrary: ctxt)
  case Nil
  then show ?case by (intro exI [of _ "dc_same ctxt"] exI [of _ "[]"]) simp
next
  case (Cons req rs)
  let ?n = "length (in_progress ctxt)"
  obtain info where a: "add_dedupe_request fds ctxt (dc_same ctxt) req =
      Some ((dc_same ctxt)\<lparr>infos := (infos (dc_same ctxt))[?n := info], dest_count := of_nat (Suc ?n)\<rparr>, req\<lparr>req_idx := of_nat ?n\<rparr>)"
    using add_dedupe_request_ok [OF Cons.prems(1) _ Cons.prems(3,4)] Cons.prems(2) by fastforce
  let ?same = "(dc_same ctxt)\<lparr>infos := (infos (dc_same ctxt))[?n := info], dest_count := of_nat (Suc ?n)\<rparr>"
  let ?req = "req\<lparr>req_idx := of_nat ?n\<rparr>"
  let ?c = "ctxt\<lparr>dc_same := ?same, queued := rs, in_progress := in_progress ctxt @ [?req], num_queued := num_queued ctxt - 1\<rparr>"
  have "unat (of_nat ?n :: u16) = ?n" using Cons.prems(2,4) by (intro unat_u16) simp
  then have idx: "\<forall>r \<in> set (in_progress ?c). unat (req_idx r) < length (in_progress ?c)"
    using Cons.prems(7) by (auto simp: less_Suc_eq)
  have "\<exists>same ps. populate_loop fds rs ?c = Some (?c\<lparr>dc_same := same, queued := [],
      in_progress := in_progress ?c @ ps, num_queued := 0\<rparr>) \<and>
    dest_count same = of_nat (length (in_progress ?c @ ps)) \<and> length ps = length rs \<and>
    length (infos same) = length (infos (dc_same ?c)) \<and> src_length same = src_length (dc_same ?c) \<and>
    map req_of ps = map req_of rs \<and> map req_total ps = map req_total rs \<and>
    (\<forall>r \<in> set (in_progress ?c @ ps). unat (req_idx r) < length (in_progress ?c @ ps))"
    by (rule Cons.IH) (use Cons.prems idx in simp_all)
  then obtain same ps where r: "populate_loop fds rs ?c = Some (?c\<lparr>dc_same := same, queued := [],
      in_progress := in_progress ?c @ ps, num_queued := 0\<rparr>)"
    "dest_count same = of_nat (length (in_progress ?c @ ps))" "length ps = length rs"
    "length (infos same) = length (infos (dc_same ?c))" "src_length same = src_length (dc_same ?c)"
    "map req_of ps = map req_of rs" "map req_total ps = map req_total rs"
    "\<forall>r \<in> set (in_progress ?c @ ps). unat (req_idx r) < length (in_progress ?c @ ps)" by blast
  show ?case
    by (intro exI [of _ same] exI [of _ "?req # ps"]) (use r a in simp_all)
qed

lemma take_bit_u64_iff: "take_bit k (w :: u64) = w \<longleftrightarrow> unat w < 2 ^ k"
proof -
  have "take_bit k w = w \<longleftrightarrow> unat (take_bit k w) = unat w" by (simp add: word_unat_eq_iff)
  also have "\<dots> \<longleftrightarrow> unat w < 2 ^ k" by (simp add: unsigned_take_bit_eq take_bit_nat_eq_self_iff)
  finally show ?thesis .
qed

lemma aligned_length_positive:
  assumes b: "block_size_ok b" and len: "len < 2 ^ 32" "(ucast b :: u64) < len"
  shows "0 < (len :: u64) AND ucast (NOT (b - 1))"
proof (rule ccontr)
  assume "\<not> ?thesis"
  then have z: "len AND ucast (NOT (b - 1)) = 0" by (simp add: word_gt_0)
  obtain k where k: "k < 32" "b = 2 ^ k" using b by (auto simp: block_size_ok_def)
  have bm: "bit (b - 1) i \<longleftrightarrow> i < k" if "i < 32" for i
    using that k by (simp add: bit_mask_iff flip: mask_eq_exp_minus_1)
  have hi: "\<not> bit len i" if "32 \<le> i" for i
  proof -
    have "take_bit 32 len = len" using len(1) by (simp add: take_bit_u64_iff word_less_nat_alt)
    then show ?thesis using that by (metis bit_take_bit_iff not_le)
  qed
  have "take_bit k len = len"
  proof (rule bit_eqI)
    fix i
    have "\<not> bit len i" if "\<not> i < k"
    proof (cases "i < 32")
      case True
      have "\<not> bit (len AND ucast (NOT (b - 1))) i" unfolding z by simp
      then show ?thesis using True bm [OF True] that by (auto simp: bit_and_iff bit_ucast_iff bit_not_iff)
    qed (simp add: hi)
    then show "bit (take_bit k len) i = bit len i" by (auto simp: bit_take_bit_iff)
  qed
  then have less: "unat len < 2 ^ k" by (simp add: take_bit_u64_iff)
  have lt: "(2 :: nat) ^ k < 2 ^ 32" by (rule power_strict_increasing [OF k(1)]) simp
  have "b = of_nat (2 ^ k)" using k(2) by simp
  moreover have "unat (of_nat (2 ^ k) :: u32) = 2 ^ k"
    using lt k(1) by (simp add: unsigned_of_nat take_bit_nat_eq_self_iff del: of_nat_power)
  ultimately have "unat b = 2 ^ k" by simp
  then have "unat (ucast b :: u64) = 2 ^ k" using lt k(1)
    by (simp add: unsigned_ucast_eq take_bit_nat_eq_self_iff)
  with less show False using len(2) by (simp add: word_less_nat_alt)
qed

lemma aligned_length:
  assumes "fsb = 0 \<or> block_size_ok fsb" "dc_len ctxt < 2 ^ 32"
  shows "src_length (set_aligned_same_length fsb ctxt same) \<le> dc_len ctxt"
    and "0 < dc_len ctxt \<Longrightarrow> 0 < src_length (set_aligned_same_length fsb ctxt same)"
    and "dest_count (set_aligned_same_length fsb ctxt same) = dest_count same"
    and "infos (set_aligned_same_length fsb ctxt same) = infos same"
  using assms aligned_length_positive [of fsb "dc_len ctxt"]
  by (auto simp: set_aligned_same_length_def word_and_le2 word_and_le1)

subsection \<open>Processing the results\<close>

lemma process_loop_ok:
  assumes "\<forall>r \<in> set rs. unat (req_idx r) < length (infos same) \<and> req_total r = t \<and>
      bytes_deduped (infos same ! unat (req_idx r)) = (if info_status (infos same ! unat (req_idx r)) = 0 then n else 0)"
    and "in_progress ctxt = rs" "m \<le> n"
  shows "\<exists>qs cs m'. process_loop same rs ctxt m = Some (ctxt\<lparr>in_progress := [], queued := queued ctxt @ qs,
      num_queued := num_queued ctxt + of_nat (length qs), completed := completed ctxt @ cs\<rparr>, m') \<and>
    mset (map req_of qs) + mset (map req_of cs) = mset (map req_of rs) \<and> length qs \<le> length rs \<and>
    (\<forall>r \<in> set qs. req_total r = t + n \<and> t + n < dc_orig_len ctxt) \<and>
    (\<forall>r \<in> set cs. req_status r \<noteq> 0 \<or> req_total r \<ge> dc_orig_len ctxt) \<and>
    m' \<le> n \<and> (qs \<noteq> [] \<or> m = n \<longrightarrow> m' = n)"
  using assms
proof (induction rs arbitrary: ctxt m)
  case Nil
  then show ?case by (intro exI [of _ "[]"] exI [of _ m]) simp
next
  case (Cons req rs)
  let ?i = "infos same ! unat (req_idx req)"
  let ?b = "bytes_deduped ?i"
  let ?req = "req\<lparr>req_loff := req_loff req + ?b, req_total := req_total req + ?b\<rparr>"
  define mx where "mx = (if ?b > m then ?b else m)"
  have i: "unat (req_idx req) < length (infos same)" "req_total req = t" "?b = (if info_status ?i = 0 then n else 0)"
    using Cons.prems(1) by auto
  have m: "mx \<le> n" "info_status ?i = 0 \<Longrightarrow> mx = n" "m = n \<Longrightarrow> mx = n"
    using Cons.prems(3) i(3) by (auto simp: not_less mx_def)
  have rest: "\<forall>r \<in> set rs. unat (req_idx r) < length (infos same) \<and> req_total r = t \<and>
      bytes_deduped (infos same ! unat (req_idx r)) = (if info_status (infos same ! unat (req_idx r)) = 0 then n else 0)"
    using Cons.prems(1) by simp
  show ?case
  proof (cases "info_status ?i \<noteq> 0 \<or> req_total ?req \<ge> dc_orig_len ctxt")
    case True
    define dr where "dr = ?req\<lparr>req_status := info_status ?i\<rparr>"
    let ?c = "ctxt\<lparr>in_progress := rs, completed := completed ctxt @ [dr]\<rparr>"
    have step: "process_loop same (req # rs) ctxt m = process_loop same rs ?c mx"
      unfolding process_loop.simps Let_def abort_on_bind if_P [OF True] dr_def mx_def using i(1) by simp
    obtain qs cs m' where r: "process_loop same rs ?c mx = Some (?c\<lparr>in_progress := [], queued := queued ?c @ qs,
        num_queued := num_queued ?c + of_nat (length qs), completed := completed ?c @ cs\<rparr>, m')"
      "mset (map req_of qs) + mset (map req_of cs) = mset (map req_of rs)" "length qs \<le> length rs"
      "\<forall>r \<in> set qs. req_total r = t + n \<and> t + n < dc_orig_len ?c"
      "\<forall>r \<in> set cs. req_status r \<noteq> 0 \<or> req_total r \<ge> dc_orig_len ?c" "m' \<le> n" "qs \<noteq> [] \<or> mx = n \<longrightarrow> m' = n"
      using Cons.IH [OF rest, of ?c mx] m(1) by auto
    have d: "req_of dr = req_of req" "req_status dr \<noteq> 0 \<or> req_total dr \<ge> dc_orig_len ctxt"
      using True by (auto simp: req_of_def dr_def)
    have ms: "mset (map req_of qs) + mset (map req_of (dr # cs)) = mset (map req_of (req # rs))"
      using r(2) d(1) by simp
    have fin: "\<forall>r \<in> set (dr # cs). req_status r \<noteq> 0 \<or> req_total r \<ge> dc_orig_len ctxt" using r(5) d(2) by simp
    have ln: "length qs \<le> length (req # rs)" and tot: "\<forall>r \<in> set qs. req_total r = t + n \<and> t + n < dc_orig_len ctxt"
      using r(3,4) by simp_all
    have "qs \<noteq> [] \<or> m = n \<longrightarrow> m' = n" using r(7) m(3) by blast
    then show ?thesis unfolding step r(1) using ms fin ln tot r(6)
      by (intro exI [of _ qs] exI [of _ "dr # cs"] exI [of _ m'] conjI) simp_all
  next
    case False
    then have z: "info_status ?i = 0" "t + n < dc_orig_len ctxt" using i by (auto simp: not_le)
    define qr where "qr = ?req"
    let ?c = "ctxt\<lparr>in_progress := rs, queued := queued ctxt @ [qr], num_queued := num_queued ctxt + 1\<rparr>"
    have step: "process_loop same (req # rs) ctxt m = process_loop same rs ?c mx"
      unfolding process_loop.simps Let_def abort_on_bind if_not_P [OF False] qr_def mx_def using i(1) by simp
    obtain qs cs m' where r: "process_loop same rs ?c mx = Some (?c\<lparr>in_progress := [], queued := queued ?c @ qs,
        num_queued := num_queued ?c + of_nat (length qs), completed := completed ?c @ cs\<rparr>, m')"
      "mset (map req_of qs) + mset (map req_of cs) = mset (map req_of rs)" "length qs \<le> length rs"
      "\<forall>r \<in> set qs. req_total r = t + n \<and> t + n < dc_orig_len ?c"
      "\<forall>r \<in> set cs. req_status r \<noteq> 0 \<or> req_total r \<ge> dc_orig_len ?c" "m' \<le> n" "qs \<noteq> [] \<or> mx = n \<longrightarrow> m' = n"
      using Cons.IH [OF rest, of ?c mx] m(1) by auto
    have d: "req_of qr = req_of req" "req_total qr = t + n" using i z by (auto simp: req_of_def qr_def)
    have ms: "mset (map req_of (qr # qs)) + mset (map req_of cs) = mset (map req_of (req # rs))"
      using r(2) d(1) by simp
    have tot: "\<forall>r \<in> set (qr # qs). req_total r = t + n \<and> t + n < dc_orig_len ctxt" using r(4) d(2) z(2) by simp
    have fin: "\<forall>r \<in> set cs. req_status r \<noteq> 0 \<or> req_total r \<ge> dc_orig_len ctxt" using r(5) by simp
    have "m' = n" using r(7) m(2) [OF z(1)] by blast
    then show ?thesis unfolding step r(1) using ms fin tot r(3,6)
      by (intro exI [of _ "qr # qs"] exI [of _ cs] exI [of _ m'] conjI) simp_all
  qed
qed

definition in_step :: "u64 \<Rightarrow> u64 \<Rightarrow> nat \<Rightarrow> dedupe_req \<Rightarrow> bool" where
  "in_step orig_len len n r \<longleftrightarrow> unat (req_idx r) < n \<and> req_total r = orig_len - len \<and> req_total r < orig_len"

definition prog_inv :: "dedupe_ctxt \<Rightarrow> bool" where
  "prog_inv ctxt \<longleftrightarrow> queued ctxt = [] \<and> num_queued ctxt = 0 \<and> in_progress ctxt \<noteq> [] \<and>
     length (in_progress ctxt) \<le> unat (max_queable ctxt) \<and> unat (max_queable ctxt) < 2 ^ 16 \<and>
     length (infos (dc_same ctxt)) = unat (max_queable ctxt) \<and>
     dest_count (dc_same ctxt) = of_nat (length (in_progress ctxt)) \<and> dc_len ctxt \<le> dc_orig_len ctxt \<and>
     (\<forall>r \<in> set (in_progress ctxt). in_step (dc_orig_len ctxt) (dc_len ctxt) (length (in_progress ctxt)) r)"

lemma populate_ok:
  assumes inv: "loop_inv ctxt" and q: "queued ctxt \<noteq> []"
  shows "\<exists>ctxt'. populate_dedupe_request fds fsb ctxt = Some ctxt' \<and> prog_inv ctxt' \<and> reqs ctxt' = reqs ctxt \<and>
    dc_len ctxt' = dc_len ctxt \<and> dc_orig_len ctxt' = dc_orig_len ctxt \<and> completed ctxt' = completed ctxt \<and>
    src_length (dc_same ctxt') = src_length (set_aligned_same_length fsb ctxt' (dc_same ctxt'))"
proof -
  note i = inv [unfolded loop_inv_def]
  define same0 where "same0 = (set_aligned_same_length fsb ctxt (zero_same (length (infos (dc_same ctxt)))))
    \<lparr>src_offset := dc_ioctl_file_off ctxt\<rparr>"
  have s0: "dest_count same0 = 0" "length (infos same0) = unat (max_queable ctxt)"
    "src_length same0 = src_length (set_aligned_same_length fsb ctxt same0)"
    using i by (simp_all add: same0_def set_aligned_same_length_def zero_same_def)
  let ?c = "ctxt\<lparr>dc_same := same0\<rparr>"
  obtain same ps where p: "populate_loop fds (queued ctxt) ?c = Some (?c\<lparr>dc_same := same, queued := [],
      in_progress := in_progress ?c @ ps, num_queued := 0\<rparr>)" "dest_count same = of_nat (length ps)"
    "length ps = length (queued ctxt)" "length (infos same) = unat (max_queable ctxt)" "src_length same = src_length same0"
    "map req_of ps = map req_of (queued ctxt)" "map req_total ps = map req_total (queued ctxt)"
    "\<forall>r \<in> set ps. unat (req_idx r) < length ps"
    using populate_loop_ok [of ?c "queued ctxt" fds] i s0 q by auto
  let ?c' = "ctxt\<lparr>dc_same := same, queued := [], in_progress := ps, num_queued := 0\<rparr>"
  have pop: "populate_dedupe_request fds fsb ctxt = Some ?c'"
    unfolding populate_dedupe_request_def Let_def same0_def [symmetric] using p(1) i by simp
  have "\<forall>r \<in> set ps. in_step (dc_orig_len ctxt) (dc_len ctxt) (length ps) r"
  proof
    fix r assume r: "r \<in> set ps"
    then have "req_total r \<in> req_total ` set (queued ctxt)" using arg_cong [OF p(7), of set] by auto
    then show "in_step (dc_orig_len ctxt) (dc_len ctxt) (length ps) r"
      using i p(8) r by (auto simp: in_step_def)
  qed
  then have "prog_inv ?c'" using p(2-4) i q unfolding prog_inv_def by auto
  moreover have "reqs ?c' = reqs ctxt" using p(6) i by (simp add: reqs_def)
  moreover have "src_length same = src_length (set_aligned_same_length fsb ?c' same)"
    using p(5) s0(3) by (simp add: set_aligned_same_length_def)
  ultimately show ?thesis using pop by (intro exI [of _ ?c']) simp
qed

lemma word_minus_smaller: "0 < n \<Longrightarrow> n \<le> (len :: u64) \<Longrightarrow> len - n < len"
  by (simp add: word_less_nat_alt word_le_nat_alt unat_sub)

lemma word_minus_le: "m \<le> (len :: u64) \<Longrightarrow> len - m \<le> len"
  by (simp add: word_le_nat_alt unat_sub)

lemma process_dedupes_ok:
  assumes inv: "prog_inv ctxt" and n: "n \<le> dc_len ctxt" "0 < n"
    and k: "\<forall>i < length (in_progress ctxt). bytes_deduped (infos (dc_same ctxt) ! i) =
      (if info_status (infos (dc_same ctxt) ! i) = 0 then n else 0)"
  shows "\<exists>ctxt'. process_dedupes fsb ctxt = Some ctxt' \<and> loop_inv ctxt' \<and> reqs ctxt' = reqs ctxt \<and>
    dc_orig_len ctxt' = dc_orig_len ctxt \<and> (queued ctxt' = [] \<or> dc_len ctxt' < dc_len ctxt) \<and> dc_len ctxt' \<le> dc_len ctxt \<and>
    (\<forall>r \<in> set (completed ctxt'). r \<in> set (completed ctxt) \<or> finished fsb (dc_orig_len ctxt) r)"
proof -
  note i = inv [unfolded prog_inv_def]
  let ?t = "dc_orig_len ctxt - dc_len ctxt"
  have pre: "\<forall>r \<in> set (in_progress ctxt). unat (req_idx r) < length (infos (dc_same ctxt)) \<and> req_total r = ?t \<and>
      bytes_deduped (infos (dc_same ctxt) ! unat (req_idx r)) =
        (if info_status (infos (dc_same ctxt) ! unat (req_idx r)) = 0 then n else 0)"
    using i k by (auto simp: in_step_def)
  obtain qs cs m where r: "process_loop (dc_same ctxt) (in_progress ctxt) ctxt 0 = Some (ctxt\<lparr>in_progress := [],
      queued := queued ctxt @ qs, num_queued := num_queued ctxt + of_nat (length qs), completed := completed ctxt @ cs\<rparr>, m)"
    "mset (map req_of qs) + mset (map req_of cs) = mset (map req_of (in_progress ctxt))" "length qs \<le> length (in_progress ctxt)"
    "\<forall>r \<in> set qs. req_total r = ?t + n \<and> ?t + n < dc_orig_len ctxt"
    "\<forall>r \<in> set cs. req_status r \<noteq> 0 \<or> req_total r \<ge> dc_orig_len ctxt" "m \<le> n" "qs \<noteq> [] \<or> 0 = n \<longrightarrow> m = n"
    using process_loop_ok [OF pre refl word_zero_le] by blast
  define c where "c = ctxt\<lparr>in_progress := [], queued := qs, num_queued := of_nat (length qs), completed := completed ctxt @ cs,
    dc_len := dc_len ctxt - m, dc_ioctl_file_off := dc_ioctl_file_off ctxt + m\<rparr>"
  have pr: "process_dedupes fsb ctxt = Some (if fsb \<noteq> 0 \<and> dc_len c < ucast fsb
      then c\<lparr>queued := [], completed := queued c @ completed c\<rparr> else c)"
    using r(1) i by (simp add: process_dedupes_def c_def)
  have mle: "m \<le> dc_len ctxt" using r(6) n(1) by simp
  then have le: "dc_len ctxt - m \<le> dc_len ctxt" by (rule word_minus_le)
  have tot: "\<forall>r \<in> set qs. req_total r = dc_orig_len ctxt - (dc_len ctxt - m) \<and> req_total r < dc_orig_len ctxt"
  proof
    fix x assume x: "x \<in> set qs"
    then have "m = n" using r(7) by auto
    then have "?t + n = dc_orig_len ctxt - (dc_len ctxt - m)" by simp
    then show "req_total x = dc_orig_len ctxt - (dc_len ctxt - m) \<and> req_total x < dc_orig_len ctxt"
      using r(4) x by metis
  qed
  have li: "loop_inv c" using i r(3) tot le by (auto simp: loop_inv_def c_def)
  have rq: "reqs c = reqs ctxt" using r(2) i by (simp add: reqs_def c_def)
  have dec: "qs \<noteq> [] \<Longrightarrow> dc_len c < dc_len ctxt" using r(7) word_minus_smaller [OF n(2,1)] by (simp add: c_def)
  have fin: "\<forall>r \<in> set cs. finished fsb (dc_orig_len ctxt) r" using r(5) by (auto simp: finished_def)
  show ?thesis
  proof (cases "fsb \<noteq> 0 \<and> dc_len c < ucast fsb")
    case False
    with pr have "process_dedupes fsb ctxt = Some c" by (simp only: if_False)
    moreover have "queued c = qs" "completed c = completed ctxt @ cs" "dc_orig_len c = dc_orig_len ctxt"
      "dc_len c = dc_len ctxt - m" by (simp_all add: c_def)
    ultimately show ?thesis using li rq dec fin le by auto
  next
    case True
    let ?c = "c\<lparr>queued := [], completed := queued c @ completed c\<rparr>"
    have f: "finished fsb (dc_orig_len ctxt) r" if "r \<in> set qs" for r
    proof -
      have "dc_orig_len ctxt - req_total r = dc_len c" using tot that by (simp add: c_def)
      with True show ?thesis by (simp add: finished_def)
    qed
    have "process_dedupes fsb ctxt = Some ?c" using pr True by simp
    moreover have "loop_inv ?c" "reqs ?c = reqs c" using li by (simp_all add: loop_inv_def reqs_def ac_simps)
    moreover have "dc_orig_len ?c = dc_orig_len ctxt" "dc_len ?c = dc_len ctxt - m" "queued ?c = []"
        "completed ?c = qs @ completed ctxt @ cs" by (simp_all add: c_def)
    ultimately show ?thesis using rq le fin f by (intro exI [of _ ?c]) auto
  qed
qed

subsection \<open>The loop\<close>

text \<open>What one turn of the loop owes.\<close>

definition turn_ok :: "u32 \<Rightarrow> dedupe_ctxt \<Rightarrow> int \<Rightarrow> u32 \<Rightarrow> dedupe_ctxt \<Rightarrow> bool" where
  "turn_ok fsb ctxt ret fsb' ctxt' \<longleftrightarrow> reqs ctxt' = reqs ctxt \<and> dc_orig_len ctxt' = dc_orig_len ctxt \<and>
     (fsb' = 0 \<or> block_size_ok fsb') \<and> (fsb \<noteq> 0 \<longrightarrow> fsb' = fsb) \<and>
     (ret = 0 \<longrightarrow> loop_inv ctxt' \<and> (queued ctxt' = [] \<or> dc_len ctxt' < dc_len ctxt) \<and>
       (\<forall>r \<in> set (completed ctxt'). r \<in> set (completed ctxt) \<or> finished fsb' (dc_orig_len ctxt) r))"

lemma reqs_same [simp]: "reqs (ctxt\<lparr>dc_same := s\<rparr>) = reqs ctxt"
  by (simp add: reqs_def)

lemma prog_len:
  assumes "prog_inv ctxt"
  shows "0 < dc_len ctxt"
proof (rule ccontr)
  assume "\<not> 0 < dc_len ctxt"
  then have z: "dc_len ctxt = 0" by (simp add: word_gt_0)
  have "hd (in_progress ctxt) \<in> set (in_progress ctxt)" using assms by (simp add: prog_inv_def)
  then have "dc_orig_len ctxt - dc_len ctxt < dc_orig_len ctxt"
    using assms unfolding prog_inv_def in_step_def by metis
  with z show False by simp
qed

lemma dedupe_once:
  assumes inv: "prog_inv ctxt" and io: "kernel_ok io" and fsb: "fsb = 0 \<or> block_size_ok fsb"
    and len: "dc_orig_len ctxt < 2 ^ 32"
    and sl: "src_length (dc_same ctxt) = src_length (set_aligned_same_length fsb ctxt (dc_same ctxt))"
    and call: "io w (dc_same ctxt) = (0, same, w')"
  shows "\<exists>ctxt'. process_dedupes fsb (ctxt\<lparr>dc_same := same\<rparr>) = Some ctxt' \<and> turn_ok fsb ctxt 0 fsb ctxt'"
proof -
  note i = inv [unfolded prog_inv_def]
  obtain n where n: "n \<le> src_length (dc_same ctxt)" "0 < src_length (dc_same ctxt) \<longrightarrow> 0 < n"
      "\<forall>i < min (unat (dest_count (dc_same ctxt))) (length (infos (dc_same ctxt))). bytes_deduped (infos same ! i) = (if info_status (infos same ! i) = 0 then n else 0)"
    and s: "dest_count same = dest_count (dc_same ctxt)" "length (infos same) = length (infos (dc_same ctxt))"
    using io call unfolding kernel_ok_def by blast
  have cl: "dc_len ctxt < 2 ^ 32" using i len by (meson order_le_less_trans)
  have dest: "unat (dest_count (dc_same ctxt)) = length (in_progress ctxt)"
    using i unat_u16 [of "length (in_progress ctxt)"] by simp
  have inv': "prog_inv (ctxt\<lparr>dc_same := same\<rparr>)" using inv s by (simp add: prog_inv_def)
  have "n \<le> dc_len ctxt" using n(1) sl aligned_length(1) [OF fsb cl] by (metis order_trans)
  moreover have "0 < n" using n(2) sl aligned_length(2) [OF fsb cl prog_len [OF inv]] by metis
  ultimately obtain ctxt' where "process_dedupes fsb (ctxt\<lparr>dc_same := same\<rparr>) = Some ctxt'" "loop_inv ctxt'"
      "reqs ctxt' = reqs ctxt" "dc_orig_len ctxt' = dc_orig_len ctxt" "queued ctxt' = [] \<or> dc_len ctxt' < dc_len ctxt"
      "\<forall>r \<in> set (completed ctxt'). r \<in> set (completed ctxt) \<or> finished fsb (dc_orig_len ctxt) r"
    using process_dedupes_ok [OF inv', of n fsb] n(3) dest i by auto
  with fsb show ?thesis by (auto simp: turn_ok_def)
qed

lemma dedupe_retry_ok:
  assumes inv: "prog_inv ctxt" and io: "kernel_ok io" and fsb: "fsb = 0 \<or> block_size_ok fsb"
    and st: "block_size_ok (get_fs_blocksize statfs_reply)" and len: "dc_orig_len ctxt < 2 ^ 32"
    and sl: "src_length (dc_same ctxt) = src_length (set_aligned_same_length fsb ctxt (dc_same ctxt))"
  shows "\<exists>ret fsb' ctxt' w'. dedupe_retry io statfs_reply fsb ctxt w = Some (ret, fsb', ctxt', w') \<and>
    turn_ok fsb ctxt ret fsb' ctxt'"
  using inv fsb len sl
proof (induction "if fsb = 0 then 1 else 0 :: nat" arbitrary: fsb ctxt w rule: less_induct)
  case less
  obtain ret same w' where call: "io w (dc_same ctxt) = (ret, same, w')" by (metis prod_cases3)
  let ?c = "ctxt\<lparr>dc_same := same\<rparr>"
  show ?case
  proof (cases "ret = 0")
    case False
    then have "dedupe_retry io statfs_reply fsb ctxt w = Some (ret, fsb, ?c, w')"
      using call by (subst dedupe_retry.simps) simp
    with False less.prems(2) show ?thesis by (auto simp: turn_ok_def)
  next
    case True
    show ?thesis
    proof (cases "infos same \<noteq> [] \<and> info_status (hd (infos same)) = - EINVAL \<and> fsb = 0")
      case False
      obtain ctxt' where "process_dedupes fsb ?c = Some ctxt'" "turn_ok fsb ctxt 0 fsb ctxt'"
        using dedupe_once [OF less.prems(1) io less.prems(2,3,4)] call True by blast
      moreover have "dedupe_retry io statfs_reply fsb ctxt w =
          Option.bind (process_dedupes fsb ?c) (\<lambda>ctxt. Some (0, fsb, ctxt, w'))"
        using call True False by (subst dedupe_retry.simps) auto
      ultimately show ?thesis by auto
    next
      case again: True
      define b where "b = get_fs_blocksize statfs_reply"
      let ?c' = "ctxt\<lparr>dc_same := set_aligned_same_length b ?c same\<rparr>"
      have step: "dedupe_retry io statfs_reply fsb ctxt w = dedupe_retry io statfs_reply b ?c' w'"
        using call True again by (subst dedupe_retry.simps) (simp add: b_def Let_def)
      have b: "block_size_ok b" "b \<noteq> 0" using st by (auto simp: b_def block_size_ok_def)
      have "dest_count same = dest_count (dc_same ctxt)" "length (infos same) = length (infos (dc_same ctxt))"
        using io call True unfolding kernel_ok_def by blast+
      then have "prog_inv ?c'" using less.prems(1) by (simp add: prog_inv_def set_aligned_same_length_def)
      moreover have "src_length (dc_same ?c') = src_length (set_aligned_same_length b ?c' (dc_same ?c'))"
        by (simp add: set_aligned_same_length_def)
      ultimately obtain ret' fsb' ctxt' w'' where "dedupe_retry io statfs_reply b ?c' w' = Some (ret', fsb', ctxt', w'')"
          "turn_ok b ?c' ret' fsb' ctxt'"
        using less.hyps [of b ?c' w'] again b less.prems(3) by auto
      with step again show ?thesis by (auto simp: turn_ok_def)
    qed
  qed
qed

lemma dedupe_extents_ok:
  assumes io: "kernel_ok io" and st: "block_size_ok (get_fs_blocksize statfs_reply)"
  shows "loop_inv ctxt \<Longrightarrow> fsb = 0 \<or> block_size_ok fsb \<Longrightarrow> dc_orig_len ctxt < 2 ^ 32 \<Longrightarrow>
    \<forall>r \<in> set (completed ctxt). finished fsb (dc_orig_len ctxt) r \<Longrightarrow>
    \<exists>ret' fsb' ctxt' w'. dedupe_extents io fds statfs_reply 0 fsb ctxt w = Some (ret', fsb', ctxt', w') \<and>
      reqs ctxt' = reqs ctxt \<and> (fsb' = 0 \<or> block_size_ok fsb') \<and>
      (ret' = 0 \<longrightarrow> queued ctxt' = [] \<and> in_progress ctxt' = [] \<and>
        (\<forall>r \<in> set (completed ctxt'). finished fsb' (dc_orig_len ctxt) r))"
proof (induction "unat (dc_len ctxt)" arbitrary: fsb ctxt w rule: less_induct)
  case less
  show ?case
  proof (cases "queued ctxt = []")
    case True
    then have "dedupe_extents io fds statfs_reply 0 fsb ctxt w = Some (0, fsb, ctxt, w)"
      by (subst dedupe_extents.simps) simp
    with True less.prems show ?thesis by (auto simp: loop_inv_def)
  next
    case False
    obtain c where c: "populate_dedupe_request fds fsb ctxt = Some c" "prog_inv c" "reqs c = reqs ctxt"
        "dc_len c = dc_len ctxt" "dc_orig_len c = dc_orig_len ctxt" "completed c = completed ctxt"
        "src_length (dc_same c) = src_length (set_aligned_same_length fsb c (dc_same c))"
      using populate_ok [OF less.prems(1) False] by blast
    have "dc_orig_len c < 2 ^ 32" using c(5) less.prems(3) by simp
    from dedupe_retry_ok [OF c(2) io less.prems(2) st this c(7)] obtain ret fsb1 c1 w1 where
      r: "dedupe_retry io statfs_reply fsb c w = Some (ret, fsb1, c1, w1)" "turn_ok fsb c ret fsb1 c1" by blast
    note t = r(2) [unfolded turn_ok_def c(3-6)]
    have step: "dedupe_extents io fds statfs_reply 0 fsb ctxt w =
        (if ret \<noteq> 0 then Some (ret, fsb1, c1, w1) else dedupe_extents io fds statfs_reply ret fsb1 c1 w1)"
      using False c(1) r(1) by (subst dedupe_extents.simps) simp
    show ?thesis
    proof (cases "ret = 0")
      case False
      with step t show ?thesis by auto
    next
      case True
      have fin: "\<forall>r \<in> set (completed c1). finished fsb1 (dc_orig_len c1) r"
        using t less.prems(4) True by (auto simp: finished_def)
      show ?thesis
      proof (cases "queued c1 = []")
        case q: True
        then have "dedupe_extents io fds statfs_reply 0 fsb1 c1 w1 = Some (0, fsb1, c1, w1)"
          by (subst dedupe_extents.simps) simp
        with step True t q fin show ?thesis by (auto simp: loop_inv_def)
      next
        case False
        then have "unat (dc_len c1) < unat (dc_len ctxt)" using t True by (simp add: word_less_nat_alt)
        from less.hyps [OF this, of fsb1 w1] t True fin less.prems(3) step show ?thesis by auto
      qed
    qed
  qed
qed

section \<open>The properties of the dedupe requests\<close>

text \<open>A kernel that dedupes everything it is asked for, for the examples.\<close>

definition example_ioctl :: "unit \<Rightarrow> dedupe_range \<Rightarrow> int \<times> dedupe_range \<times> unit" where
  "example_ioctl w s = (0, s\<lparr>infos := map (\<lambda>i. i\<lparr>bytes_deduped := src_length s, info_status := 0\<rparr>) (infos s)\<rparr>, ())"

definition example_ctxt :: dedupe_ctxt where
  "example_ctxt = \<lparr>dc_orig_len = 8192, dc_orig_file_off = 0, dc_len = 8192, dc_ioctl_file = 64, dc_ioctl_file_off = 0,
     max_queable = 1, num_queued = 1,
     queued = [\<lparr>req_file = 65, req_loff = 4096, req_total = 0, req_status = 0, req_idx = 0\<rparr>],
     in_progress = [], completed = [], dc_same = zero_same 1\<rparr>"

lemma example_block_size: "block_size_ok 4096"
  unfolding block_size_ok_def by (intro exI [of _ 12]) simp

lemma example_loop_inv: "loop_inv example_ctxt"
  by (simp add: loop_inv_def example_ctxt_def zero_same_def)

text \<open>
  C6. \<open>dedupe_extents\<close>, on a length of less than 4 GiB, with a file system whose block size is a power of two, and
  with a kernel whose \<open>ioctl\<close>, when it succeeds, advances all destinations that have no error by the same
  number of bytes, at least one and at most what was asked for, ends without aborting. No request is lost,
  duplicated or changed in what it is about, and when no ioctl failed every request is completed:
  the kernel gave it a final status, or all bytes were processed, or less than a file system block was left.
\<close>

theorem dedupe_extents_correct:
  assumes "kernel_ok io" "block_size_ok (get_fs_blocksize statfs_reply)" "loop_inv ctxt" "dc_orig_len ctxt < 2 ^ 32"
    and "fsb = 0 \<or> block_size_ok fsb" "completed ctxt = []"
  shows "\<exists>ret' fsb' ctxt' w'. dedupe_extents io fds statfs_reply 0 fsb ctxt w = Some (ret', fsb', ctxt', w') \<and>
    reqs ctxt' = reqs ctxt \<and>
    (ret' = 0 \<longrightarrow> queued ctxt' = [] \<and> in_progress ctxt' = [] \<and>
      (\<forall>r \<in> set (completed ctxt'). finished fsb' (dc_orig_len ctxt) r))"
  using dedupe_extents_ok [OF assms(1,2,3,5,4), of fds w] assms(6) by auto

lemma example_kernel: "kernel_ok example_ioctl"
  unfolding kernel_ok_def example_ioctl_def by (auto intro!: exI)

theorem dedupe_extents_correct_witness:
  "\<exists>ret' fsb' ctxt' w'. dedupe_extents example_ioctl int (0, 4096) 0 0 example_ctxt () = Some (ret', fsb', ctxt', w') \<and>
     reqs ctxt' = {#(65, 4096)#}"
proof -
  have "dc_orig_len example_ctxt < 2 ^ 32" "completed example_ctxt = []" "reqs example_ctxt = {#(65, 4096)#}"
    "get_fs_blocksize (0, 4096) = 4096"
    by (simp_all add: example_ctxt_def reqs_def req_of_def get_fs_blocksize_def)
  then show ?thesis
    using dedupe_extents_correct [OF example_kernel _ example_loop_inv, of "(0, 4096)" 0 int "()"] example_block_size
    by auto
qed

lemma sint_small:
  assumes "unat (x :: u32) < 2 ^ 16"
  shows "sint x = int (unat x)"
proof -
  have "uint x = int (unat x)" by simp
  moreover have "int (unat x) < int (2 ^ 16)" using assms by (simp only: of_nat_less_iff)
  ultimately have "uint x < 2 ^ 16" by simp
  then have lt: "uint x < 2 ^ 31" by simp
  have "- (2 ^ 31) \<le> uint x" by (rule order_trans [OF _ uint_ge_0]) simp
  from signed_take_bit_int_eq_self [OF this lt] have "signed_take_bit 31 (uint x) = uint x" .
  then have "sint x = uint x" by (simp add: sint_uint)
  then show ?thesis by simp
qed

lemma add_extent_to_dedupe_ok:
  fixes loff :: u64 and fl :: fptr
  assumes "loop_inv ctxt" "num_queued ctxt = of_nat (length (queued ctxt))" "length (queued ctxt) < unat (max_queable ctxt)"
    and "dc_len ctxt = dc_orig_len ctxt" "0 < dc_len ctxt"
  defines "ctxt' \<equiv> ctxt\<lparr>queued := queued ctxt @ [\<lparr>req_file = fl, req_loff = loff, req_total = 0, req_status = 0, req_idx = 0\<rparr>],
      num_queued := num_queued ctxt + 1\<rparr>"
  shows "add_extent_to_dedupe True ctxt loff fl = Some (int (unat (max_queable ctxt) - length (queued ctxt) - 1), ctxt')"
    and "loop_inv ctxt'" and "reqs ctxt' = add_mset (fl, loff) (reqs ctxt)"
proof -
  note i = assms(1) [unfolded loop_inv_def]
  let ?req = "\<lparr>req_file = fl, req_loff = loff, req_total = 0, req_status = 0, req_idx = 0\<rparr>"
  let ?c = "ctxt\<lparr>queued := queued ctxt @ [?req], num_queued := num_queued ctxt + 1\<rparr>"
  have u: "unat (of_nat n :: u32) = n" if "n < 2 ^ 16" for n
    using that by (simp add: unsigned_of_nat take_bit_nat_eq_self)
  have nq: "unat (num_queued ctxt) = length (queued ctxt)" "unat (num_queued ?c) = length (queued ctxt) + 1"
    using assms(2,3) i u [of "length (queued ctxt)"] u [of "Suc (length (queued ctxt))"] by (simp_all add: add.commute)
  have le: "num_queued ?c \<le> max_queable ctxt" using nq(2) assms(3) by (simp add: word_le_nat_alt)
  have d: "unat (max_queable ctxt - num_queued ?c) = unat (max_queable ctxt) - length (queued ctxt) - 1"
    using le nq(2) by (simp add: unat_sub)
  have "sint (max_queable ctxt - num_queued ?c) = int (unat (max_queable ctxt) - length (queued ctxt) - 1)"
  proof -
    have "unat (max_queable ctxt) < 2 ^ 16" using i by simp
    then have "unat (max_queable ctxt - num_queued ?c) < 2 ^ 16" using d by linarith
    from sint_small [OF this] show ?thesis unfolding d .
  qed
  then show "add_extent_to_dedupe True ctxt loff fl = Some (int (unat (max_queable ctxt) - length (queued ctxt) - 1), ctxt')"
    using nq(1) assms(3) by (simp add: ctxt'_def add_extent_to_dedupe_def new_dedupe_req_def word_le_nat_alt)
  show "loop_inv ctxt'" using i assms(2-5) by (auto simp: loop_inv_def ctxt'_def)
  show "reqs ctxt' = add_mset (fl, loff) (reqs ctxt)" by (simp add: reqs_def req_of_def ctxt'_def)
qed

end
