(* ===== verification/Csum.thy ===== *)
theory Csum
  imports Prelude
begin

text \<open>
  Checksums, \<open>csum.c\<close>. The hash itself, XXH3 with 128 bits, is code of another project and a
  parameter: a record of the one-shot function and of the three calls on a streaming state. A
  result is the pair of its 64 bit halves, low half first. The digest in memory is the two halves
  one after the other, each with its least significant byte first.

  \<open>xxh3_ok\<close> is the documented law of the library: the digest of a stream is the hash of the bytes
  that were fed to it, however they were cut.
\<close>

record 's xxh3 =
  XXH128 :: "u8 list \<Rightarrow> u64 \<times> u64"
  XXH3_128bits_reset :: 's
  XXH3_128bits_update :: "'s \<Rightarrow> u8 list \<Rightarrow> 's"
  XXH3_128bits_digest :: "'s \<Rightarrow> u64 \<times> u64"

definition le_bytes :: "u64 \<Rightarrow> u8 list" where
  "le_bytes w = map (\<lambda>i. ucast (drop_bit (8 * i) w)) [0..<8]"

definition hash_digest :: "u64 \<times> u64 \<Rightarrow> digest" where
  "hash_digest h = le_bytes (fst h) @ le_bytes (snd h)"

definition checksum_block :: "'s xxh3 \<Rightarrow> u8 list \<Rightarrow> digest" where
  "checksum_block X buf = hash_digest (XXH128 X buf)"

definition start_running_checksum :: "'s xxh3 \<Rightarrow> 's" where
  "start_running_checksum X = XXH3_128bits_reset X"

definition add_to_running_checksum :: "'s xxh3 \<Rightarrow> 's \<Rightarrow> u8 list \<Rightarrow> 's" where
  "add_to_running_checksum X c buf = XXH3_128bits_update X c buf"

definition finish_running_checksum :: "'s xxh3 \<Rightarrow> 's \<Rightarrow> digest" where
  "finish_running_checksum X c = hash_digest (XXH3_128bits_digest X c)"

section \<open>Lemmas\<close>

definition xxh3_ok :: "'s xxh3 \<Rightarrow> bool" where
  "xxh3_ok X \<longleftrightarrow> (\<forall>bufs. XXH3_128bits_digest X (foldl (XXH3_128bits_update X) (XXH3_128bits_reset X) bufs) = XXH128 X (concat bufs))"

lemma digest_length [simp]: "length (hash_digest h) = DIGEST_LEN"
  by (simp add: hash_digest_def le_bytes_def DIGEST_LEN_def)

text \<open>The running checksum of some buffers is the checksum of their concatenation.\<close>

lemma running_checksum_concat:
  assumes "xxh3_ok X"
  shows "finish_running_checksum X (foldl (add_to_running_checksum X) (start_running_checksum X) bufs) =
    checksum_block X (concat bufs)"
proof -
  have "add_to_running_checksum X = XXH3_128bits_update X" by (simp add: fun_eq_iff add_to_running_checksum_def)
  with assms show ?thesis
    by (simp add: xxh3_ok_def finish_running_checksum_def start_running_checksum_def checksum_block_def)
qed

lemma le_bytes_inj: "le_bytes v = le_bytes w \<Longrightarrow> v = w"
proof (rule bit_word_eqI)
  fix n
  assume eq: "le_bytes v = le_bytes w" and n: "n < LENGTH(64)"
  have "n div 8 < 8" using n by simp
  then have "(ucast (drop_bit (8 * (n div 8)) v) :: u8) = ucast (drop_bit (8 * (n div 8)) w)"
    using arg_cong [OF eq, of "\<lambda>bs. bs ! (n div 8)"] by (simp add: le_bytes_def)
  then have "bit (ucast (drop_bit (8 * (n div 8)) v) :: u8) (n mod 8) = bit (ucast (drop_bit (8 * (n div 8)) w) :: u8) (n mod 8)"
    by simp
  then show "bit v n = bit w n" by (simp add: bit_ucast_iff bit_drop_bit_eq)
qed

text \<open>Writing the two halves into memory loses nothing: equal digests are equal hashes.\<close>

lemma hash_digest_inj: "hash_digest g = hash_digest h \<longleftrightarrow> g = h"
proof
  assume "hash_digest g = hash_digest h"
  then have "le_bytes (fst g) = le_bytes (fst h)" "le_bytes (snd g) = le_bytes (snd h)"
    by (simp_all add: hash_digest_def le_bytes_def)
  then show "g = h" by (simp add: le_bytes_inj prod_eq_iff)
qed simp

text \<open>A streaming state that keeps its input, with a sum as the hash, for the examples.\<close>

definition example_xxh3 :: "u8 list xxh3" where
  "example_xxh3 = \<lparr>XXH128 = (\<lambda>bs. (sum_list (map ucast bs), of_nat (length bs))), XXH3_128bits_reset = [],
     XXH3_128bits_update = (@), XXH3_128bits_digest = (\<lambda>bs. (sum_list (map ucast bs), of_nat (length bs)))\<rparr>"

lemma foldl_append: "foldl (@) as bss = as @ concat bss"
  by (induction bss arbitrary: as) simp_all

lemma example_xxh3_ok: "xxh3_ok example_xxh3"
  by (simp add: xxh3_ok_def example_xxh3_def foldl_append)

end
