(* ===== verification/FindDupes.thy ===== *)
theory FindDupes
  imports HashTree ResultsTree Csum "HOL-Library.Sublist"
begin

text \<open>
  The search for duplicates inside extents, \<open>find_dupes.c\<close>. \<open>compare_extents\<close> walks the blocks of
  two files in step, through the trees of \<open>Filerec\<close>, and records the runs of equal blocks it finds
  in the results tree. A block is equal to another when both belong to the same
  \<open>dupe_blocks_list\<close>, that is, when their digests are equal.

  The hash for the identifier of a match is the parameter \<open>X\<close> of \<open>Csum\<close>, \<open>rooms\<close> tells which of
  the allocations of \<open>insert_result\<close> succeed, \<open>blocksize\<close> is the global of that name, and
  \<open>load_extent\<close> and \<open>load_extents\<close> are the answers of the database. An exit for lack of memory is
  \<open>None\<close>, like an abort.

  \<open>matches\<close> says what the walk records in terms of the two lists of blocks, without trees or
  cursors, and \<open>compare_extents\<close> is proved to be that walk.
\<close>

record file_extent =
  fx_poff :: u64
  fx_loff :: u64
  fx_len :: u64

type_synonym block_pair = "file_block \<times> file_block"

section \<open>Model\<close>

definition block_len :: "u32 \<Rightarrow> filerecs \<Rightarrow> file_block \<Rightarrow> u64 option" where
  "block_len blocksize st block = do {
     r \<leftarrow> recs st (b_file block);
     Some (if b_loff block + ucast blocksize \<le> fsize r then ucast blocksize
           else if b_loff block \<ge> fsize r then 0
           else (fsize r - b_loff block) mod ucast blocksize)
   }"

definition record_match ::
    "(results_tree \<Rightarrow> bool \<times> bool \<times> bool) \<Rightarrow> u32 \<Rightarrow> filerecs \<Rightarrow> results_tree \<Rightarrow> digest \<Rightarrow> fptr \<Rightarrow> fptr \<Rightarrow>
     block_pair \<Rightarrow> block_pair \<Rightarrow> results_tree option" where
  "record_match rooms blocksize st res digest orig walk start ends = do {
     abort_on (b_file (fst start) \<noteq> orig);
     abort_on (b_file (snd start) \<noteq> walk);
     len0 \<leftarrow> block_len blocksize st (fst ends);
     len1 \<leftarrow> block_len blocksize st (snd ends);
     let eoff0 = len0 + b_loff (fst ends) - 1;
     let eoff1 = len1 + b_loff (snd ends) - 1;
     let (room0, room1, droom) = rooms res;
     (ret, res) \<leftarrow> insert_result room0 room1 droom res digest (b_file (fst start), b_file (snd start))
       (b_loff (fst start), b_loff (snd start)) (eoff0, eoff1);
     if ret \<noteq> 0 then None else Some res
   }"

text \<open>\<open>rb_next\<close> on the node of a block in the tree of its file.\<close>

definition block_next :: "filerecs \<Rightarrow> file_block \<Rightarrow> file_block option option" where
  "block_next st b = do {
     r \<leftarrow> recs st (b_file b);
     p \<leftarrow> rb_locate (\<lambda>x. word_cmp (b_loff b) (b_loff x)) (block_tree r) [];
     Some (map_option cursor_item (rb_next p))
   }"

definition get_next_block :: "filerecs \<Rightarrow> file_block \<Rightarrow> file_block option" where
  "get_next_block st b = do { node \<leftarrow> block_next st b; node }"

definition end_of_block_list :: "filerecs \<Rightarrow> file_block \<Rightarrow> bool option" where
  "end_of_block_list st b = do { node \<leftarrow> block_next st b; Some (node = None) }"

text \<open>The first loop of \<open>compare_extents\<close>. \<open>Some None\<close> is its early return.\<close>

partial_function (option) fast_forward ::
    "filerecs \<Rightarrow> u64 \<Rightarrow> file_block \<Rightarrow> file_block \<Rightarrow> block_pair option option" where
  "fast_forward st extent_end orig block =
     (if b_parent block \<noteq> b_parent orig \<and> b_loff block < extent_end then do {
        eo \<leftarrow> end_of_block_list st orig;
        eb \<leftarrow> end_of_block_list st block;
        if eo \<or> eb then Some None
        else do {
          orig \<leftarrow> get_next_block st orig;
          block \<leftarrow> get_next_block st block;
          fast_forward st extent_end orig block
        }
      }
      else Some (Some (orig, block)))"

text \<open>The second loop: \<open>matchmore\<close>, \<open>end\<close>, the checksum, \<open>orig\<close> and \<open>block\<close>.\<close>

partial_function (option) match_loop ::
    "'s xxh3 \<Rightarrow> u32 \<Rightarrow> filerecs \<Rightarrow> u64 \<Rightarrow> block_pair option \<Rightarrow> 's \<Rightarrow> file_block \<Rightarrow> file_block \<Rightarrow>
     (bool \<times> block_pair option \<times> 's \<times> file_block \<times> file_block) option" where
  "match_loop X blocksize st extent_end ends csum orig block =
     (if b_parent block = b_parent orig \<and> b_loff block < extent_end then do {
        let ends = Some (orig, block);
        let csum = add_to_running_checksum X csum (b_parent block);
        eo \<leftarrow> end_of_block_list st orig;
        eb \<leftarrow> end_of_block_list st block;
        if eo \<or> eb then Some (False, ends, csum, orig, block)
        else do {
          let orig_blkno = b_loff orig;
          let walk_blkno = b_loff block;
          orig \<leftarrow> get_next_block st orig;
          block \<leftarrow> get_next_block st block;
          if b_loff orig \<noteq> orig_blkno + ucast blocksize \<or> b_loff block \<noteq> walk_blkno + ucast blocksize
          then Some (False, ends, csum, orig, block)
          else match_loop X blocksize st extent_end ends csum orig block
        }
      }
      else Some (True, ends, csum, orig, block))"

text \<open>\<open>compare_extents\<close> from the label \<open>next_match\<close>.\<close>

partial_function (option) next_match ::
    "'s xxh3 \<Rightarrow> (results_tree \<Rightarrow> bool \<times> bool \<times> bool) \<Rightarrow> u32 \<Rightarrow> filerecs \<Rightarrow> fptr \<Rightarrow> fptr \<Rightarrow> u64 \<Rightarrow>
     file_block \<Rightarrow> file_block \<Rightarrow> results_tree \<Rightarrow> (int \<times> results_tree) option" where
  "next_match X rooms blocksize st orig_file walk_file extent_end orig block res = do {
     let start = (orig, block);
     ff \<leftarrow> fast_forward st extent_end orig block;
     case ff of
       None \<Rightarrow> Some (0, res)
     | Some (orig, block) \<Rightarrow> do {
         (matchmore, ends, csum, orig, block) \<leftarrow>
           match_loop X blocksize st extent_end None (start_running_checksum X) orig block;
         let match_id = finish_running_checksum X csum;
         case ends of
           None \<Rightarrow> Some (0, res)
         | Some (e0, e1) \<Rightarrow> do {
             len \<leftarrow> block_len blocksize st e1;
             let match_end = len + b_loff e1 - 1;
             if match_end \<le> extent_end then do {
               res \<leftarrow> record_match rooms blocksize st res match_id orig_file walk_file start (e0, e1);
               if matchmore then do {
                 x0 \<leftarrow> end_of_block_list st e0;
                 x1 \<leftarrow> end_of_block_list st e1;
                 if x0 \<or> x1 then Some (0, res)
                 else if b_loff block > extent_end then Some (0, res)
                 else do {
                   orig \<leftarrow> get_next_block st e0;
                   block \<leftarrow> get_next_block st e1;
                   next_match X rooms blocksize st orig_file walk_file extent_end orig block res
                 }
               }
               else Some (0, res)
             }
             else Some (0, res)
           }
       }
   }"

definition compare_extents ::
    "'s xxh3 \<Rightarrow> (results_tree \<Rightarrow> bool \<times> bool \<times> bool) \<Rightarrow> u32 \<Rightarrow> filerecs \<Rightarrow> fptr \<Rightarrow> file_block \<Rightarrow> fptr \<Rightarrow> file_block \<Rightarrow>
     u64 \<Rightarrow> results_tree \<Rightarrow> (int \<times> results_tree) option" where
  "compare_extents X rooms blocksize st orig_file orig_file_block walk_file walk_file_block search_len res =
     next_match X rooms blocksize st orig_file walk_file (b_loff walk_file_block + search_len - 1)
       orig_file_block walk_file_block res"

text \<open>
  The loop of \<open>search_extent\<close> over \<open>dl_list\<close>. \<open>load_extent\<close> is the return code of
  \<open>dbfile_load_one_file_extent\<close> for a file and an offset.
\<close>

fun search_blocks ::
    "'s xxh3 \<Rightarrow> (results_tree \<Rightarrow> bool \<times> bool \<times> bool) \<Rightarrow> u32 \<Rightarrow> bool \<Rightarrow> (fptr \<Rightarrow> u64 \<Rightarrow> int) \<Rightarrow> filerecs \<Rightarrow> fptr \<Rightarrow>
     file_block \<Rightarrow> u64 \<Rightarrow> file_block list \<Rightarrow> results_tree \<Rightarrow> (int \<times> results_tree) option" where
  "search_blocks X rooms blocksize same_file load_extent st file block len [] res = Some (0, res)"
| "search_blocks X rooms blocksize same_file load_extent st file block len (found_block # bs) res =
     (if found_block = block \<or> \<not> same_file \<and> file = b_file found_block
      then search_blocks X rooms blocksize same_file load_extent st file block len bs res
      else
        let ret = load_extent (b_file found_block) (b_loff found_block) in
        if ret \<noteq> 0 then Some (ret, res)
        else do {
          (ret, res) \<leftarrow> compare_extents X rooms blocksize st file block (b_file found_block) found_block len res;
          if ret \<noteq> 0 then Some (ret, res)
          else search_blocks X rooms blocksize same_file load_extent st file block len bs res
        })"

definition search_extent ::
    "'s xxh3 \<Rightarrow> (results_tree \<Rightarrow> bool \<times> bool \<times> bool) \<Rightarrow> u32 \<Rightarrow> bool \<Rightarrow> (fptr \<Rightarrow> u64 \<Rightarrow> int) \<Rightarrow> hash_tree \<times> filerecs \<Rightarrow> fptr \<Rightarrow>
     file_extent \<Rightarrow> results_tree \<Rightarrow> (int \<times> results_tree) option" where
  "search_extent X rooms blocksize same_file load_extent s file extent res = do {
     let (tree, st) = s;
     r \<leftarrow> recs st file;
     case find_filerec_block r (fx_loff extent) of
       None \<Rightarrow> Some (0, res)
     | Some block \<Rightarrow> do {
         blocklist \<leftarrow> find_block_list tree (b_parent block);
         search_blocks X rooms blocksize same_file load_extent st file block (fx_len extent) (dl_list blocklist) res
       }
   }"

fun search_all ::
    "'s xxh3 \<Rightarrow> (results_tree \<Rightarrow> bool \<times> bool \<times> bool) \<Rightarrow> u32 \<Rightarrow> bool \<Rightarrow> (fptr \<Rightarrow> u64 \<Rightarrow> int) \<Rightarrow> hash_tree \<times> filerecs \<Rightarrow> fptr \<Rightarrow>
     file_extent list \<Rightarrow> results_tree \<Rightarrow> results_tree option" where
  "search_all X rooms blocksize same_file load_extent s file [] res = Some res"
| "search_all X rooms blocksize same_file load_extent s file (extent # xs) res = do {
     (ret, res) \<leftarrow> search_extent X rooms blocksize same_file load_extent s file extent res;
     if ret \<noteq> 0 then Some res else search_all X rooms blocksize same_file load_extent s file xs res
   }"

text \<open>\<open>load_extents\<close> is the return code and the rows of \<open>dbfile_load_nondupe_file_extents\<close>.\<close>

definition search_file_extents ::
    "'s xxh3 \<Rightarrow> (results_tree \<Rightarrow> bool \<times> bool \<times> bool) \<Rightarrow> u32 \<Rightarrow> bool \<Rightarrow> (fptr \<Rightarrow> u64 \<Rightarrow> int) \<Rightarrow> (fptr \<Rightarrow> int \<times> file_extent list) \<Rightarrow>
     bool \<Rightarrow> hash_tree \<times> filerecs \<Rightarrow> fptr \<Rightarrow> results_tree \<Rightarrow> results_tree option" where
  "search_file_extents X rooms blocksize same_file load_extent load_extents db_ok s file res =
     (if \<not> db_ok then Some res
      else
        let (ret, extents) = load_extents file in
        if ret \<noteq> 0 \<or> extents = [] then Some res
        else search_all X rooms blocksize same_file load_extent s file extents res)"

section \<open>The walk in terms of lists\<close>

text \<open>
  The two walks advance together, so they are one walk over pairs of blocks: the current pair and
  the pairs after it.
\<close>

definition same_hash :: "block_pair \<Rightarrow> bool" where
  "same_hash z \<longleftrightarrow> b_parent (snd z) = b_parent (fst z)"

definition below :: "u64 \<Rightarrow> block_pair \<Rightarrow> bool" where
  "below extent_end z \<longleftrightarrow> b_loff (snd z) < extent_end"

definition contiguous :: "u32 \<Rightarrow> block_pair \<Rightarrow> block_pair \<Rightarrow> bool" where
  "contiguous blocksize z y \<longleftrightarrow> b_loff (fst y) = b_loff (fst z) + ucast blocksize \<and>
     b_loff (snd y) = b_loff (snd z) + ucast blocksize"

fun skip :: "u64 \<Rightarrow> block_pair \<Rightarrow> block_pair list \<Rightarrow> (block_pair \<times> block_pair list) option" where
  "skip E z [] = (if \<not> same_hash z \<and> below E z then None else Some (z, []))"
| "skip E z (y # zs) = (if \<not> same_hash z \<and> below E z then skip E y zs else Some (z, y # zs))"

text \<open>A run of equal pairs, whether the walk goes on after it, and the pair it stopped at.\<close>

fun run :: "u32 \<Rightarrow> u64 \<Rightarrow> block_pair \<Rightarrow> block_pair list \<Rightarrow> block_pair list \<times> bool \<times> block_pair" where
  "run B E z [] = (if same_hash z \<and> below E z then ([z], False, z) else ([], True, z))"
| "run B E z (y # zs) =
     (if same_hash z \<and> below E z then
        if contiguous B z y then (case run B E y zs of (ps, again, w) \<Rightarrow> (z # ps, again, w)) else ([z], False, y)
      else ([], True, z))"

lemma skip_length: "skip E z zs = Some (y, ys) \<Longrightarrow> length ys \<le> length zs"
  by (induction E z zs rule: skip.induct) (auto split: if_splits)

lemma drop_Cons_length: "drop (length ps) (y # ys) = w # ws \<Longrightarrow> ps \<noteq> [] \<Longrightarrow> length ws < length ys"
  by (drule arg_cong [where f = length]) (cases ps; simp)

text \<open>What is recorded: the pair a match is said to start at, and the run that was found.\<close>

function matches :: "u32 \<Rightarrow> u64 \<Rightarrow> (file_block \<Rightarrow> u64) \<Rightarrow> block_pair \<Rightarrow> block_pair list \<Rightarrow> (block_pair \<times> block_pair list) list" where
  "matches B E len z zs = (case skip E z zs of
       None \<Rightarrow> []
     | Some (y, ys) \<Rightarrow> (case run B E y ys of (ps, again, w) \<Rightarrow>
         if ps = [] then []
         else if len (snd (last ps)) + b_loff (snd (last ps)) - 1 \<le> E then
           (z, ps) # (if again then (case drop (length ps) (y # ys) of
               [] \<Rightarrow> []
             | w' # ws \<Rightarrow> if b_loff (snd w') > E then [] else matches B E len w' ws) else [])
         else []))"
  by pat_completeness auto
termination
  by (relation "measure (\<lambda>(B, E, len, z, zs). length zs)") (auto dest!: skip_length drop_Cons_length)

declare matches.simps [simp del]

text \<open>The rows of the results tree a match stands for.\<close>

definition match_id :: "'s xxh3 \<Rightarrow> block_pair list \<Rightarrow> digest" where
  "match_id X ps = finish_running_checksum X (foldl (add_to_running_checksum X) (start_running_checksum X) (map (\<lambda>p. b_parent (snd p)) ps))"

definition found :: "'s xxh3 \<Rightarrow> (file_block \<Rightarrow> u64) \<Rightarrow> block_pair \<times> block_pair list \<Rightarrow> (group_key \<times> ext_key) set" where
  "found X len m = (case m of (z, ps) \<Rightarrow>
     {(len (fst (last ps)) + b_loff (fst (last ps)) - 1 - b_loff (fst z) + 1, match_id X ps)} \<times>
       {(b_file (fst z), b_loff (fst z)), (b_file (snd z), b_loff (snd z))})"

section \<open>The walk over the trees is the walk over the lists\<close>

definition from_block :: "filerecs \<Rightarrow> file_block \<Rightarrow> file_block list \<Rightarrow> bool" where
  "from_block st b bs \<longleftrightarrow> (\<exists>r xs. recs st (b_file b) = Some r \<and> rb_index b_loff word_cmp (block_tree r) \<and>
     rb_inorder (block_tree r) = xs @ b # bs \<and> (\<forall>x \<in> set bs. b_file x = b_file b))"

definition in_walk :: "filerecs \<Rightarrow> block_pair \<Rightarrow> block_pair list \<Rightarrow> bool" where
  "in_walk st z zs \<longleftrightarrow> (\<exists>os bs. from_block st (fst z) os \<and> from_block st (snd z) bs \<and> zs = zip os bs)"

lemma from_block_next:
  assumes "from_block st b bs"
  shows "block_next st b = Some (case bs of [] \<Rightarrow> None | x # _ \<Rightarrow> Some x)"
proof -
  obtain r xs where r: "recs st (b_file b) = Some r" "rb_index b_loff word_cmp (block_tree r)"
      "rb_inorder (block_tree r) = xs @ b # bs" using assms by (auto simp: from_block_def)
  from by_loff.locate_next [OF r(2,3)] r(1) show ?thesis by (auto simp: block_next_def)
qed

lemma from_block_Cons: "from_block st b (x # bs) \<Longrightarrow> from_block st x bs"
  unfolding from_block_def by (metis append.assoc append_Cons append_Nil list.set_intros(1,2))

lemma in_walk_end:
  assumes "in_walk st z []"
  shows "\<exists>eo eb. end_of_block_list st (fst z) = Some eo \<and> end_of_block_list st (snd z) = Some eb \<and> (eo \<or> eb)"
proof -
  obtain os bs where "from_block st (fst z) os" "from_block st (snd z) bs" "zip os bs = []"
    using assms by (auto simp: in_walk_def)
  then show ?thesis
    by (cases os; cases bs) (auto simp: from_block_next end_of_block_list_def)
qed

lemma in_walk_Cons:
  assumes "in_walk st z (y # zs)"
  shows "end_of_block_list st (fst z) = Some False" "end_of_block_list st (snd z) = Some False"
    "get_next_block st (fst z) = Some (fst y)" "get_next_block st (snd z) = Some (snd y)" "in_walk st y zs"
    "b_file (fst y) = b_file (fst z)" "b_file (snd y) = b_file (snd z)"
proof -
  obtain os bs where w: "from_block st (fst z) os" "from_block st (snd z) bs" "zip os bs = y # zs"
    using assms by (auto simp: in_walk_def)
  then obtain os' bs' where l: "os = fst y # os'" "bs = snd y # bs'" "zs = zip os' bs'"
    by (cases os; cases bs) auto
  have f: "from_block st (fst y) os'" "from_block st (snd y) bs'"
    using w(1,2) l by (auto dest: from_block_Cons)
  show "end_of_block_list st (fst z) = Some False" "end_of_block_list st (snd z) = Some False"
    "get_next_block st (fst z) = Some (fst y)" "get_next_block st (snd z) = Some (snd y)"
    using w l by (simp_all add: from_block_next end_of_block_list_def get_next_block_def)
  show "in_walk st y zs" using f l(3) by (auto simp: in_walk_def)
  show "b_file (fst y) = b_file (fst z)" "b_file (snd y) = b_file (snd z)"
    using w(1,2) l by (auto simp: from_block_def)
qed

lemma fast_forward_skip:
  "in_walk st z zs \<Longrightarrow> fast_forward st E (fst z) (snd z) = Some (map_option fst (skip E z zs)) \<and>
    (\<forall>y ys. skip E z zs = Some (y, ys) \<longrightarrow> in_walk st y ys \<and> b_file (fst y) = b_file (fst z) \<and> b_file (snd y) = b_file (snd z))"
proof (induction E z zs rule: skip.induct)
  case (1 E z)
  obtain eo eb where e: "end_of_block_list st (fst z) = Some eo" "end_of_block_list st (snd z) = Some eb" "eo \<or> eb"
    using in_walk_end [OF 1] by blast
  have "fast_forward st E (fst z) (snd z) = Some (if \<not> same_hash z \<and> below E z then None else Some z)"
    using e by (subst fast_forward.simps) (simp add: same_hash_def below_def)
  with 1 show ?case by auto
next
  case (2 E z y zs)
  note c = in_walk_Cons [OF "2.prems"]
  show ?case
  proof (cases "\<not> same_hash z \<and> below E z")
    case True
    then have "fast_forward st E (fst z) (snd z) = fast_forward st E (fst y) (snd y)"
      using c by (subst fast_forward.simps) (simp add: same_hash_def below_def)
    moreover have "skip E z (y # zs) = skip E y zs" by (simp only: skip.simps if_P [OF True])
    ultimately show ?thesis using "2.IH" [OF True c(5)] unfolding c(6,7) by metis
  next
    case False
    then have n: "\<not> (b_parent (snd z) \<noteq> b_parent (fst z) \<and> b_loff (snd z) < E)" by (simp add: same_hash_def below_def)
    have "fast_forward st E (fst z) (snd z) = Some (Some z)"
      by (subst fast_forward.simps) (simp only: if_not_P [OF n] prod.collapse)
    moreover have "skip E z (y # zs) = Some (z, y # zs)" by (simp only: skip.simps if_not_P [OF False])
    ultimately show ?thesis using "2.prems" by simp
  qed
qed

lemma match_loop_run:
  "in_walk st z zs \<Longrightarrow> run B E z zs = (ps, again, w) \<Longrightarrow>
   match_loop X B st E ends c (fst z) (snd z) = Some (again, if ps = [] then ends else Some (last ps),
     foldl (add_to_running_checksum X) c (map (\<lambda>p. b_parent (snd p)) ps), fst w, snd w)"
proof (induction B E z zs arbitrary: ends c ps again w rule: run.induct)
  case (1 B E z)
  obtain eo eb where e: "end_of_block_list st (fst z) = Some eo" "end_of_block_list st (snd z) = Some eb" "eo \<or> eb"
    using in_walk_end [OF "1.prems"(1)] by blast
  show ?case
  proof (cases "same_hash z \<and> below E z")
    case True
    then show ?thesis using "1.prems"(2) e by (subst match_loop.simps) (auto simp: same_hash_def below_def)
  next
    case False
    then show ?thesis using "1.prems"(2) by (subst match_loop.simps) (auto simp: same_hash_def below_def)
  qed
next
  case (2 B E z y zs)
  note c = in_walk_Cons [OF "2.prems"(1)]
  show ?case
  proof (cases "same_hash z \<and> below E z")
    case t: True
    have step: "match_loop X B st E ends c (fst z) (snd z) = (let c = add_to_running_checksum X c (b_parent (snd z)) in
        if contiguous B z y then match_loop X B st E (Some z) c (fst y) (snd y) else Some (False, Some z, c, fst y, snd y))"
      using t c by (subst match_loop.simps) (simp add: same_hash_def below_def contiguous_def Let_def)
    show ?thesis
    proof (cases "contiguous B z y")
      case True
      obtain qs where qs: "run B E y zs = (qs, again, w)" "ps = z # qs"
        using "2.prems"(2) t True by (auto split: prod.splits)
      from "2.IH" [OF t True c(5) qs(1)] step True qs(2) show ?thesis by simp
    next
      case False
      with "2.prems"(2) t step show ?thesis by auto
    qed
  next
    case False
    then show ?thesis using "2.prems"(2) by (subst match_loop.simps) (auto simp: same_hash_def below_def)
  qed
qed

lemma run_drop:
  "run B E z zs = (ps, again, w) \<Longrightarrow> ps @ drop (length ps) (z # zs) = z # zs \<and>
    (again \<longrightarrow> (\<exists>ws. drop (length ps) (z # zs) = w # ws))"
  by (induction B E z zs arbitrary: ps again w rule: run.induct) (auto split: if_splits prod.splits)

lemma in_walk_append:
  "in_walk st z zs \<Longrightarrow> z # zs = ps @ y # ys \<Longrightarrow>
    in_walk st y ys \<and> b_file (fst y) = b_file (fst z) \<and> b_file (snd y) = b_file (snd z)"
proof (induction ps arbitrary: z zs)
  case (Cons p ps)
  then have p: "zs = ps @ y # ys" by simp
  then obtain x xs where x: "zs = x # xs" by (metis list.exhaust append_is_Nil_conv list.distinct(1))
  note c = in_walk_Cons [OF Cons.prems(1) [unfolded x]]
  from Cons.IH [OF c(5)] p x c(6,7) show ?case by simp
qed simp

definition blen :: "u32 \<Rightarrow> filerecs \<Rightarrow> file_block \<Rightarrow> u64" where
  "blen B st b = (case block_len B st b of None \<Rightarrow> 0 | Some l \<Rightarrow> l)"

lemma in_walk_len:
  "in_walk st z zs \<Longrightarrow> block_len B st (fst z) = Some (blen B st (fst z)) \<and> block_len B st (snd z) = Some (blen B st (snd z))"
  by (auto simp: in_walk_def from_block_def blen_def block_len_def)

text \<open>Room for \<open>n\<close> more matches in every group of the results tree.\<close>

definition room_for :: "nat \<Rightarrow> results_tree \<Rightarrow> bool" where
  "room_for n res \<longleftrightarrow> (\<forall>g. card (res_extents res `` {g}) + 2 * n < 2 ^ 32)"

lemma res_extents_finite: "finite (res_extents res)"
proof -
  have "res_extents res = (\<Union>d \<in> set (rb_inorder (rt_root res)). {group_key d} \<times> set (de_extents d))"
    by (auto simp: res_extents_def)
  then show ?thesis by simp
qed

lemma room_for_mono:
  assumes "room_for n res" "m \<le> n"
  shows "room_for m res"
  unfolding room_for_def
proof
  fix g
  have "card (res_extents res `` {g}) + 2 * m \<le> card (res_extents res `` {g}) + 2 * n" using assms(2) by simp
  moreover have "card (res_extents res `` {g}) + 2 * n < 2 ^ 32" using assms(1) by (simp only: room_for_def)
  ultimately show "card (res_extents res `` {g}) + 2 * m < 2 ^ 32" by (rule order_le_less_trans)
qed

lemma room_for_res_room:
  assumes inv: "res_inv res" and room: "room_for (Suc n) res"
  shows "res_room res"
  unfolding res_room_def
proof
  fix d assume d: "d \<in> set (rb_inorder (rt_root res))"
  have idx: "rb_index group_key dupe_extents_cmp (rt_root res)" using inv by (simp add: res_inv_def)
  have "find_dupe_extents res (snd (group_key d)) (fst (group_key d)) = Some d"
    using groups.find_unique [OF idx d] by (simp add: find_dupe_extents_def)
  note g = group_extents [OF inv this]
  have "length (de_extents d) = card (res_extents res `` {group_key d})"
    using g(2,4) by (metis dext_ok_def distinct_card)
  moreover have "card (res_extents res `` {group_key d}) + 2 * Suc n < 2 ^ 32" using room by (simp only: room_for_def)
  ultimately show "length (de_extents d) + 2 < 2 ^ 32" by simp
qed

lemma room_for_add:
  assumes "room_for (Suc n) res" "res_extents res' = res_extents res \<union> {g} \<times> {a, b}"
  shows "room_for n res'"
  unfolding room_for_def
proof
  fix h
  have "finite (res_extents res `` {h})" using res_extents_finite by (rule finite_Image)
  then have "card (res_extents res' `` {h}) \<le> card (res_extents res `` {h} \<union> {a, b})"
    using assms(2) by (intro card_mono) auto
  also have "\<dots> \<le> card (res_extents res `` {h}) + card {a, b}" by (rule card_Un_le)
  also have "card {a, b} \<le> 2" by (simp add: card_insert_if)
  finally have "card (res_extents res' `` {h}) \<le> card (res_extents res `` {h}) + 2" by simp
  moreover have "card (res_extents res `` {h}) + 2 * Suc n < 2 ^ 32" using assms(1) by (simp only: room_for_def)
  ultimately show "card (res_extents res' `` {h}) + 2 * n < 2 ^ 32" by simp
qed

lemma record_match_ok:
  assumes "res_inv res" "room_for (Suc n) res" "b_file (fst z) = orig" "b_file (snd z) = walk"
    and "block_len B st (fst e) = Some (blen B st (fst e))" "block_len B st (snd e) = Some (blen B st (snd e))"
    and e: "e = last ps"
  shows "\<exists>res'. record_match (\<lambda>_. (True, True, True)) B st res (match_id X ps) orig walk z e = Some res' \<and>
    res_inv res' \<and> room_for n res' \<and> res_extents res' = res_extents res \<union> found X (blen B st) (z, ps)"
proof -
  let ?l = "blen B st (fst e) + b_loff (fst e) - 1 - b_loff (fst z) + 1"
  obtain res' where r: "insert_result True True True res (match_id X ps) (orig, walk) (b_loff (fst z), b_loff (snd z))
      (blen B st (fst e) + b_loff (fst e) - 1, blen B st (snd e) + b_loff (snd e) - 1) = Some (0, res')" "res_inv res'"
      "res_extents res' = res_extents res \<union> {(?l, match_id X ps)} \<times> {(orig, b_loff (fst z)), (walk, b_loff (snd z))}"
    using insert_result_ok [OF assms(1) room_for_res_room [OF assms(1,2)] refl] by blast
  have "record_match (\<lambda>_. (True, True, True)) B st res (match_id X ps) orig walk z e = Some res'"
    using assms(3-6) r(1) by (simp add: record_match_def)
  moreover have "room_for n res'" by (rule room_for_add [OF assms(2) r(3)])
  ultimately show ?thesis using r(2,3) assms(3,4) e by (simp add: found_def)
qed

lemma next_match_ok:
  "in_walk st z zs \<Longrightarrow> res_inv res \<Longrightarrow> room_for (Suc (n + length zs)) res \<Longrightarrow>
   \<exists>res'. next_match X (\<lambda>_. (True, True, True)) B st (b_file (fst z)) (b_file (snd z)) E (fst z) (snd z) res = Some (0, res') \<and>
     res_inv res' \<and> room_for n res' \<and>
     res_extents res' = res_extents res \<union> (\<Union>m \<in> set (matches B E (blen B st) z zs). found X (blen B st) m)"
proof (induction "length zs" arbitrary: z zs res rule: less_induct)
  case less
  let ?nm = "next_match X (\<lambda>_. (True, True, True)) B st (b_file (fst z)) (b_file (snd z)) E"
  note ff = fast_forward_skip [OF less.prems(1), of E]
  note ms = matches.simps [of B E "blen B st" z zs]
  have rm: "room_for n res" by (rule room_for_mono [OF less.prems(3)]) simp
  show ?case
  proof (cases "skip E z zs")
    case None
    then have "?nm (fst z) (snd z) res = Some (0, res)" using ff by (subst next_match.simps) simp
    then show ?thesis using None less.prems(2) rm ms by simp
  next
    case (Some p)
    obtain y ys where p: "p = (y, ys)" by fastforce
    note sk = Some [unfolded p]
    have y: "fast_forward st E (fst z) (snd z) = Some (Some (fst y, snd y))" "in_walk st y ys"
        "b_file (fst y) = b_file (fst z)" "b_file (snd y) = b_file (snd z)" using ff sk by simp_all
    obtain ps again w where rn: "run B E y ys = (ps, again, w)" by (metis prod_cases3)
    note ml = match_loop_run [OF y(2) rn, of X None "start_running_checksum X"]
    show ?thesis
    proof (cases "ps = []")
      case True
      then have "?nm (fst z) (snd z) res = Some (0, res)" using y(1) ml by (subst next_match.simps) (simp add: split_beta)
      then show ?thesis using True sk rn less.prems(2) rm ms by simp
    next
      case ne: False
      let ?e = "last ps"
      have dr: "y # ys = butlast ps @ ?e # drop (length ps) (y # ys)"
        using run_drop [OF rn] ne by (metis append.assoc append_Cons append_Nil append_butlast_last_id)
      note ew = in_walk_append [OF y(2) dr]
      have len: "block_len B st (fst ?e) = Some (blen B st (fst ?e))" "block_len B st (snd ?e) = Some (blen B st (snd ?e))"
        using in_walk_len ew by blast+
      let ?fit = "blen B st (snd ?e) + b_loff (snd ?e) - 1 \<le> E"
      show ?thesis
      proof (cases ?fit)
        case False
        then have "?nm (fst z) (snd z) res = Some (0, res)" using y(1) ml ne len by (subst next_match.simps) (simp add: split_beta)
        then show ?thesis using False ne sk rn less.prems(2) rm ms by simp
      next
        case fit: True
        obtain res1 where r1: "record_match (\<lambda>_. (True, True, True)) B st res (match_id X ps) (b_file (fst z)) (b_file (snd z)) z ?e = Some res1"
            "res_inv res1" "room_for (n + length zs) res1" "res_extents res1 = res_extents res \<union> found X (blen B st) (z, ps)"
          using record_match_ok [OF less.prems(2,3) refl refl len refl] by blast
        have rm1: "room_for n res1" by (rule room_for_mono [OF r1(3)]) simp
        define next_w where "next_w = (do { x0 \<leftarrow> end_of_block_list st (fst ?e); x1 \<leftarrow> end_of_block_list st (snd ?e);
            if x0 \<or> x1 then Some (0, res1) else if b_loff (snd w) > E then Some (0, res1)
            else do { orig \<leftarrow> get_next_block st (fst ?e); block \<leftarrow> get_next_block st (snd ?e); ?nm orig block res1 } })"
        have step: "?nm (fst z) (snd z) res = (if again then next_w else Some (0, res1))"
          using y(1) ml ne len fit r1(1) unfolding next_w_def
          by (subst next_match.simps) (simp add: match_id_def split_beta)
        show ?thesis
        proof (cases "drop (length ps) (y # ys)")
          case Nil
          have "\<not> again" using run_drop [OF rn] Nil by auto
          then show ?thesis using step r1 rm1 ms sk rn ne fit by simp
        next
          case (Cons w' ws)
          show ?thesis
          proof (cases again)
            case False
            then show ?thesis using step r1 rm1 ms sk rn ne fit by simp
          next
            case True
            then have w: "w = w'" using run_drop [OF rn] Cons by auto
            note c = in_walk_Cons [OF conjunct1 [OF ew, unfolded Cons]]
            have files: "b_file (fst w') = b_file (fst z)" "b_file (snd w') = b_file (snd z)"
              using c(6,7) ew y(3,4) by simp_all
            have nw: "next_w = (if b_loff (snd w') > E then Some (0, res1) else ?nm (fst w') (snd w') res1)"
              using c w by (simp add: next_w_def)
            show ?thesis
            proof (cases "b_loff (snd w') > E")
              case t: True
              then show ?thesis using step r1 rm1 ms sk rn ne fit Cons True nw by simp
            next
              case f: False
              have sh: "length ws < length zs"
                using drop_Cons_length [OF Cons ne] skip_length [OF sk] by simp
              then have "room_for (Suc (n + length ws)) res1"
                by (intro room_for_mono [OF r1(3)]) simp
              from less.hyps [OF sh c(5) r1(2) this] obtain res2 where "?nm (fst w') (snd w') res1 = Some (0, res2)" "res_inv res2" "room_for n res2"
                  "res_extents res2 = res_extents res1 \<union> (\<Union>m \<in> set (matches B E (blen B st) w' ws). found X (blen B st) m)"
                unfolding files by blast
              moreover have "matches B E (blen B st) z zs = (z, ps) # matches B E (blen B st) w' ws"
                using ms sk rn ne fit Cons True f by simp
              moreover have "?nm (fst z) (snd z) res = ?nm (fst w') (snd w') res1" using step True nw f by simp
              ultimately show ?thesis using r1(4) by (simp add: Un_assoc)
            qed
          qed
        qed
      qed
    qed
  qed
qed

text \<open>The blocks of the same file with a higher offset, in order.\<close>

definition blocks_after :: "filerecs \<Rightarrow> file_block \<Rightarrow> file_block list" where
  "blocks_after st b = (case recs st (b_file b) of
     None \<Rightarrow> [] | Some r \<Rightarrow> filter (\<lambda>x. b_loff b < b_loff x) (rb_inorder (block_tree r)))"

lemma from_blockI:
  assumes inv: "files_inv bs st" and b: "b \<in># bs"
  shows "from_block st b (blocks_after st b)"
proof -
  obtain r where r: "recs st (b_file b) = Some r" using inv b by (auto simp: files_inv_def)
  have idx: "rb_index b_loff word_cmp (block_tree r)" and
    items: "set (rb_inorder (block_tree r)) = {x. x \<in># bs \<and> b_file x = b_file b}"
    using inv r by (auto simp: files_inv_def)
  obtain xs ys where t: "rb_inorder (block_tree r) = xs @ b # ys" using items b by (metis (mono_tags, lifting) mem_Collect_eq split_list)
  have "sorted_wrt (\<lambda>x y. b_loff x < b_loff y) (rb_inorder (block_tree r))"
    using idx by (auto simp: rb_index_def rb_ordered_def word_cmp_def elim!: sorted_wrt_mono_rel [rotated] split: if_splits)
  then have "\<forall>x \<in> set xs. b_loff x < b_loff b" "\<forall>y \<in> set ys. b_loff b < b_loff y"
    using t by (auto simp: sorted_wrt_append)
  then have "blocks_after st b = ys" using r t by (auto simp: blocks_after_def filter_empty_conv filter_id_conv dest: order.asym)
  moreover have "\<forall>x \<in> set ys. b_file x = b_file b" using items t by auto
  ultimately show ?thesis using r idx t by (auto simp: from_block_def)
qed

text \<open>All pairs of blocks from two blocks on.\<close>

definition pairs_after :: "filerecs \<Rightarrow> file_block \<Rightarrow> file_block \<Rightarrow> block_pair list" where
  "pairs_after st orig block = zip (blocks_after st orig) (blocks_after st block)"

definition matches_of :: "u32 \<Rightarrow> filerecs \<Rightarrow> file_block \<Rightarrow> file_block \<Rightarrow> u64 \<Rightarrow> (block_pair \<times> block_pair list) list" where
  "matches_of B st orig block len =
     matches B (b_loff block + len - 1) (blen B st) (orig, block) (pairs_after st orig block)"

lemma in_walkI:
  "files_inv bs st \<Longrightarrow> orig \<in># bs \<Longrightarrow> block \<in># bs \<Longrightarrow> in_walk st (orig, block) (pairs_after st orig block)"
  unfolding in_walk_def pairs_after_def using from_blockI by fastforce

lemma compare_extents_ok:
  assumes "files_inv bs st" "orig \<in># bs" "block \<in># bs" "res_inv res"
    and "room_for (Suc (n + length (blocks_after st orig))) res"
  shows "\<exists>res'. compare_extents X (\<lambda>_. (True, True, True)) B st (b_file orig) orig (b_file block) block len res = Some (0, res') \<and>
    res_inv res' \<and> room_for n res' \<and>
    res_extents res' = res_extents res \<union> (\<Union>m \<in> set (matches_of B st orig block len). found X (blen B st) m)"
proof -
  have "room_for (Suc (n + length (pairs_after st orig block))) res"
    by (rule room_for_mono [OF assms(5)]) (simp add: pairs_after_def)
  from next_match_ok [OF in_walkI [OF assms(1-3)] assms(4) this] show ?thesis
    by (simp add: compare_extents_def matches_of_def)
qed

text \<open>The blocks with the same hash that a block is compared with.\<close>

definition candidates :: "bool \<Rightarrow> file_block \<Rightarrow> file_block list \<Rightarrow> file_block list" where
  "candidates same_file block bs = filter (\<lambda>b. b \<noteq> block \<and> (same_file \<or> b_file b \<noteq> b_file block)) bs"

lemma search_blocks_ok:
  assumes inv: "files_inv bs st" "block \<in># bs" and load: "\<And>f off. load_extent f off = 0"
  shows "\<forall>b \<in> set cs. b \<in># bs \<Longrightarrow> res_inv res \<Longrightarrow> room_for (length cs * Suc (length (blocks_after st block))) res \<Longrightarrow>
    \<exists>res'. search_blocks X (\<lambda>_. (True, True, True)) B same_file load_extent st (b_file block) block len cs res = Some (0, res') \<and>
      res_inv res' \<and> res_extents res' = res_extents res \<union>
        (\<Union>b \<in> set (candidates same_file block cs). \<Union>m \<in> set (matches_of B st block b len). found X (blen B st) m)"
proof (induction cs arbitrary: res)
  case (Cons c cs)
  let ?k = "Suc (length (blocks_after st block))"
  show ?case
  proof (cases "c = block \<or> \<not> same_file \<and> b_file block = b_file c")
    case True
    have "room_for (length cs * ?k) res" by (rule room_for_mono [OF Cons.prems(3)]) simp
    with Cons.IH [of res] Cons.prems(1,2) True show ?thesis by (simp add: candidates_def) metis
  next
    case False
    have "room_for (Suc (length cs * ?k + length (blocks_after st block))) res"
      by (rule room_for_mono [OF Cons.prems(3)]) simp
    from compare_extents_ok [OF inv _ Cons.prems(2) this] Cons.prems(1) obtain res1 where
      r1: "compare_extents X (\<lambda>_. (True, True, True)) B st (b_file block) block (b_file c) c len res = Some (0, res1)"
        "res_inv res1" "room_for (length cs * ?k) res1"
        "res_extents res1 = res_extents res \<union> (\<Union>m \<in> set (matches_of B st block c len). found X (blen B st) m)"
      by (metis list.set_intros(1))
    from Cons.IH [OF _ r1(2,3)] Cons.prems(1) obtain res2 where
      r2: "search_blocks X (\<lambda>_. (True, True, True)) B same_file load_extent st (b_file block) block len cs res1 = Some (0, res2)"
        "res_inv res2" "res_extents res2 = res_extents res1 \<union>
          (\<Union>b \<in> set (candidates same_file block cs). \<Union>m \<in> set (matches_of B st block b len). found X (blen B st) m)"
      by (metis list.set_intros(2))
    have c: "candidates same_file block (c # cs) = c # candidates same_file block cs"
      using False by (auto simp: candidates_def)
    have "search_blocks X (\<lambda>_. (True, True, True)) B same_file load_extent st (b_file block) block len (c # cs) res = Some (0, res2)"
      using r1(1) r2(1) load unfolding search_blocks.simps if_not_P [OF False] by simp
    then show ?thesis using r2(2,3) r1(4) c by (simp add: Un_assoc)
  qed
qed (simp add: candidates_def)

lemma same_hash_list:
  assumes inv: "tree_inv tree" and b: "b \<in># tree_blocks tree"
  shows "\<exists>d. find_block_list tree (b_parent b) = Some d \<and>
    set (dl_list d) = {x. x \<in># tree_blocks tree \<and> b_parent x = b_parent b} \<and> length (dl_list d) \<le> size (tree_blocks tree)"
proof -
  have idx: "rb_index dl_hash memcmp (ht_root tree)" using inv by (simp add: tree_inv_def)
  have par: "b_parent x = dl_hash d" if "d \<in> set (rb_inorder (ht_root tree))" "x \<in> set (dl_list d)" for d x
    using inv that by (auto simp: tree_inv_def dups_inv_def)
  obtain d where d: "d \<in> set (rb_inorder (ht_root tree))" "b \<in> set (dl_list d)" using b by (auto simp: tree_blocks_member)
  have f: "find_block_list tree (b_parent b) = Some d"
    using by_hash.find_unique [OF idx d(1)] par [OF d] by (simp add: find_block_list_def)
  have u: "x = d" if "x \<in> set (rb_inorder (ht_root tree))" "dl_hash x = dl_hash d" for x
    using by_hash.find_unique [OF idx that(1)] by_hash.find_unique [OF idx d(1)] unfolding that(2) by (metis option.inject)
  have "set (dl_list d) = {x. x \<in># tree_blocks tree \<and> b_parent x = b_parent b}"
  proof (intro equalityI subsetI CollectI conjI; (elim CollectE conjE)?)
    fix x assume x: "x \<in> set (dl_list d)"
    then show "x \<in># tree_blocks tree" using d(1) by (auto simp: tree_blocks_member)
    show "b_parent x = b_parent b" using par [OF d(1) x] par [OF d] by simp
  next
    fix x assume x: "x \<in># tree_blocks tree" "b_parent x = b_parent b"
    then obtain e where e: "e \<in> set (rb_inorder (ht_root tree))" "x \<in> set (dl_list e)" by (auto simp: tree_blocks_member)
    then have "e = d" using u [OF e(1)] par [OF e] par [OF d] x(2) by simp
    with e(2) show "x \<in> set (dl_list d)" by simp
  qed
  moreover have "length (dl_list d) \<le> size (tree_blocks tree)"
  proof -
    obtain xs ys where "rb_inorder (ht_root tree) = xs @ d # ys" using d(1) by (metis split_list)
    then show ?thesis by (simp add: root_blocks_split)
  qed
  ultimately show ?thesis using f by blast
qed

lemma find_filerec_block_Some:
  assumes "files_inv bs st" "recs st file = Some r" "find_filerec_block r off = Some block"
  shows "block \<in># bs" "b_file block = file" "b_loff block = off"
proof -
  have idx: "rb_index b_loff word_cmp (block_tree r)" and
    items: "set (rb_inorder (block_tree r)) = {x. x \<in># bs \<and> b_file x = file}"
    using assms(1,2) by (auto simp: files_inv_def)
  have "block \<in> set (rb_inorder (block_tree r)) \<and> b_loff block = off"
    using assms(3) by (intro by_loff.find_SomeD [OF _ idx]) (simp add: find_filerec_block_def)
  then show "block \<in># bs" "b_file block = file" "b_loff block = off" using items by auto
qed

lemma search_extent_ok:
  assumes inv: "hash_inv (tree, st)" and r: "recs st file = Some r" and b: "find_filerec_block r (fx_loff extent) = Some block"
    and load: "\<And>f off. load_extent f off = 0" and res: "res_inv res"
    and room: "room_for (size (tree_blocks tree) * Suc (length (blocks_after st block))) res"
  shows "\<exists>res'. search_extent X (\<lambda>_. (True, True, True)) B same_file load_extent (tree, st) file extent res = Some (0, res') \<and>
    res_inv res' \<and> res_extents res' = res_extents res \<union>
      (\<Union>b \<in> {b. b \<in># tree_blocks tree \<and> b_parent b = b_parent block \<and> b \<noteq> block \<and> (same_file \<or> b_file b \<noteq> file)}.
        \<Union>m \<in> set (matches_of B st block b (fx_len extent)). found X (blen B st) m)"
proof -
  have fi: "files_inv (tree_blocks tree) st" and ti: "tree_inv tree" using inv by (simp_all add: hash_inv_def)
  note bl = find_filerec_block_Some [OF fi r b]
  obtain d where d: "find_block_list tree (b_parent block) = Some d"
      "set (dl_list d) = {x. x \<in># tree_blocks tree \<and> b_parent x = b_parent block}" "length (dl_list d) \<le> size (tree_blocks tree)"
    using same_hash_list [OF ti bl(1)] by blast
  have "room_for (length (dl_list d) * Suc (length (blocks_after st block))) res"
    by (rule room_for_mono [OF room]) (rule mult_le_mono1 [OF d(3)])
  from search_blocks_ok [where load_extent = load_extent, OF fi bl(1) load _ res this] d(2) obtain res' where
    "search_blocks X (\<lambda>_. (True, True, True)) B same_file load_extent st (b_file block) block (fx_len extent) (dl_list d) res = Some (0, res')"
    "res_inv res'" "res_extents res' = res_extents res \<union> (\<Union>b \<in> set (candidates same_file block (dl_list d)).
      \<Union>m \<in> set (matches_of B st block b (fx_len extent)). found X (blen B st) m)" by blast
  moreover have "set (candidates same_file block (dl_list d)) =
      {b. b \<in># tree_blocks tree \<and> b_parent b = b_parent block \<and> b \<noteq> block \<and> (same_file \<or> b_file b \<noteq> file)}"
    using d(2) bl(2) by (auto simp: candidates_def)
  ultimately show ?thesis using r b d(1) bl(2) by (simp add: search_extent_def)
qed

section \<open>The run of a match\<close>

text \<open>Pairs with equal hashes, adjacent in both files, inside the range.\<close>

definition duplicate_run :: "u32 \<Rightarrow> u64 \<Rightarrow> block_pair list \<Rightarrow> bool" where
  "duplicate_run B E ps \<longleftrightarrow> (\<forall>p \<in> set ps. same_hash p \<and> below E p) \<and> successively (contiguous B) ps"

lemma run_is_duplicate: "run B E z zs = (ps, again, w) \<Longrightarrow> duplicate_run B E ps \<and> (ps = [] \<or> hd ps = z)"
proof (induction B E z zs arbitrary: ps again w rule: run.induct)
  case (1 B E z)
  then show ?case by (auto simp: duplicate_run_def split: if_splits)
next
  case (2 B E z y zs)
  show ?case
  proof (cases "same_hash z \<and> below E z")
    case t: True
    show ?thesis
    proof (cases "contiguous B z y")
      case True
      obtain qs where qs: "run B E y zs = (qs, again, w)" "ps = z # qs"
        using "2.prems" t True by (auto split: prod.splits)
      show ?thesis using "2.IH" [OF t True qs(1)] qs(2) t True by (auto simp: duplicate_run_def successively_Cons)
    next
      case False
      then have "ps = [z]" using "2.prems" t by simp
      then show ?thesis using t by (simp add: duplicate_run_def)
    qed
  next
    case False
    then have "ps = []" using "2.prems" by auto
    then show ?thesis by (simp add: duplicate_run_def)
  qed
qed

lemma run_is_maximal:
  "run B E z zs = (ps, again, w) \<Longrightarrow> duplicate_run B E (take n (z # zs)) \<Longrightarrow> n \<le> Suc (length zs) \<Longrightarrow> n \<le> length ps"
proof (induction B E z zs arbitrary: ps again w n rule: run.induct)
  case (1 B E z)
  then show ?case by (cases n) (auto simp: duplicate_run_def split: if_splits)
next
  case (2 B E z y zs)
  show ?case
  proof (cases n)
    case (Suc m)
    have z: "same_hash z \<and> below E z" using "2.prems"(2) Suc by (simp add: duplicate_run_def)
    have tail: "duplicate_run B E (take m (y # zs))"
      using "2.prems"(2) Suc by (auto simp: duplicate_run_def successively_Cons)
    show ?thesis
    proof (cases "contiguous B z y")
      case True
      then show ?thesis using "2.IH" [OF z True _ tail] "2.prems" Suc z by (auto split: prod.splits)
    next
      case False
      then have "m = 0" using "2.prems"(2) Suc by (cases m) (auto simp: duplicate_run_def)
      then show ?thesis using "2.prems"(1) Suc z False by auto
    qed
  qed simp
qed

lemma first_match:
  assumes "same_hash z" "below E z"
  shows "\<exists>n. 0 < n \<and> duplicate_run B E (take n (z # zs)) \<and>
    (\<forall>m \<le> Suc (length zs). duplicate_run B E (take m (z # zs)) \<longrightarrow> m \<le> n) \<and>
    (len (snd (last (take n (z # zs)))) + b_loff (snd (last (take n (z # zs)))) - 1 \<le> E \<longrightarrow>
      (z, take n (z # zs)) \<in> set (matches B E len z zs))"
proof -
  have sk: "skip E z zs = Some (z, zs)" using assms by (cases zs) auto
  obtain ps again w where rn: "run B E z zs = (ps, again, w)" by (metis prod_cases3)
  have max: "m \<le> length ps" if "m \<le> Suc (length zs)" "duplicate_run B E (take m (z # zs))" for m
    using run_is_maximal [OF rn that(2,1)] .
  have ps: "take (length ps) (z # zs) = ps" using run_drop [OF rn] by (metis append_eq_conv_conj)
  have "duplicate_run B E (take 1 (z # zs))" using assms by (simp add: duplicate_run_def)
  then have ne: "ps \<noteq> []" using max [of 1] by auto
  then have "0 < length ps" by simp
  moreover have "(z, ps) \<in> set (matches B E len z zs)" if "len (snd (last ps)) + b_loff (snd (last ps)) - 1 \<le> E"
  proof -
    show ?thesis unfolding matches.simps [of B E len z zs] sk rn option.case prod.case if_not_P [OF ne] if_P [OF that] by (rule list.set_intros(1))
  qed
  ultimately show ?thesis using max run_is_duplicate [OF rn] ps by (intro exI [of _ "length ps"]) simp
qed

text \<open>Equal pairs, then pairs that differ, then equal pairs again: what the walk makes of them.\<close>

lemma run_until_mismatch:
  "ps \<noteq> [] \<Longrightarrow> z # zs = ps @ m # xs \<Longrightarrow> duplicate_run B E ps \<Longrightarrow> contiguous B (last ps) m \<Longrightarrow> \<not> same_hash m \<Longrightarrow> run B E z zs = (ps, True, m)"
proof (induction ps arbitrary: z zs)
  case (Cons p ps)
  have m: "run B E m xs = ([], True, m)" using Cons.prems(5) by (cases xs) simp_all
  show ?case
  proof (cases ps)
    case Nil
    then show ?thesis using Cons.prems m by (auto simp: duplicate_run_def)
  next
    case (Cons q qs)
    then have zs: "z = p" "zs = ps @ m # xs" using Cons.prems(2) by auto
    have "run B E q (qs @ m # xs) = (ps, True, m)"
      by (rule Cons.IH) (use Cons Cons.prems in \<open>auto simp: duplicate_run_def\<close>)
    then show ?thesis using zs Cons Cons.prems(3) by (simp add: duplicate_run_def)
  qed
qed simp

lemma skip_mismatches:
  "\<forall>x \<in> set (m # ms). \<not> same_hash x \<and> below E x \<Longrightarrow> same_hash q \<Longrightarrow> skip E m (ms @ q # xs) = Some (q, xs)"
proof (induction ms arbitrary: m)
  case Nil
  then show ?case by (cases xs) simp_all
qed simp

lemma match_after_mismatch:
  assumes ps: "ps \<noteq> []" "z # zs = ps @ (m # ms) @ q # xs" "duplicate_run B E ps" "contiguous B (last ps) m"
    and m: "\<forall>x \<in> set (m # ms). \<not> same_hash x \<and> below E x" and q: "same_hash q" "below E q"
    and e: "len (snd (last ps)) + b_loff (snd (last ps)) - 1 \<le> E"
  shows "\<exists>n. 0 < n \<and> duplicate_run B E (take n (q # xs)) \<and> (\<forall>k \<le> Suc (length xs). duplicate_run B E (take k (q # xs)) \<longrightarrow> k \<le> n) \<and>
    (len (snd (last (take n (q # xs)))) + b_loff (snd (last (take n (q # xs)))) - 1 \<le> E \<longrightarrow> (m, take n (q # xs)) \<in> set (matches B E len z zs))"
proof -
  have "z = hd ps" using ps(1,2) by (cases ps) auto
  then have "same_hash z" "below E z" using ps(1,3) by (auto simp: duplicate_run_def)
  then have sk: "skip E z zs = Some (z, zs)" by (cases zs) auto
  have rn: "run B E z zs = (ps, True, m)" by (rule run_until_mismatch [OF ps(1) _ ps(3,4)]) (use ps(2) m in auto)
  have d: "drop (length ps) (z # zs) = m # ms @ q # xs" unfolding ps(2) by simp
  have b: "\<not> b_loff (snd m) > E" using m by (auto simp: below_def)
  have sub: "set (matches B E len m (ms @ q # xs)) \<subseteq> set (matches B E len z zs)"
    unfolding matches.simps [of B E len z zs] sk rn option.case prod.case if_not_P [OF ps(1)] if_P [OF e] d list.case if_not_P [OF b]
    by auto
  have sk2: "skip E m (ms @ q # xs) = Some (q, xs)" by (rule skip_mismatches [OF m q(1)])
  obtain qs again w where rq: "run B E q xs = (qs, again, w)" by (metis prod_cases3)
  have qs: "take (length qs) (q # xs) = qs" using run_drop [OF rq] by (metis append_eq_conv_conj)
  have max: "k \<le> length qs" if "k \<le> Suc (length xs)" "duplicate_run B E (take k (q # xs))" for k
    using run_is_maximal [OF rq that(2,1)] .
  have "duplicate_run B E (take 1 (q # xs))" using q by (simp add: duplicate_run_def)
  then have ne: "qs \<noteq> []" using max [of 1] by auto
  have "(m, qs) \<in> set (matches B E len m (ms @ q # xs))" if "len (snd (last qs)) + b_loff (snd (last qs)) - 1 \<le> E"
    unfolding matches.simps [of B E len m "ms @ q # xs"] sk2 rq option.case prod.case if_not_P [OF ne] if_P [OF that] by (rule list.set_intros(1))
  then show ?thesis using max run_is_duplicate [OF rq] qs ne sub by (intro exI [of _ "length qs"]) auto
qed

section \<open>The properties of the search\<close>

text \<open>Two files of three blocks each; the middle blocks differ.\<close>

definition example_block :: "nat \<Rightarrow> fptr \<Rightarrow> u64 \<Rightarrow> u8 \<Rightarrow> file_block" where
  "example_block a f off d = \<lparr>b_addr = a, b_parent = [d], b_file = f, b_loff = off\<rparr>"

definition example_file :: "file_block \<Rightarrow> file_block \<Rightarrow> file_block \<Rightarrow> filerec" where
  "example_file x y z = \<lparr>fd = -1, fd_refs = 0, filename = ''f'', fileid = int (b_file x), fsize = 12288,
     block_tree = RB_Node RB_BLACK (RB_Node RB_RED RB_NULL x RB_NULL) y (RB_Node RB_RED RB_NULL z RB_NULL)\<rparr>"

definition example_files :: filerecs where
  "example_files = no_filerecs\<lparr>recs := [64 \<mapsto> example_file (example_block 1 64 0 1) (example_block 2 64 4096 2) (example_block 3 64 8192 3),
     65 \<mapsto> example_file (example_block 4 65 0 1) (example_block 5 65 4096 4) (example_block 6 65 8192 3)]\<rparr>"

definition example_blocks :: "file_block multiset" where
  "example_blocks = {#example_block 1 64 0 1, example_block 2 64 4096 2, example_block 3 64 8192 3,
     example_block 4 65 0 1, example_block 5 65 4096 4, example_block 6 65 8192 3#}"

lemmas example_defs = example_files_def example_file_def example_block_def no_filerecs_def

lemma example_files_inv: "files_inv example_blocks example_files"
  unfolding files_inv_def example_blocks_def
  by (auto simp: example_defs rb_index_def rb_ordered_def rb_inv_def rb_sub_def word_cmp_def split: if_splits)

lemma room_for_init: "n < 2 ^ 31 \<Longrightarrow> room_for n init_results_tree"
  using init_results_inv(3) by (simp add: room_for_def)

text \<open>
  C3. \<open>compare_extents\<close> on two blocks of the hash tree returns when the allocations of \<open>insert_result\<close> succeed (one that
  fails ends the process in \<open>record_match\<close>) and the 32-bit counters of the results tree have room for the
  matches: no walk leaves a tree and no assertion fails. What it records is then exactly what the
  walk over the two sorted lists of blocks records, in the groups given by length and identifier of each match.
\<close>

theorem compare_extents_correct:
  assumes "files_inv bs st" "orig \<in># bs" "block \<in># bs" "res_inv res"
    and "room_for (Suc (length (blocks_after st orig))) res"
  shows "\<exists>res'. compare_extents X (\<lambda>_. (True, True, True)) B st (b_file orig) orig (b_file block) block len res = Some (0, res') \<and>
    res_inv res' \<and>
    res_extents res' = res_extents res \<union> (\<Union>m \<in> set (matches_of B st orig block len). found X (blen B st) m)"
  using compare_extents_ok [OF assms(1-4), where n = 0 and X = X and B = B and len = len] assms(5) by auto

theorem compare_extents_correct_witness:
  "\<exists>res'. compare_extents example_xxh3 (\<lambda>_. (True, True, True)) 4096 example_files 64 (example_block 1 64 0 1)
     65 (example_block 4 65 0 1) 4096 init_results_tree = Some (0, res') \<and> res_inv res'"
proof -
  have "example_block 1 64 0 1 \<in># example_blocks" "example_block 4 65 0 1 \<in># example_blocks"
    by (simp_all add: example_blocks_def)
  moreover have "b_file (example_block 1 64 0 1) = 64" "b_file (example_block 4 65 0 1) = 65"
    by (simp_all add: example_block_def)
  moreover have "room_for (Suc (length (blocks_after example_files (example_block 1 64 0 1)))) init_results_tree"
    by (rule room_for_init) (simp add: blocks_after_def example_defs)
  ultimately show ?thesis
    using compare_extents_correct [OF example_files_inv, of "example_block 1 64 0 1" "example_block 4 65 0 1" init_results_tree
      example_xxh3 4096 4096] init_results_inv(1) by auto
qed

text \<open>
  C32. When the two blocks \<open>compare_extents\<close> is called on have the same hash, its first match is the
  longest run of pairs from them on whose hashes are equal, which are adjacent in both files and
  which start inside the extent. Both extents are filed in one group, unless the last block sticks
  out of the extent.
\<close>

theorem compare_extents_first_match:
  assumes "files_inv bs st" "orig \<in># bs" "block \<in># bs" "res_inv res"
    and "room_for (Suc (length (blocks_after st orig))) res"
    and "b_parent block = b_parent orig" "b_loff block < b_loff block + len - 1"
  shows "\<exists>res' ps. compare_extents X (\<lambda>_. (True, True, True)) B st (b_file orig) orig (b_file block) block len res = Some (0, res') \<and>
    prefix ps ((orig, block) # pairs_after st orig block) \<and> ps \<noteq> [] \<and> duplicate_run B (b_loff block + len - 1) ps \<and>
    (\<forall>qs. prefix qs ((orig, block) # pairs_after st orig block) \<and> duplicate_run B (b_loff block + len - 1) qs \<longrightarrow> prefix qs ps) \<and>
    (blen B st (snd (last ps)) + b_loff (snd (last ps)) - 1 \<le> b_loff block + len - 1 \<longrightarrow>
      {(b_file orig, b_loff orig), (b_file block, b_loff block)} \<subseteq>
        res_extents res' `` {(blen B st (fst (last ps)) + b_loff (fst (last ps)) - 1 - b_loff orig + 1, match_id X ps)})"
proof -
  let ?E = "b_loff block + len - 1" and ?z = "(orig, block)"
  let ?zs = "pairs_after st orig block"
  obtain res' where r: "compare_extents X (\<lambda>_. (True, True, True)) B st (b_file orig) orig (b_file block) block len res = Some (0, res')"
      "res_extents res' = res_extents res \<union> (\<Union>m \<in> set (matches_of B st orig block len). found X (blen B st) m)"
    using compare_extents_ok [OF assms(1-4), where n = 0 and X = X and B = B and len = len] assms(5) by auto
  obtain n where n: "0 < n" "duplicate_run B ?E (take n (?z # ?zs))"
      "\<forall>m \<le> Suc (length ?zs). duplicate_run B ?E (take m (?z # ?zs)) \<longrightarrow> m \<le> n"
      "blen B st (snd (last (take n (?z # ?zs)))) + b_loff (snd (last (take n (?z # ?zs)))) - 1 \<le> ?E \<longrightarrow>
        (?z, take n (?z # ?zs)) \<in> set (matches B ?E (blen B st) ?z ?zs)"
    using first_match [of ?z ?E B ?zs "blen B st"] assms(6,7) by (auto simp: same_hash_def below_def)
  define ps where "ps = take n (?z # ?zs)"
  have max: "prefix qs ps" if "prefix qs (?z # ?zs)" "duplicate_run B ?E qs" for qs
  proof -
    have q: "qs = take (length qs) (?z # ?zs)" "length qs \<le> Suc (length ?zs)"
      using that(1) prefix_length_le [OF that(1)] by (auto simp: prefix_def)
    then have "length qs \<le> n" using n(3) that(2) by metis
    then have "take (length qs) (?z # ?zs) = take (length qs) ps" by (simp add: ps_def min_absorb1)
    then show ?thesis using q(1) take_is_prefix by metis
  qed
  have "found X (blen B st) (?z, ps) \<subseteq> res_extents res'" if "blen B st (snd (last ps)) + b_loff (snd (last ps)) - 1 \<le> ?E"
  proof -
    have "(?z, ps) \<in> set (matches_of B st orig block len)" using that n(4) by (simp add: matches_of_def ps_def)
    then show ?thesis using r(2) by blast
  qed
  then have "blen B st (snd (last ps)) + b_loff (snd (last ps)) - 1 \<le> ?E \<longrightarrow>
      {(b_file orig, b_loff orig), (b_file block, b_loff block)} \<subseteq>
        res_extents res' `` {(blen B st (fst (last ps)) + b_loff (fst (last ps)) - 1 - b_loff orig + 1, match_id X ps)}"
    by (auto simp: found_def)
  moreover have "prefix ps (?z # ?zs)" "ps \<noteq> []" "duplicate_run B ?E ps"
    using n(1,2) by (simp_all add: ps_def take_is_prefix)
  ultimately show ?thesis using r(1) max by (intro exI [of _ res'] exI [of _ ps]) blast
qed

theorem compare_extents_first_match_witness:
  "\<exists>res' ps. compare_extents example_xxh3 (\<lambda>_. (True, True, True)) 4096 example_files 64 (example_block 1 64 0 1)
     65 (example_block 4 65 0 1) 12288 init_results_tree = Some (0, res') \<and> ps \<noteq> [] \<and> duplicate_run 4096 12287 ps"
proof -
  have "example_block 1 64 0 1 \<in># example_blocks" "example_block 4 65 0 1 \<in># example_blocks"
    by (simp_all add: example_blocks_def)
  moreover have "b_file (example_block 1 64 0 1) = 64" "b_file (example_block 4 65 0 1) = 65"
      "b_parent (example_block 4 65 0 1) = b_parent (example_block 1 64 0 1)" "b_loff (example_block 4 65 0 1) = 0"
    by (simp_all add: example_block_def)
  moreover have "room_for (Suc (length (blocks_after example_files (example_block 1 64 0 1)))) init_results_tree"
    by (rule room_for_init) (simp add: blocks_after_def example_defs)
  moreover have "(0 :: u64) + 12288 - 1 = 12287" by simp
  ultimately show ?thesis
    using compare_extents_first_match [OF example_files_inv, of "example_block 1 64 0 1" "example_block 4 65 0 1" init_results_tree
      12288 example_xxh3 4096] init_results_inv(1) by auto
qed

text \<open>
  C12. \<open>search_extent\<close> compares the block at the start of the extent with every other block of the
  hash tree that has the same hash, in other files or, with the option, also in its own file, and
  records exactly the matches of these comparisons.
\<close>

theorem search_extent_correct:
  assumes "hash_inv (tree, st)" "recs st file = Some r" "find_filerec_block r (fx_loff extent) = Some block"
    and "\<And>f off. load_extent f off = 0" "res_inv res"
    and "room_for (size (tree_blocks tree) * Suc (length (blocks_after st block))) res"
  shows "\<exists>res'. search_extent X (\<lambda>_. (True, True, True)) B same_file load_extent (tree, st) file extent res = Some (0, res') \<and>
    res_inv res' \<and> res_extents res' = res_extents res \<union>
      (\<Union>b \<in> {b. b \<in># tree_blocks tree \<and> b_parent b = b_parent block \<and> b \<noteq> block \<and> (same_file \<or> b_file b \<noteq> file)}.
        \<Union>m \<in> set (matches_of B st block b (fx_len extent)). found X (blen B st) m)"
  by (rule search_extent_ok [OF assms])

theorem search_extent_correct_witness:
  "\<exists>tree st res'. insert_hashed_block (Some 9) True True [1] 64 0 (init_hash_tree, example_filerecs) = Some (0, tree, st) \<and>
     search_extent example_xxh3 (\<lambda>_. (True, True, True)) 4096 False (\<lambda>_ _. 0) (tree, st) 64
       \<lparr>fx_poff = 0, fx_loff = 0, fx_len = 4096\<rparr> init_results_tree = Some (0, res') \<and> res_inv res'"
proof -
  let ?b = "\<lparr>b_addr = 9, b_parent = [1], b_file = 64, b_loff = 0\<rparr>"
  have "tree_blocks init_hash_tree = {#}" by (simp add: init_hash_tree_def root_blocks_def)
  then obtain tree st where s: "insert_hashed_block (Some 9) True True [1] 64 0 (init_hash_tree, example_filerecs) = Some (0, tree, st)"
      "hash_inv (tree, st)" "tree_blocks tree = {#?b#}"
    using insert_hashed_block_ok [OF example_hash_inv example_free, of 9 "[1]" 0] by fastforce
  have fi: "files_inv (tree_blocks tree) st" using s(2) by (simp add: hash_inv_def)
  then obtain r where r: "recs st 64 = Some r" using s(3) by (auto simp: files_inv_def)
  then have idx: "rb_index b_loff word_cmp (block_tree r)" and items: "set (rb_inorder (block_tree r)) = {?b}"
    using fi s(3) by (auto simp: files_inv_def)
  have f: "find_filerec_block r 0 = Some ?b"
    using by_loff.find_unique [OF idx, of ?b] items by (simp add: find_filerec_block_def)
  have "blocks_after st ?b = []" using r items by (auto simp: blocks_after_def filter_empty_conv)
  then have room: "room_for (size (tree_blocks tree) * Suc (length (blocks_after st ?b))) init_results_tree"
    using s(3) by (intro room_for_init) simp
  from search_extent_correct [OF s(2) r _ _ init_results_inv(1) room, of "\<lparr>fx_poff = 0, fx_loff = 0, fx_len = 4096\<rparr>" "\<lambda>_ _. 0"
      example_xxh3 4096 False] f s(1) show ?thesis by auto
qed

text \<open>
  C35. A walk that meets blocks which differ after a match, and then equal blocks again, records the second match
  from the blocks that differ on: the two extents that are filed as equal begin at a pair of blocks with different
  hashes, and the identifier of their group is computed from the equal blocks alone. This holds for
  every such walk, when allocations succeed, as long as both matches end inside the range.
\<close>

theorem compare_extents_includes_mismatch:
  assumes "files_inv bs st" "orig \<in># bs" "block \<in># bs" "res_inv res" "room_for (Suc (length (blocks_after st orig))) res"
    and E: "E = b_loff block + len - 1"
    and walk: "(orig, block) # zip (blocks_after st orig) (blocks_after st block) = ps @ (m # ms) @ q # xs"
    and equal: "ps \<noteq> []" "duplicate_run B E ps" "blen B st (snd (last ps)) + b_loff (snd (last ps)) - 1 \<le> E"
    and next_to: "b_loff (fst m) = b_loff (fst (last ps)) + ucast B" "b_loff (snd m) = b_loff (snd (last ps)) + ucast B"
    and differ: "\<forall>(x, y) \<in> set (m # ms). b_parent x \<noteq> b_parent y \<and> b_loff y < E"
    and again: "b_parent (fst q) = b_parent (snd q)" "b_loff (snd q) < E"
  shows "\<exists>res' qs. compare_extents X (\<lambda>_. (True, True, True)) B st (b_file orig) orig (b_file block) block len res = Some (0, res') \<and>
    qs \<noteq> [] \<and> prefix qs (q # xs) \<and> duplicate_run B E qs \<and>
    (blen B st (snd (last qs)) + b_loff (snd (last qs)) - 1 \<le> E \<longrightarrow>
      {(b_file (fst m), b_loff (fst m)), (b_file (snd m), b_loff (snd m))} \<subseteq>
        res_extents res' `` {(blen B st (fst (last qs)) + b_loff (fst (last qs)) - 1 - b_loff (fst m) + 1, match_id X qs)})"
proof -
  obtain res' where r: "compare_extents X (\<lambda>_. (True, True, True)) B st (b_file orig) orig (b_file block) block len res = Some (0, res')"
      "res_extents res' = res_extents res \<union> (\<Union>m \<in> set (matches_of B st orig block len). found X (blen B st) m)"
    using compare_extents_ok [OF assms(1-4), where n = 0 and X = X and B = B and len = len] assms(5) by auto
  have m: "\<forall>x \<in> set (m # ms). \<not> same_hash x \<and> below E x" using differ by (fastforce simp: same_hash_def below_def)
  have "contiguous B (last ps) m" "same_hash q" "below E q" using next_to again by (simp_all add: contiguous_def same_hash_def below_def)
  from match_after_mismatch [where len = "blen B st", OF equal(1) walk equal(2) this(1) m this(2,3) equal(3)]
  obtain n where n: "0 < n" "duplicate_run B E (take n (q # xs))"
      "blen B st (snd (last (take n (q # xs)))) + b_loff (snd (last (take n (q # xs)))) - 1 \<le> E \<longrightarrow>
        (m, take n (q # xs)) \<in> set (matches_of B st orig block len)"
    unfolding matches_of_def pairs_after_def E by blast
  define qs where "qs = take n (q # xs)"
  have "found X (blen B st) (m, qs) \<subseteq> res_extents res'" if "blen B st (snd (last qs)) + b_loff (snd (last qs)) - 1 \<le> E"
    using n(3) that r(2) unfolding qs_def by blast
  then have "blen B st (snd (last qs)) + b_loff (snd (last qs)) - 1 \<le> E \<longrightarrow>
      {(b_file (fst m), b_loff (fst m)), (b_file (snd m), b_loff (snd m))} \<subseteq>
        res_extents res' `` {(blen B st (fst (last qs)) + b_loff (fst (last qs)) - 1 - b_loff (fst m) + 1, match_id X qs)}"
    by (auto simp: found_def)
  moreover have "qs \<noteq> []" "prefix qs (q # xs)" "duplicate_run B E qs" using n(1,2) by (simp_all add: qs_def take_is_prefix)
  ultimately show ?thesis using r(1) by (intro exI [of _ res'] exI [of _ qs]) blast
qed

text \<open>The middle blocks of the example differ; they are filed together with the last ones.\<close>

theorem compare_extents_includes_mismatch_witness:
  "\<exists>res' g. compare_extents example_xxh3 (\<lambda>_. (True, True, True)) 4096 example_files 64 (example_block 1 64 0 1)
     65 (example_block 4 65 0 1) 12289 init_results_tree = Some (0, res') \<and> {(64, 4096), (65, 4096)} \<subseteq> res_extents res' `` {g} \<and>
     b_parent (example_block 2 64 4096 2) \<noteq> b_parent (example_block 5 65 4096 4)"
proof -
  let ?b = "example_block 1 64 0 1" and ?c = "example_block 4 65 0 1"
  let ?m = "(example_block 2 64 4096 2, example_block 5 65 4096 4)" and ?q = "(example_block 3 64 8192 3, example_block 6 65 8192 3)"
  have mem: "?b \<in># example_blocks" "?c \<in># example_blocks" by (simp_all add: example_blocks_def)
  have room: "room_for (Suc (length (blocks_after example_files ?b))) init_results_tree"
    by (rule room_for_init) (simp add: blocks_after_def example_defs)
  have w: "(?b, ?c) # zip (blocks_after example_files ?b) (blocks_after example_files ?c) = [(?b, ?c)] @ (?m # []) @ ?q # []"
    by (simp add: blocks_after_def example_defs)
  have l: "blen 4096 example_files b = 4096" if "b_file b = 64 \<or> b_file b = 65" "b_loff b = 0 \<or> b_loff b = 4096 \<or> b_loff b = 8192" for b
    using that by (auto simp: blen_def block_len_def example_defs)
  have E: "(12288 :: u64) = b_loff ?c + 12289 - 1" by (simp add: example_block_def)
  have dr: "duplicate_run 4096 12288 [(?b, ?c)]" by (simp add: duplicate_run_def same_hash_def below_def example_block_def)
  have bl: "blen 4096 example_files (example_block n 64 8192 3) = 4096" "blen 4096 example_files (example_block n 65 8192 3) = 4096"
      "blen 4096 example_files ?c = 4096" for n by (rule l; simp add: example_block_def)+
  have "\<exists>res' qs. compare_extents example_xxh3 (\<lambda>_. (True, True, True)) 4096 example_files (b_file ?b) ?b (b_file ?c) ?c 12289 init_results_tree = Some (0, res') \<and>
      qs \<noteq> [] \<and> prefix qs (?q # []) \<and> duplicate_run 4096 12288 qs \<and>
      (blen 4096 example_files (snd (last qs)) + b_loff (snd (last qs)) - 1 \<le> 12288 \<longrightarrow>
        {(b_file (fst ?m), b_loff (fst ?m)), (b_file (snd ?m), b_loff (snd ?m))} \<subseteq>
          res_extents res' `` {(blen 4096 example_files (fst (last qs)) + b_loff (fst (last qs)) - 1 - b_loff (fst ?m) + 1, match_id example_xxh3 qs)})"
    by (rule compare_extents_includes_mismatch [OF example_files_inv mem init_results_inv(1) room E w _ dr])
      (simp_all add: bl, simp_all add: example_block_def)
  then obtain res' qs where r: "compare_extents example_xxh3 (\<lambda>_. (True, True, True)) 4096 example_files (b_file ?b) ?b (b_file ?c) ?c 12289 init_results_tree = Some (0, res')"
      "qs \<noteq> []" "prefix qs (?q # [])"
      "blen 4096 example_files (snd (last qs)) + b_loff (snd (last qs)) - 1 \<le> 12288 \<longrightarrow>
        {(b_file (fst ?m), b_loff (fst ?m)), (b_file (snd ?m), b_loff (snd ?m))} \<subseteq>
          res_extents res' `` {(blen 4096 example_files (fst (last qs)) + b_loff (fst (last qs)) - 1 - b_loff (fst ?m) + 1, match_id example_xxh3 qs)}"
    by blast
  have "qs = [?q]" using r(2,3) by (auto simp: prefix_Cons)
  then have "{(64, 4096), (65, 4096)} \<subseteq> res_extents res' `` {(8192, match_id example_xxh3 qs)}"
    using r(4) by (simp add: bl) (simp add: example_block_def)
  with r(1) show ?thesis by (intro exI [of _ res'] exI [of _ "(8192, match_id example_xxh3 qs)"]) (simp add: example_block_def)
qed

text \<open>
  With a search length of \<open>UINT64_MAX\<close>, which is meant to search until the end of the file, the
  end of the range wraps around to before the block, so nothing is compared and nothing recorded.
\<close>

theorem compare_extents_unlimited:
  assumes "2 \<le> b_loff block"
  shows "compare_extents X rooms B st (b_file orig) orig (b_file block) block (- 1) res = Some (0, res)"
proof -
  have e: "b_loff block + - 1 - 1 = b_loff block - 2" by simp
  have "\<not> b_loff block < b_loff block - 2" using assms by (simp add: not_less word_le_nat_alt unat_sub)
  then show ?thesis
    unfolding compare_extents_def e
    by (subst next_match.simps, subst fast_forward.simps) (simp add: match_loop.simps)
qed

theorem compare_extents_unlimited_witness:
  "compare_extents example_xxh3 (\<lambda>_. (True, True, True)) 4096 example_files 64 (example_block 2 64 4096 2)
     65 (example_block 5 65 4096 4) (- 1) init_results_tree = Some (0, init_results_tree)"
  using compare_extents_unlimited [of "example_block 5 65 4096 4" example_xxh3 _ 4096 example_files "example_block 2 64 4096 2"]
  by (simp add: example_block_def)

end
