(* ===== verification/RunDedupe.thy ===== *)
theory RunDedupe
  imports Dedupe Filerec ResultsTree
begin

text \<open>
  Deduplicating the groups of the results tree, \<open>run_dedupe.c\<close>. For one group, \<open>dedupe_extent_list\<close>
  drops the extents that share their physical extent already (\<open>clean_deduped\<close>), opens the files,
  queues the extents in batches on a context of \<open>Dedupe\<close>, runs each batch against the kernel and
  counts the bytes that are shared afterwards. \<open>extent_dedupe_worker\<close> does that and frees the group;
  \<open>dedupe_results\<close> does it for all groups.

  \<open>sys\<close> collects what is outside: \<open>open\<close>, the two FIEMAP calls, the dedupe ioctl on a descriptor,
  \<open>fstatfs\<close>, and whether allocations succeed; \<open>fiemap_room\<close> is the allocation of \<open>do_fiemap\<close>, whose
  result is not checked. What is asked of the database is the list
  \<open>ds_db\<close>, and \<open>ds_log\<close> are the statuses that are printed. The threads of the pool run one after
  the other here. An extent is named by its file and offset, a group by its length and digest.
\<close>

datatype db_op =
    dbfile_remove_file string
  | dbfile_remove_extent_hashes int
  | dbfile_update_extent_poff int u64 u64

record 'w sys =
  sys_open :: "string \<Rightarrow> int set \<Rightarrow> int \<times> int"
  sys_fiemap :: "int \<Rightarrow> (int \<times> u32) \<times> (u32 \<Rightarrow> int \<times> fiemap)"
  sys_dedupe :: "int \<Rightarrow> 'w \<Rightarrow> dedupe_range \<Rightarrow> int \<times> dedupe_range \<times> 'w"
  sys_statfs :: "int \<times> u32"
  fiemap_room :: "ext_key \<Rightarrow> bool"
  token_room :: "fptr \<Rightarrow> bool"
  ctxt_room :: bool
  same_room :: bool
  req_room :: "ext_key \<Rightarrow> bool"

record 'w dedupe_state =
  ds_files :: filerecs
  ds_open :: "fptr rb_tree"
  ds_res :: results_tree
  ds_fs_blocksize :: u32
  ds_world :: 'w
  ds_db :: "db_op list"
  ds_log :: "(fptr \<times> int) list"
  kern_bytes :: u64
  fiemap_bytes :: u64

section \<open>Model\<close>

text \<open>The printed statuses, the bytes and the context.\<close>

partial_function (option) process_dedupe_results ::
    "dedupe_ctxt \<Rightarrow> u64 \<Rightarrow> (fptr \<times> int) list \<Rightarrow> (u64 \<times> (fptr \<times> int) list \<times> dedupe_ctxt) option" where
  "process_dedupe_results ctxt kern log = do {
     (done, target_status, target_loff, target_bytes, f, ctxt) \<leftarrow> pop_one_dedupe_result ctxt;
     let kern = kern + target_bytes;
     let log = (if target_status = 0 \<or> target_status = - EINVAL \<and> f = dc_ioctl_file ctxt then log
                else log @ [(f, target_status)]);
     if done = 0 then process_dedupe_results ctxt kern log else Some (kern, log, ctxt)
   }"

text \<open>A pointer to an extent of a group.\<close>

definition find_extent :: "dupe_extents \<Rightarrow> ext_key \<Rightarrow> extent option" where
  "find_extent dext k = rb_search (\<lambda>x. extents_rb_cmp (ext_key x) k) (de_extents_root dext)"

fun add_shared_loop :: "dupe_extents \<Rightarrow> ext_key list \<Rightarrow> u64 \<Rightarrow> u64 option" where
  "add_shared_loop dext [] shared = Some shared"
| "add_shared_loop dext (k # ks) shared = do {
     extent \<leftarrow> find_extent dext k;
     add_shared_loop dext ks (shared + e_shared_bytes extent)
   }"

definition add_shared_extents :: "dupe_extents \<Rightarrow> u64 \<Rightarrow> u64 option" where
  "add_shared_extents dext shared = add_shared_loop dext (de_extents dext) shared"

text \<open>\<open>bytes\<close> lives across the iterations.\<close>

fun shared_post_loop :: "'w sys \<Rightarrow> u64 \<Rightarrow> ext_key list \<Rightarrow> u64 \<Rightarrow> u64 \<Rightarrow> filerecs \<Rightarrow> (u64 \<times> filerecs) option" where
  "shared_post_loop E len [] bytes shared st = Some (shared, st)"
| "shared_post_loop E len (k # ks) bytes shared st = do {
     let (file, loff) = k;
     (ret, st) \<leftarrow> filerec_open (sys_open E) file st;
     if ret \<noteq> 0 then Some (shared, st)
     else do {
       r \<leftarrow> recs st file;
       let (count_reply, map_reply) = sys_fiemap E (fd r);
       (ret, bytes) \<leftarrow> fiemap_count_shared count_reply map_reply (fiemap_room E k) loff (loff + len) bytes;
       let shared = shared + bytes;
       st \<leftarrow> filerec_close file st;
       if ret \<noteq> 0 then Some (shared, st) else shared_post_loop E len ks bytes shared st
     }
   }"

definition add_shared_extents_post :: "'w sys \<Rightarrow> dupe_extents \<Rightarrow> u64 \<Rightarrow> filerecs \<Rightarrow> (u64 \<times> filerecs) option" where
  "add_shared_extents_post E dext shared st = shared_post_loop E (de_len dext) (de_extents dext) 0 shared st"

definition disk_extent_grew :: "dupe_extents \<Rightarrow> extent \<Rightarrow> bool" where
  "disk_extent_grew dext extent \<longleftrightarrow> e_plen extent < de_len dext"

text \<open>\<open>rb_next\<close> on the node of an extent in the tree of its group.\<close>

definition extent_next :: "dupe_extents \<Rightarrow> ext_key \<Rightarrow> ext_key option option" where
  "extent_next dext k = do {
     p \<leftarrow> rb_locate (\<lambda>x. extents_rb_cmp (ext_key x) k) (de_extents_root dext) [];
     Some (map_option (\<lambda>q. ext_key (cursor_item q)) (rb_next p))
   }"

text \<open>
  The inner loop of \<open>clean_deduped\<close>. It ends at the end of the tree, or returns from the function
  with the group still there or freed.
\<close>

datatype clean_end = Next nat | Keep | Freed

partial_function (option) clean_inner ::
    "group_key \<Rightarrow> ext_key \<Rightarrow> ext_key option \<Rightarrow> nat \<Rightarrow> results_tree \<Rightarrow> (clean_end \<times> results_tree) option" where
  "clean_inner g outer inner extents_kept res = (case inner of
       None \<Rightarrow> Some (Next extents_kept, res)
     | Some k \<Rightarrow> do {
         dext \<leftarrow> find_dupe_extents res (snd g) (fst g);
         outer_extent \<leftarrow> find_extent dext outer;
         inner_extent \<leftarrow> find_extent dext k;
         inner \<leftarrow> extent_next dext k;
         if de_num_dupes dext = 2 \<and> extents_kept \<noteq> 0 then Some (Keep, res)
         else if e_poff inner_extent \<noteq> 0 \<and> e_poff outer_extent = e_poff inner_extent \<and>
             \<not> disk_extent_grew dext inner_extent then do {
           (left, res) \<leftarrow> remove_extent res g k;
           if left = 0 then Some (Freed, res) else clean_inner g outer inner extents_kept res
         }
         else clean_inner g outer inner (extents_kept + 1) res
       })"

partial_function (option) clean_outer ::
    "group_key \<Rightarrow> ext_key option \<Rightarrow> bool \<Rightarrow> nat \<Rightarrow> results_tree \<Rightarrow> (bool \<times> results_tree) option" where
  "clean_outer g outer first extents_kept res = (case outer of
       None \<Rightarrow> Some (True, res)
     | Some k \<Rightarrow> do {
         dext \<leftarrow> find_dupe_extents res (snd g) (fst g);
         outer_extent \<leftarrow> find_extent dext k;
         let extents_kept = (if first \<and> (e_poff outer_extent = 0 \<or> disk_extent_grew dext outer_extent)
           then extents_kept + 1 else extents_kept);
         inner \<leftarrow> extent_next dext k;
         (how, res) \<leftarrow> clean_inner g k inner extents_kept res;
         case how of
           Keep \<Rightarrow> Some (True, res)
         | Freed \<Rightarrow> Some (False, res)
         | Next extents_kept \<Rightarrow> do {
             dext \<leftarrow> find_dupe_extents res (snd g) (fst g);
             outer \<leftarrow> extent_next dext k;
             clean_outer g outer False extents_kept res
           }
       })"

text \<open>The flag tells whether the group is still there (\<open>*ret_dext\<close> is not NULL).\<close>

definition clean_deduped :: "group_key \<Rightarrow> results_tree \<Rightarrow> (bool \<times> results_tree) option" where
  "clean_deduped g res = do {
     dext \<leftarrow> find_dupe_extents res (snd g) (fst g);
     if de_num_dupes dext = 0 then Some (True, res)
     else clean_outer g (map_option (\<lambda>n. ext_key (cursor_item n)) (rb_first (de_extents_root dext))) True 0 res
   }"

text \<open>From the label \<open>run_dedupe\<close> to the label \<open>close_files\<close>.\<close>

definition fd_of :: "filerecs \<Rightarrow> fptr \<Rightarrow> int" where
  "fd_of st file = (case recs st file of None \<Rightarrow> -1 | Some r \<Rightarrow> fd r)"

definition run_dedupe :: "'w sys \<Rightarrow> dedupe_ctxt \<Rightarrow> 'w dedupe_state \<Rightarrow> 'w dedupe_state option" where
  "run_dedupe E ctxt S =
     (if num_queued ctxt = 0 then Some S
      else do {
        (ret, fsb, ctxt, w) \<leftarrow> dedupe_extents (sys_dedupe E (fd_of (ds_files S) (dc_ioctl_file ctxt))) (fd_of (ds_files S))
          (sys_statfs E) 0 (ds_fs_blocksize S) ctxt (ds_world S);
        let S = S\<lparr>ds_fs_blocksize := fsb, ds_world := w\<rparr>;
        if ret = 0 then do {
          (kern, log, ctxt) \<leftarrow> process_dedupe_results ctxt (kern_bytes S) (ds_log S);
          Some (S\<lparr>kern_bytes := kern, ds_log := log\<rparr>)
        }
        else Some S
      })"

text \<open>From \<open>close_files\<close> to the end of the body; the flag is False for the \<open>break\<close>.\<close>

definition close_files :: "'w sys \<Rightarrow> bool \<Rightarrow> ext_key option \<Rightarrow> 'w dedupe_state \<Rightarrow> (bool \<times> 'w dedupe_state) option" where
  "close_files E is_last tgt S = do {
     (t, st) \<leftarrow> filerec_close_open_list (ds_open S) (ds_files S);
     if is_last then Some (True, S\<lparr>ds_open := t, ds_files := st\<rparr>)
     else do {
       k \<leftarrow> tgt;
       (ret, t, st) \<leftarrow> filerec_open_once (sys_open E) (token_room E (fst k)) (fst k) t st;
       Some (ret = 0, S\<lparr>ds_open := t, ds_files := st\<rparr>)
     }
   }"

text \<open>
  The body of the loop over the extents of the group: it goes on with a context and a target, breaks
  out of the loop, or jumps to \<open>out\<close> with an error.
\<close>

datatype 'w loop_step =
    Continue "dedupe_ctxt option" "ext_key option" "'w dedupe_state"
  | Break "'w dedupe_state"
  | Out int "dedupe_ctxt option" "'w dedupe_state"

definition end_batch ::
    "'w sys \<Rightarrow> bool \<Rightarrow> ext_key option \<Rightarrow> 'w dedupe_state \<Rightarrow> 'w loop_step option" where
  "end_batch E is_last tgt S = do {
     (cont, S) \<leftarrow> close_files E is_last tgt S;
     Some (if cont then Continue None tgt S else Break S)
   }"

definition open_failed ::
    "'w sys \<Rightarrow> int \<Rightarrow> ext_key \<Rightarrow> bool \<Rightarrow> dedupe_ctxt option \<Rightarrow> ext_key option \<Rightarrow> 'w dedupe_state \<Rightarrow> 'w loop_step option" where
  "open_failed E ret k is_last ctxt tgt S = do {
     r \<leftarrow> recs (ds_files S) (fst k);
     let S = (if ret = ENOENT then S\<lparr>ds_db := ds_db S @ [dbfile_remove_file (filename r)]\<rparr> else S);
     if ctxt \<noteq> None \<and> is_last then do {
       S \<leftarrow> run_dedupe E (the ctxt) S;
       end_batch E is_last tgt S
     }
     else Some (Continue ctxt tgt S)
   }"

definition queue_extent ::
    "'w sys \<Rightarrow> ext_key \<Rightarrow> bool \<Rightarrow> dedupe_ctxt \<Rightarrow> ext_key \<Rightarrow> 'w dedupe_state \<Rightarrow> 'w loop_step option" where
  "queue_extent E k is_last c tgt S = do {
     (rc, c) \<leftarrow> add_extent_to_dedupe (req_room E k) c (snd k) (fst k);
     if rc < 0 then Some (Out ENOMEM (Some c) S)
     else if rc \<noteq> 0 \<and> \<not> is_last then Some (Continue (Some c) (Some tgt) S)
     else do {
       S \<leftarrow> run_dedupe E c S;
       end_batch E is_last (Some tgt) S
     }
   }"

definition dedupe_one ::
    "'w sys \<Rightarrow> dupe_extents \<Rightarrow> ext_key \<Rightarrow> bool \<Rightarrow> dedupe_ctxt option \<Rightarrow> ext_key option \<Rightarrow> 'w dedupe_state \<Rightarrow> 'w loop_step option" where
  "dedupe_one E dext k is_last ctxt tgt S = do {
     (ret, t, st) \<leftarrow> filerec_open_once (sys_open E) (token_room E (fst k)) (fst k) (ds_open S) (ds_files S);
     let S = S\<lparr>ds_open := t, ds_files := st\<rparr>;
     if ret \<noteq> 0 then open_failed E ret k is_last ctxt tgt S
     else case ctxt of
       Some c \<Rightarrow> do { target \<leftarrow> tgt; queue_extent E k is_last c target S }
     | None \<Rightarrow>
         if tgt = None \<and> is_last then end_batch E is_last tgt S
         else do {
           let target = (case tgt of None \<Rightarrow> k | Some t \<Rightarrow> t);
           case new_dedupe_ctxt (ctxt_room E) (same_room E) (de_num_dupes dext) (snd target) (de_len dext) (fst target) of
             None \<Rightarrow> Some (Out ENOMEM None S)
           | Some c \<Rightarrow>
               if target = k then Some (Continue (Some c) (Some target) S)
               else queue_extent E k is_last c target S
         }
   }"

text \<open>The loop: the error of a jump to \<open>out\<close>, if any, the context at its end, and the state.\<close>

fun dedupe_loop ::
    "'w sys \<Rightarrow> dupe_extents \<Rightarrow> ext_key list \<Rightarrow> dedupe_ctxt option \<Rightarrow> ext_key option \<Rightarrow> 'w dedupe_state \<Rightarrow>
     (int option \<times> dedupe_ctxt option \<times> 'w dedupe_state) option" where
  "dedupe_loop E dext [] ctxt tgt S = Some (None, ctxt, S)"
| "dedupe_loop E dext (k # ks) ctxt tgt S = (case dedupe_one E dext k (ks = []) ctxt tgt S of
       None \<Rightarrow> None
     | Some (Continue ctxt tgt S) \<Rightarrow> dedupe_loop E dext ks ctxt tgt S
     | Some (Break S) \<Rightarrow> Some (None, None, S)
     | Some (Out err ctxt S) \<Rightarrow> Some (Some err, ctxt, S))"

abbreviation (input) DEDUPE_EXTENTS_CLEANED :: int where "DEDUPE_EXTENTS_CLEANED \<equiv> -1"

definition dedupe_extent_list :: "'w sys \<Rightarrow> group_key \<Rightarrow> 'w dedupe_state \<Rightarrow> (int \<times> 'w dedupe_state) option" where
  "dedupe_extent_list E g S = do {
     dext \<leftarrow> find_dupe_extents (ds_res S) (snd g) (fst g);
     abort_on (de_num_dupes dext < 2);
     (alive, res) \<leftarrow> clean_deduped g (ds_res S);
     let S = S\<lparr>ds_res := res, ds_open := RB_NULL\<rparr>;
     if \<not> alive then Some (DEDUPE_EXTENTS_CLEANED, S)
     else do {
       dext \<leftarrow> find_dupe_extents (ds_res S) (snd g) (fst g);
       shared_prev \<leftarrow> add_shared_extents dext 0;
       (err, ctxt, S) \<leftarrow> dedupe_loop E dext (de_extents dext) None None S;
       case err of
         Some ret \<Rightarrow> do {
           (t, st) \<leftarrow> filerec_close_open_list (ds_open S) (ds_files S);
           abort_on (t \<noteq> RB_NULL);
           Some (ret, S\<lparr>ds_open := t, ds_files := st\<rparr>)
         }
       | None \<Rightarrow> do {
           abort_on (ctxt \<noteq> None);
           abort_on (ds_open S \<noteq> RB_NULL);
           (shared_post, st) \<leftarrow> add_shared_extents_post E dext 0 (ds_files S);
           let S = S\<lparr>ds_files := st, fiemap_bytes := (if shared_prev < shared_post
             then fiemap_bytes S + (shared_post - shared_prev) else fiemap_bytes S)\<rparr>;
           (t, st) \<leftarrow> filerec_close_open_list (ds_open S) (ds_files S);
           abort_on (t \<noteq> RB_NULL);
           Some (0, S\<lparr>ds_open := t, ds_files := st\<rparr>)
         }
     }
   }"

fun update_hashfile :: "'w sys \<Rightarrow> bool \<Rightarrow> ext_key list \<Rightarrow> 'w dedupe_state \<Rightarrow> 'w dedupe_state option" where
  "update_hashfile E whole_file [] S = Some S"
| "update_hashfile E whole_file (k # ks) S = do {
     r \<leftarrow> recs (ds_files S) (fst k);
     if whole_file then
       update_hashfile E whole_file ks (S\<lparr>ds_db := ds_db S @ [dbfile_remove_extent_hashes (fileid r)]\<rparr>)
     else do {
       (ret, poff, st) \<leftarrow> fiemap_scan_extent (sys_open E) (sys_fiemap E) (fiemap_room E k) (fst k) (snd k) (ds_files S);
       let S = S\<lparr>ds_files := st\<rparr>;
       let S = (case poff of Some p \<Rightarrow>
           if ret = 0 then S\<lparr>ds_db := ds_db S @ [dbfile_update_extent_poff (fileid r) (snd k) p]\<rparr> else S
         | None \<Rightarrow> S);
       update_hashfile E whole_file ks S
     }
   }"

definition extent_dedupe_worker :: "'w sys \<Rightarrow> bool \<Rightarrow> group_key \<Rightarrow> 'w dedupe_state \<Rightarrow> (int \<times> 'w dedupe_state) option" where
  "extent_dedupe_worker E whole_file g S = do {
     (ret, S) \<leftarrow> dedupe_extent_list E g S;
     if ret \<noteq> 0 then Some (if ret = DEDUPE_EXTENTS_CLEANED then 0 else ret, S)
     else do {
       dext \<leftarrow> find_dupe_extents (ds_res S) (snd g) (fst g);
       S \<leftarrow> update_hashfile E whole_file (de_extents dext) S;
       if de_extents dext \<noteq> [] then do {
         res \<leftarrow> dupe_extents_free g (ds_res S);
         Some (0, S\<lparr>ds_res := res\<rparr>)
       }
       else Some (0, S)
     }
   }"

text \<open>The groups in the order of the tree, as \<open>push_extents\<close> hands them to the pool.\<close>

fun push_extents :: "'w sys \<Rightarrow> bool \<Rightarrow> group_key list \<Rightarrow> 'w dedupe_state \<Rightarrow> 'w dedupe_state option" where
  "push_extents E whole_file [] S = Some S"
| "push_extents E whole_file (g # gs) S = do {
     dext \<leftarrow> find_dupe_extents (ds_res S) (snd g) (fst g);
     if de_num_dupes dext < 2 then push_extents E whole_file gs S
     else do {
       (ret, S) \<leftarrow> extent_dedupe_worker E whole_file g S;
       push_extents E whole_file gs S
     }
   }"

definition dedupe_results :: "'w sys \<Rightarrow> bool \<Rightarrow> 'w dedupe_state \<Rightarrow> 'w dedupe_state option" where
  "dedupe_results E whole_file S =
     (if rt_root (ds_res S) = RB_NULL then Some S
      else push_extents E whole_file (map group_key (rb_inorder (rt_root (ds_res S)))) S)"

section \<open>Cleaning a group\<close>

text \<open>The extents of a group in the order of its tree.\<close>

definition extents_of :: "dupe_extents \<Rightarrow> extent list" where
  "extents_of d = rb_inorder (de_extents_root d)"

definition in_group :: "results_tree \<Rightarrow> group_key \<Rightarrow> extent list \<Rightarrow> bool" where
  "in_group res g L \<longleftrightarrow> res_inv res \<and> (\<exists>d. find_dupe_extents res (snd g) (fst g) = Some d \<and> extents_of d = L)"

lemma in_groupE:
  assumes "in_group res g L"
  obtains d where "find_dupe_extents res (snd g) (fst g) = Some d" "extents_of d = L" "dext_ok d" "group_key d = g"
    "length (de_extents d) = length L" "set (de_extents d) = ext_key ` set L" "res_extents res `` {g} = ext_key ` set L"
    "distinct (map ext_key L)"
proof -
  from assms obtain d where d: "res_inv res" "find_dupe_extents res (snd g) (fst g) = Some d" "extents_of d = L"
    by (auto simp: in_group_def)
  note grp = group_extents [OF d(1,2)]
  have idx: "rb_index ext_key (\<lambda>k y. extents_rb_cmp y k) (de_extents_root d)" using grp(2) by (simp add: dext_ok_def)
  have dist: "distinct (map ext_key L)"
    using exts.ordered_distinct idx d(3) by (auto simp: rb_index_def extents_of_def)
  have s: "set (de_extents d) = ext_key ` set L" "distinct (de_extents d)"
    using grp(2) d(3) by (auto simp: dext_ok_def extents_of_def)
  have "length (de_extents d) = card (set (map ext_key L))" using distinct_card [OF s(2)] s(1) by simp
  then have "length (de_extents d) = length L" using distinct_card [OF dist] by simp
  with that d grp s dist show thesis by metis
qed

lemma find_extent_in:
  assumes "dext_ok d" "e \<in> set (extents_of d)"
  shows "find_extent d (ext_key e) = Some e"
  using exts.find_unique [of "de_extents_root d" e] assms by (simp add: find_extent_def dext_ok_def extents_of_def)

lemma extent_next_in:
  assumes "dext_ok d" "extents_of d = xs @ e # ys"
  shows "extent_next d (ext_key e) = Some (case ys of [] \<Rightarrow> None | y # _ \<Rightarrow> Some (ext_key y))"
proof -
  have "rb_index ext_key (\<lambda>k y. extents_rb_cmp y k) (de_extents_root d)" using assms(1) by (simp add: dext_ok_def)
  from exts.locate_next [OF this, of xs e ys] assms(2) obtain p where
    p: "rb_locate (\<lambda>x. extents_rb_cmp (ext_key x) (ext_key e)) (de_extents_root d) [] = Some p"
      "map_option cursor_item (rb_next p) = (case ys of [] \<Rightarrow> None | y # _ \<Rightarrow> Some y)" by (auto simp: extents_of_def)
  have "map_option (\<lambda>q. ext_key (cursor_item q)) (rb_next p) = map_option ext_key (map_option cursor_item (rb_next p))"
    by (simp add: option.map_comp comp_def)
  with p show ?thesis by (simp add: extent_next_def split: list.split)
qed

abbreviation next_key :: "extent list \<Rightarrow> ext_key option" where
  "next_key ys \<equiv> (case ys of [] \<Rightarrow> None | y # _ \<Rightarrow> Some (ext_key y))"

lemma remove_all_or_one:
  assumes "in_group res g (xs @ e # ys)" "2 \<le> length (xs @ e # ys)"
  shows "\<exists>left res'. remove_extent res g (ext_key e) = Some (left, res') \<and> res_inv res' \<and>
    (if left = 0 then length (xs @ e # ys) = 2 \<and> res_extents res' = res_extents res - {g} \<times> UNIV
     else in_group res' g (xs @ ys) \<and> 2 \<le> length (xs @ ys) \<and> res_extents res' = res_extents res - {(g, ext_key e)})"
proof -
  have inv: "res_inv res" using assms(1) by (simp add: in_group_def)
  from assms(1) obtain d where d: "find_dupe_extents res (snd g) (fst g) = Some d" "extents_of d = xs @ e # ys" "dext_ok d"
      "group_key d = g" "length (de_extents d) = length (xs @ e # ys)" "set (de_extents d) = ext_key ` set (xs @ e # ys)"
      "res_extents res `` {g} = ext_key ` set (xs @ e # ys)" by (rule in_groupE)
  show ?thesis
  proof (cases "length (de_extents d) = 2")
    case True
    have k: "ext_key e \<in> set (de_extents d)" using d(6) by simp
    obtain result res' where r: "remove_extent res g (ext_key e) = Some (result, res')" "res_inv res'" "unat result = 0"
        "res_extents res' = res_extents res - {g} \<times> set (de_extents d)"
      using remove_extent_ok [OF inv d(1,4,3) k] True by auto
    have "result = 0" using r(3) by (simp add: unat_eq_zero)
    moreover have "res_extents res' = res_extents res - {g} \<times> UNIV" using r(4) d(6,7) by auto
    ultimately show ?thesis using r(1,2) d(5) True by auto
  next
    case False
    then have l: "2 < length (de_extents d)" using assms(2) d(5) by simp
    then have "2 \<le> length (xs @ ys)" using d(5) by simp
    with remove_extent_group [OF inv d(1) _ l, of xs e ys] d(2) show ?thesis
      by (auto simp: extents_of_def in_group_def)
  qed
qed

text \<open>
  An extent of a group of length \<open>len\<close> that shares the physical extent of another one: its offset
  on disk is known and the same, and its physical extent covers the whole length.
\<close>

definition already_deduped :: "u64 \<Rightarrow> extent \<Rightarrow> extent \<Rightarrow> bool" where
  "already_deduped len e o' \<longleftrightarrow> e_poff e \<noteq> 0 \<and> e_poff e = e_poff o' \<and> len \<le> e_plen e"

text \<open>
  What the inner loop leaves of the extents \<open>ys\<close> after \<open>o'\<close>. It stops early only at a group of two, and
  it frees the group only when nothing was kept.
\<close>

definition inner_left ::
    "results_tree \<Rightarrow> group_key \<Rightarrow> extent list \<Rightarrow> extent \<Rightarrow> extent list \<Rightarrow> nat \<Rightarrow> clean_end \<Rightarrow> results_tree \<Rightarrow> extent list \<Rightarrow> bool" where
  "inner_left res g pre o' ys kept how res' zs \<longleftrightarrow> res_inv res' \<and>
     (how = Freed \<longrightarrow> kept = 0 \<and> (\<forall>e \<in> set ys. already_deduped (fst g) e o') \<and> res_extents res' = res_extents res - {g} \<times> UNIV) \<and>
     (how \<noteq> Freed \<longrightarrow> in_group res' g (pre @ zs) \<and> 2 \<le> length (pre @ zs) \<and> length zs \<le> length ys \<and> set zs \<subseteq> set ys \<and>
        (\<forall>e \<in> set ys - set zs. already_deduped (fst g) e o') \<and>
        res_extents res' = res_extents res - {g} \<times> ext_key ` (set ys - set zs) \<and>
        (kept = 0 \<longrightarrow> (\<exists>e \<in> set ys. \<not> already_deduped (fst g) e o'))) \<and>
     (how = Keep \<longrightarrow> length (pre @ zs) = 2) \<and>
     (\<forall>kept'. how = Next kept' \<longrightarrow> kept' \<noteq> 0 \<and> (\<forall>e \<in> set zs. \<not> already_deduped (fst g) e o'))"

lemma inner_left_skip:
  assumes "inner_left res g (pre @ [y]) o' ys (kept + 1) how res' zs" "y \<notin> set ys" "\<not> already_deduped (fst g) y o'"
  shows "inner_left res g pre o' (y # ys) kept how res' (y # zs)"
proof -
  have "set (y # ys) - set (y # zs) = set ys - set zs" using assms(2) by auto
  then show ?thesis using assms(1,3) unfolding inner_left_def by auto
qed

lemma inner_left_rm:
  assumes "inner_left res1 g pre o' ys kept how res' zs" "y \<notin> set ys" "already_deduped (fst g) y o'"
    "res_extents res1 = res_extents res - {(g, ext_key y)}"
  shows "inner_left res g pre o' (y # ys) kept how res' zs"
proof (cases "how = Freed")
  case True
  then have "kept = 0" "\<forall>e \<in> set ys. already_deduped (fst g) e o'" "res_extents res' = res_extents res1 - {g} \<times> UNIV" "res_inv res'"
    using assms(1) by (auto simp: inner_left_def)
  moreover from this have "res_extents res' = res_extents res - {g} \<times> UNIV" using assms(4) by auto
  ultimately show ?thesis using True assms(3) by (auto simp: inner_left_def)
next
  case False
  then have z: "set zs \<subseteq> set ys" "res_extents res' = res_extents res1 - {g} \<times> ext_key ` (set ys - set zs)"
      "\<forall>e \<in> set ys - set zs. already_deduped (fst g) e o'"
    using assms(1) by (auto simp: inner_left_def)
  have e: "set (y # ys) - set zs = insert y (set ys - set zs)" using z(1) assms(2) by auto
  have r: "res_extents res' = res_extents res - {g} \<times> ext_key ` (set (y # ys) - set zs)" unfolding e z(2) assms(4) by auto
  have d: "\<forall>e \<in> set (y # ys) - set zs. already_deduped (fst g) e o'" unfolding e using z(3) assms(3) by simp
  show ?thesis unfolding inner_left_def using False assms(1) r d by (auto simp: inner_left_def)
qed

lemma clean_inner_ok:
  "in_group res g (as @ o' # bs @ ys) \<Longrightarrow> 2 \<le> length (as @ o' # bs @ ys) \<Longrightarrow> kept = 0 \<longrightarrow> as = [] \<and> bs = [] \<Longrightarrow>
   \<exists>how res' zs. clean_inner g (ext_key o') (next_key ys) kept res = Some (how, res') \<and> inner_left res g (as @ o' # bs) o' ys kept how res' zs"
proof (induction ys arbitrary: bs kept res)
  case Nil
  have "clean_inner g (ext_key o') (next_key []) kept res = Some (Next kept, res)" by (subst clean_inner.simps) simp
  moreover have "res_inv res" using Nil.prems(1) by (simp add: in_group_def)
  moreover have "kept \<noteq> 0" using Nil.prems(2,3) by auto
  ultimately show ?case using Nil.prems by (intro exI [of _ "Next kept"] exI [of _ res] exI [of _ "[]"]) (auto simp: inner_left_def)
next
  case (Cons y ys)
  have inv: "res_inv res" using Cons.prems(1) by (simp add: in_group_def)
  from Cons.prems(1) obtain d where d: "find_dupe_extents res (snd g) (fst g) = Some d" "extents_of d = as @ o' # bs @ y # ys"
      "dext_ok d" "distinct (map ext_key (as @ o' # bs @ y # ys))" "group_key d = g" "length (de_extents d) = length (as @ o' # bs @ y # ys)"
    by (rule in_groupE)
  have fo: "find_extent d (ext_key o') = Some o'" "find_extent d (ext_key y) = Some y"
    by (rule find_extent_in [OF d(3)]; simp add: d(2))+
  have nx: "extent_next d (ext_key y) = Some (next_key ys)"
    using extent_next_in [OF d(3), of "as @ o' # bs" y ys] d(2) by simp
  have "unat (de_num_dupes d) = length (de_extents d)" using d(3) unat_u32_of_nat by (simp add: dext_ok_def)
  then have num: "de_num_dupes d = 2 \<longleftrightarrow> length (as @ o' # bs @ y # ys) = 2"
    unfolding d(6) [symmetric] by (simp add: word_unat_eq_iff)
  have rm_iff: "(e_poff y \<noteq> 0 \<and> e_poff o' = e_poff y \<and> \<not> disk_extent_grew d y) \<longleftrightarrow> already_deduped (fst g) y o'"
    using d(5) by (auto simp: already_deduped_def disk_extent_grew_def group_key_def)
  let ?keep = "length (as @ o' # bs @ y # ys) = 2 \<and> kept \<noteq> 0" and ?rm = "already_deduped (fst g) y o'"
  have step: "clean_inner g (ext_key o') (next_key (y # ys)) kept res =
      (if ?keep then Some (Keep, res)
       else if ?rm then Option.bind (remove_extent res g (ext_key y))
         (\<lambda>(left, res). if left = 0 then Some (Freed, res) else clean_inner g (ext_key o') (next_key ys) kept res)
       else clean_inner g (ext_key o') (next_key ys) (kept + 1) res)"
    unfolding num [symmetric] rm_iff [symmetric] using d(1) fo nx by (subst clean_inner.simps) simp
  have y: "y \<notin> set ys" using d(4) by auto
  consider (keep) "?keep" | (rm) "\<not> ?keep" "?rm" | (skip) "\<not> ?keep" "\<not> ?rm" by blast
  then show ?case
  proof cases
    case keep
    have "clean_inner g (ext_key o') (next_key (y # ys)) kept res = Some (Keep, res)" unfolding step if_P [OF keep] ..
    moreover have "inner_left res g (as @ o' # bs) o' (y # ys) kept Keep res (y # ys)"
      using inv Cons.prems(1,2) keep by (simp add: inner_left_def)
    ultimately show ?thesis by blast
  next
    case skip
    have "in_group res g (as @ o' # (bs @ [y]) @ ys)" "2 \<le> length (as @ o' # (bs @ [y]) @ ys)" using Cons.prems by simp_all
    from Cons.IH [OF this, of "kept + 1"] obtain how res' zs where
      h: "clean_inner g (ext_key o') (next_key ys) (kept + 1) res = Some (how, res')"
        "inner_left res g ((as @ o' # bs) @ [y]) o' ys (kept + 1) how res' zs" by auto
    show ?thesis unfolding step if_not_P [OF skip(1)] if_not_P [OF skip(2)] using h(1) inner_left_skip [OF h(2) y skip(2)] by blast
  next
    case rm
    obtain left res1 where r: "remove_extent res g (ext_key y) = Some (left, res1)" "res_inv res1"
        "if left = 0 then length (as @ o' # bs @ y # ys) = 2 \<and> res_extents res1 = res_extents res - {g} \<times> UNIV
         else in_group res1 g ((as @ o' # bs) @ ys) \<and> 2 \<le> length ((as @ o' # bs) @ ys) \<and> res_extents res1 = res_extents res - {(g, ext_key y)}"
      using remove_all_or_one [of res g "as @ o' # bs" y ys] Cons.prems(1,2) unfolding append.assoc append_Cons by blast
    have st: "clean_inner g (ext_key o') (next_key (y # ys)) kept res =
        (if left = 0 then Some (Freed, res1) else clean_inner g (ext_key o') (next_key ys) kept res1)"
      unfolding step if_not_P [OF rm(1)] if_P [OF rm(2)] using r(1) by simp
    show ?thesis
    proof (cases "left = 0")
      case True
      then have two: "length (as @ o' # bs @ y # ys) = 2" using r(3) by simp
      then have "kept = 0" "ys = []" using rm(1) by auto
      then have "inner_left res g (as @ o' # bs) o' (y # ys) kept Freed res1 []" using r(2,3) rm(2) True by (simp add: inner_left_def)
      then show ?thesis unfolding st if_P [OF True] by blast
    next
      case False
      with r(3) have g1: "in_group res1 g (as @ o' # bs @ ys)" "2 \<le> length (as @ o' # bs @ ys)"
          "res_extents res1 = res_extents res - {(g, ext_key y)}" by auto
      from Cons.IH [OF g1(1,2) Cons.prems(3)] obtain how res' zs where
        h: "clean_inner g (ext_key o') (next_key ys) kept res1 = Some (how, res')" "inner_left res1 g (as @ o' # bs) o' ys kept how res' zs" by blast
      show ?thesis unfolding st if_not_P [OF False] using h(1) inner_left_rm [OF h(2) y rm(2) g1(3)] by blast
    qed
  qed
qed

text \<open>
  What cleaning owes: a group that stays has two extents, stands for all that were in it, and
  unless it is down to two, no extent in it can be dropped for an earlier one.
\<close>

definition cleaned :: "results_tree \<Rightarrow> group_key \<Rightarrow> extent list \<Rightarrow> bool \<Rightarrow> results_tree \<Rightarrow> extent list \<Rightarrow> bool" where
  "cleaned res g L alive res' L' \<longleftrightarrow> res_inv res' \<and>
     (if alive then in_group res' g L' \<and> 2 \<le> length L' \<and> set L' \<subseteq> set L \<and>
        (\<forall>e \<in> set L - set L'. \<exists>o' \<in> set L'. already_deduped (fst g) e o') \<and>
        (length L' = 2 \<or> sorted_wrt (\<lambda>a b. \<not> already_deduped (fst g) b a) L') \<and>
        res_extents res' = res_extents res - {g} \<times> ext_key ` (set L - set L')
      else res_extents res' = res_extents res - {g} \<times> UNIV)"

lemma cleaned_trans:
  assumes "in_group res g L" "set M \<subseteq> set L" "\<forall>e \<in> set L - set M. already_deduped (fst g) e o'"
    "res_extents res1 = res_extents res - {g} \<times> ext_key ` (set L - set M)"
    and c: "cleaned res1 g M alive res' L'" and o': "alive \<Longrightarrow> o' \<in> set L'"
  shows "cleaned res g L alive res' L'"
proof (cases alive)
  case True
  with c have a: "in_group res' g L'" "2 \<le> length L'" "set L' \<subseteq> set M" "\<forall>e \<in> set M - set L'. \<exists>o' \<in> set L'. already_deduped (fst g) e o'"
      "res_extents res' = res_extents res1 - {g} \<times> ext_key ` (set M - set L')" "res_inv res'"
      "length L' = 2 \<or> sorted_wrt (\<lambda>a b. \<not> already_deduped (fst g) b a) L'"
    by (auto simp: cleaned_def)
  have e: "set L - set L' = (set L - set M) \<union> (set M - set L')" using a(3) assms(2) by blast
  have "\<forall>e \<in> set L - set L'. \<exists>o' \<in> set L'. already_deduped (fst g) e o'"
    unfolding e using assms(3) a(4) o' [OF True] by blast
  moreover have "res_extents res' = res_extents res - {g} \<times> ext_key ` (set L - set L')"
    unfolding e a(5) assms(4) by blast
  ultimately show ?thesis using True a assms(2) by (auto simp: cleaned_def)
next
  case False
  then show ?thesis using c assms(4) by (auto simp: cleaned_def)
qed

lemma clean_outer_ok:
  "in_group res g (as @ ys) \<Longrightarrow> 2 \<le> length (as @ ys) \<Longrightarrow> if first then as = [] \<and> kept = 0 else kept \<noteq> 0 \<Longrightarrow>
   sorted_wrt (\<lambda>a b. \<not> already_deduped (fst g) b a) as \<Longrightarrow> \<forall>a \<in> set as. \<forall>b \<in> set ys. \<not> already_deduped (fst g) b a \<Longrightarrow>
   \<exists>alive res' zs. clean_outer g (next_key ys) first kept res = Some (alive, res') \<and> cleaned res g (as @ ys) alive res' (as @ zs) \<and>
     (\<not> alive \<longleftrightarrow> first \<and> (\<forall>e \<in> set ys. already_deduped (fst g) e (hd ys)))"
proof (induction "length ys" arbitrary: as ys first kept res rule: less_induct)
  case less
  have inv: "res_inv res" using less.prems(1) by (simp add: in_group_def)
  show ?case
  proof (cases ys)
    case Nil
    then have "clean_outer g (next_key ys) first kept res = Some (True, res)" by (subst clean_outer.simps) simp
    moreover have "cleaned res g (as @ ys) True res (as @ [])" using less.prems inv Nil by (simp add: cleaned_def)
    moreover have "\<not> first" using less.prems(2,3) Nil by auto
    ultimately show ?thesis by blast
  next
    case (Cons o' rest)
    from less.prems(1) obtain d where d: "find_dupe_extents res (snd g) (fst g) = Some d" "extents_of d = as @ ys" "dext_ok d" "group_key d = g"
      by (rule in_groupE)
    have f: "find_extent d (ext_key o') = Some o'" by (rule find_extent_in [OF d(3)]) (simp add: d(2) Cons)
    have nx: "extent_next d (ext_key o') = Some (next_key rest)" using extent_next_in [OF d(3)] d(2) Cons by simp
    define kept1 where "kept1 = (if first \<and> (e_poff o' = 0 \<or> disk_extent_grew d o') then kept + 1 else kept)"
    have k1: "kept1 = 0 \<longleftrightarrow> first \<and> already_deduped (fst g) o' o'"
      using less.prems(3) d(4) by (auto simp: kept1_def already_deduped_def disk_extent_grew_def group_key_def split: if_splits)
    have "in_group res g (as @ o' # [] @ rest)" "2 \<le> length (as @ o' # [] @ rest)" using less.prems Cons by simp_all
    from clean_inner_ok [OF this, of kept1] k1 less.prems(3) obtain how res1 zs where
      h: "clean_inner g (ext_key o') (next_key rest) kept1 res = Some (how, res1)" "inner_left res g (as @ [o']) o' rest kept1 how res1 zs"
      by (auto split: if_splits)
    note il = h(2) [unfolded inner_left_def]
    have step: "clean_outer g (next_key ys) first kept res = (case how of Keep \<Rightarrow> Some (True, res1) | Freed \<Rightarrow> Some (False, res1)
        | Next kept \<Rightarrow> do { dext \<leftarrow> find_dupe_extents res1 (snd g) (fst g); outer \<leftarrow> extent_next dext (ext_key o');
            clean_outer g outer False kept res1 })"
      using d(1) f nx h(1) Cons by (subst clean_outer.simps) (simp add: kept1_def)
    show ?thesis
    proof (cases "how = Freed")
      case True
      then have "cleaned res g (as @ ys) False res1 (as @ [])" using il by (simp add: cleaned_def)
      moreover have "clean_outer g (next_key ys) first kept res = Some (False, res1)" unfolding step True by simp
      moreover have "first \<and> (\<forall>e \<in> set ys. already_deduped (fst g) e (hd ys))" using il True k1 Cons by simp
      ultimately show ?thesis by blast
    next
      case False
      have stays: "\<not> (first \<and> (\<forall>e \<in> set ys. already_deduped (fst g) e (hd ys)))" using il False k1 Cons by auto
      from il False have z: "in_group res1 g (as @ o' # zs)" "2 \<le> length (as @ o' # zs)" "length zs \<le> length rest"
          "set zs \<subseteq> set rest" "\<forall>e \<in> set rest - set zs. already_deduped (fst g) e o'"
          "res_extents res1 = res_extents res - {g} \<times> ext_key ` (set rest - set zs)" "res_inv res1" by simp_all
      have dist: "distinct (map ext_key (as @ ys))" using less.prems(1) by (rule in_groupE)
      then have "distinct (as @ o' # rest)" unfolding Cons by (rule distinct_map [THEN iffD1, THEN conjunct1])
      then have e: "set (as @ ys) - set (as @ o' # zs) = set rest - set zs" using Cons by auto
      note tr = cleaned_trans [where M = "as @ o' # zs" and o' = o', OF less.prems(1)]
      have sub: "set (as @ o' # zs) \<subseteq> set (as @ ys)" using z(4) Cons by auto
      show ?thesis
      proof (cases how)
        case Keep
        have "cleaned res1 g (as @ o' # zs) True res1 (as @ o' # zs)" using z il Keep by (simp add: cleaned_def)
        from tr [OF sub _ _ this] e z(5,6) have "cleaned res g (as @ ys) True res1 (as @ o' # zs)" by simp
        moreover have "clean_outer g (next_key ys) first kept res = Some (True, res1)" unfolding step Keep by simp
        ultimately show ?thesis using stays by blast
      next
        case (Next kept2)
        from z(1) obtain d1 where d1: "find_dupe_extents res1 (snd g) (fst g) = Some d1" "extents_of d1 = as @ o' # zs" "dext_ok d1"
          by (rule in_groupE)
        have "extent_next d1 (ext_key o') = Some (next_key zs)" by (rule extent_next_in [OF d1(3,2)])
        then have st: "clean_outer g (next_key ys) first kept res = clean_outer g (next_key zs) False kept2 res1"
          unfolding step Next using d1(1) by simp
        have k2: "kept2 \<noteq> 0" "\<forall>b \<in> set zs. \<not> already_deduped (fst g) b o'" using il Next by simp_all
        have ord: "sorted_wrt (\<lambda>a b. \<not> already_deduped (fst g) b a) (as @ [o'])" "\<forall>a \<in> set (as @ [o']). \<forall>b \<in> set zs. \<not> already_deduped (fst g) b a"
          using less.prems(4,5) k2(2) z(4) Cons by (auto simp: sorted_wrt_append)
        have "length zs < length ys" using z(3) Cons by simp
        from less.hyps [OF this, where as = "as @ [o']" and res = res1 and first = False and kept = kept2] z(1,2) k2(1) ord
        obtain alive res' ws where
          c: "clean_outer g (next_key zs) False kept2 res1 = Some (alive, res')" "cleaned res1 g (as @ o' # zs) alive res' (as @ o' # ws)" alive
          by auto
        have "cleaned res g (as @ ys) alive res' (as @ o' # ws)"
          by (rule tr [OF sub _ _ c(2)]) (simp_all only: e z(6), use z(5) in auto)
        with st c(1,3) stays show ?thesis by metis
      qed (use False in simp)
    qed
  qed
qed

lemma clean_deduped_ok:
  assumes "in_group res g L" "2 \<le> length L"
  shows "\<exists>alive res' L'. clean_deduped g res = Some (alive, res') \<and> cleaned res g L alive res' L' \<and>
    (\<not> alive \<longleftrightarrow> (\<forall>e \<in> set L. already_deduped (fst g) e (hd L)))"
proof -
  from assms(1) obtain d where d: "find_dupe_extents res (snd g) (fst g) = Some d" "extents_of d = L" "dext_ok d"
      "length (de_extents d) = length L" by (rule in_groupE)
  have n: "de_num_dupes d \<noteq> 0" using dext_ok_one(2) [OF d(3)] d(4) assms(2) by auto
  have ne: "de_extents_root d \<noteq> RB_NULL" using d(2) assms(2) by (auto simp: extents_of_def)
  have "map_option (\<lambda>n. ext_key (cursor_item n)) (rb_first (de_extents_root d)) = next_key L"
    using leftmost_rest [OF ne, of "[]"] ne d(2) by (auto simp: rb_first_def extents_of_def split: list.split)
  then have "clean_deduped g res = clean_outer g (next_key L) True 0 res" using d(1) n by (simp add: clean_deduped_def)
  moreover obtain alive res' zs where "clean_outer g (next_key L) True 0 res = Some (alive, res')" "cleaned res g L alive res' zs"
      "\<not> alive \<longleftrightarrow> (\<forall>e \<in> set L. already_deduped (fst g) e (hd L))"
    using clean_outer_ok [of res g "[]" L True 0] assms by auto
  ultimately show ?thesis by auto
qed

section \<open>Batches\<close>

text \<open>Which statuses are printed.\<close>

definition reported :: "fptr \<Rightarrow> dedupe_req list \<Rightarrow> (fptr \<times> int) list" where
  "reported ioctl_file rs = map (\<lambda>r. (req_file r, req_status r))
     (filter (\<lambda>r. \<not> (req_status r = 0 \<or> req_status r = - EINVAL \<and> req_file r = ioctl_file)) rs)"

lemma process_dedupe_results_ok:
  "completed ctxt = r # rs \<Longrightarrow> process_dedupe_results ctxt kern log =
    Some (kern + sum_list (map req_total (r # rs)), log @ reported (dc_ioctl_file ctxt) (r # rs), ctxt\<lparr>completed := []\<rparr>)"
proof (induction rs arbitrary: ctxt r kern log)
  case Nil
  then show ?case by (subst process_dedupe_results.simps) (simp add: pop_one_dedupe_result_def reported_def)
next
  case (Cons s rs)
  have "process_dedupe_results ctxt kern log = process_dedupe_results (ctxt\<lparr>completed := s # rs\<rparr>)
      (kern + req_total r) (log @ reported (dc_ioctl_file ctxt) [r])"
    using Cons.prems by (subst process_dedupe_results.simps) (simp add: pop_one_dedupe_result_def reported_def)
  moreover have "log @ reported (dc_ioctl_file ctxt) [r] @ reported (dc_ioctl_file ctxt) (s # rs) =
      log @ reported (dc_ioctl_file ctxt) (r # s # rs)" by (simp add: reported_def)
  ultimately show ?case using Cons.IH [of "ctxt\<lparr>completed := s # rs\<rparr>" s "kern + req_total r"]
    by (simp add: add.assoc)
qed

text \<open>What is relied on of the outside.\<close>

definition sys_ok :: "'w sys \<Rightarrow> bool" where
  "sys_ok E \<longleftrightarrow> sys_open_ok (sys_open E) \<and> (\<forall>d. kernel_ok (sys_dedupe E d)) \<and>
     block_size_ok (get_fs_blocksize (sys_statfs E)) \<and>
     (\<forall>d. \<exists>c m fm err. sys_fiemap E d = (c, m) \<and> m (fiemap_count_extents c) = (err, fm) \<and> (0 \<le> err \<longrightarrow> fiemap_ok fm))"

text \<open>
  The same with memory for the extent maps: \<open>do_fiemap\<close> writes through what \<open>calloc\<close> returns without
  looking at it.
\<close>

definition dedupe_sys_ok :: "'w sys \<Rightarrow> bool" where
  "dedupe_sys_ok E \<longleftrightarrow> sys_ok E \<and> (\<forall>k. fiemap_room E k)"

text \<open>A context that is being filled, for a group of \<open>n\<close> extents of length \<open>len\<close>.\<close>

definition filling :: "nat \<Rightarrow> u64 \<Rightarrow> dedupe_ctxt \<Rightarrow> bool" where
  "filling n len c \<longleftrightarrow> loop_inv c \<and> num_queued c = of_nat (length (queued c)) \<and> unat (max_queable c) = n - 1 \<and>
     dc_len c = len \<and> dc_orig_len c = len \<and> completed c = []"

definition same_but :: "'w dedupe_state \<Rightarrow> 'w dedupe_state \<Rightarrow> bool" where
  "same_but S S' \<longleftrightarrow> ds_files S' = ds_files S \<and> ds_open S' = ds_open S \<and> ds_res S' = ds_res S"

lemma ioctl_batch_ok:
  assumes E: "sys_ok E" and c: "filling n len c" and len: "len < 2 ^ 32" and q: "num_queued c \<noteq> 0"
    and fsb: "ds_fs_blocksize S = 0 \<or> block_size_ok (ds_fs_blocksize S)"
  shows "\<exists>ret fsb' c' w'. dedupe_extents (sys_dedupe E (fd_of (ds_files S) (dc_ioctl_file c))) (fd_of (ds_files S)) (sys_statfs E) 0
      (ds_fs_blocksize S) c (ds_world S) = Some (ret, fsb', c', w') \<and> (fsb' = 0 \<or> block_size_ok fsb') \<and>
    (ret = 0 \<longrightarrow> (\<forall>kern log. \<exists>kern' log' c''. process_dedupe_results c' kern log = Some (kern', log', c'')))"
proof -
  note cf = c [unfolded filling_def]
  define io where "io = sys_dedupe E (fd_of (ds_files S) (dc_ioctl_file c))"
  have io: "kernel_ok io" and st: "block_size_ok (get_fs_blocksize (sys_statfs E))" using E by (simp_all add: sys_ok_def io_def)
  have "dc_orig_len c < 2 ^ 32" using cf len by simp
  from dedupe_extents_ok [OF io st _ fsb this, of "fd_of (ds_files S)" "ds_world S"] cf obtain ret fsb' c' w' where
    d: "dedupe_extents io (fd_of (ds_files S)) (sys_statfs E) 0 (ds_fs_blocksize S) c (ds_world S) = Some (ret, fsb', c', w')"
      "reqs c' = reqs c" "fsb' = 0 \<or> block_size_ok fsb'" "ret = 0 \<Longrightarrow> queued c' = [] \<and> in_progress c' = []" by auto
  have "\<exists>x xs. completed c' = x # xs" if "ret = 0"
  proof -
    have "queued c \<noteq> []" using q cf by auto
    then have "reqs c \<noteq> {#}" by (simp add: reqs_def)
    then have "completed c' \<noteq> []" using d(2,4) that by (auto simp: reqs_def)
    then show ?thesis by (cases "completed c'") auto
  qed
  then show ?thesis using d(1,3) process_dedupe_results_ok unfolding io_def by blast
qed

lemma run_dedupe_ok:
  assumes E: "sys_ok E" and c: "filling n len c" and len: "len < 2 ^ 32"
    and fsb: "ds_fs_blocksize S = 0 \<or> block_size_ok (ds_fs_blocksize S)"
  shows "\<exists>S'. run_dedupe E c S = Some S' \<and> same_but S S' \<and> (ds_fs_blocksize S' = 0 \<or> block_size_ok (ds_fs_blocksize S'))"
proof (cases "num_queued c = 0")
  case True
  then show ?thesis using fsb by (simp add: run_dedupe_def same_but_def)
next
  case False
  obtain ret fsb' c' w' where
    d: "dedupe_extents (sys_dedupe E (fd_of (ds_files S) (dc_ioctl_file c))) (fd_of (ds_files S)) (sys_statfs E) 0 (ds_fs_blocksize S) c (ds_world S) =
        Some (ret, fsb', c', w')" "fsb' = 0 \<or> block_size_ok fsb'"
      "ret = 0 \<longrightarrow> (\<forall>kern log. \<exists>kern' log' c''. process_dedupe_results c' kern log = Some (kern', log', c''))"
    using ioctl_batch_ok [OF E c len False fsb] by blast
  show ?thesis
  proof (cases "ret = 0")
    case True
    then obtain kern' log' c'' where "process_dedupe_results c' (kern_bytes S) (ds_log S) = Some (kern', log', c'')" using d(3) by blast
    with d True False show ?thesis by (simp add: run_dedupe_def same_but_def)
  qed (use d False in \<open>simp add: run_dedupe_def same_but_def\<close>)
qed

text \<open>The files of the open set, on top of the state \<open>st0\<close> the function started with.\<close>

definition holding :: "filerecs \<Rightarrow> 'w dedupe_state \<Rightarrow> bool" where
  "holding st0 S \<longleftrightarrow> fd_inv st0 \<and> open_once_inv (ds_open S) \<and>
     (\<exists>D. held_ok st0 (set (rb_inorder (ds_open S))) D \<and> ds_files S = held st0 (set (rb_inorder (ds_open S))) D)"

lemma holding_same: "holding st0 S \<Longrightarrow> same_but S S' \<Longrightarrow> holding st0 S'"
  by (simp add: holding_def same_but_def)

lemma holding_start: "fd_inv st0 \<Longrightarrow> ds_open S = RB_NULL \<Longrightarrow> ds_files S = st0 \<Longrightarrow> holding st0 S"
  using tokens.rb_index_NULL by (auto simp: holding_def open_once_inv_def held_ok_def fresh_fds_def)

lemma holding_recs: "holding st0 S \<Longrightarrow> f \<in> dom (recs st0) \<Longrightarrow> \<exists>r. recs (ds_files S) f = Some r"
  by (auto simp: holding_def held_def)

lemma open_holding:
  assumes "holding st0 S" "sys_open_ok op" "f \<in> dom (recs st0)"
  shows "\<exists>ret t st. filerec_open_once op room f (ds_open S) (ds_files S) = Some (ret, t, st) \<and>
    holding st0 (S\<lparr>ds_open := t, ds_files := st\<rparr>) \<and> (ret \<noteq> 0 \<longrightarrow> t = ds_open S)"
proof -
  obtain D where D: "held_ok st0 (set (rb_inorder (ds_open S))) D" "ds_files S = held st0 (set (rb_inorder (ds_open S))) D"
      "fd_inv st0" "open_once_inv (ds_open S)" using assms(1) by (auto simp: holding_def)
  from filerec_open_once_held [OF D(3) assms(2) D(1,4) assms(3), of room] D(2,3) show ?thesis
    by (fastforce simp: holding_def)
qed

lemma close_holding:
  assumes "holding st0 S"
  shows "filerec_close_open_list (ds_open S) (ds_files S) = Some (RB_NULL, st0)"
  using assms filerec_close_open_list_held by (auto simp: holding_def)

lemma end_batch_last:
  assumes "holding st0 S"
  shows "end_batch E True tgt S = Some (Continue None tgt (S\<lparr>ds_open := RB_NULL, ds_files := st0\<rparr>))"
  using close_holding [OF assms] by (simp add: end_batch_def close_files_def)

lemma new_ctxt_filling:
  assumes "2 \<le> n" "n \<le> 120"
  shows "\<exists>c. new_dedupe_ctxt True True (of_nat n) loff len f = Some c \<and> filling n len c \<and> queued c = []"
proof -
  have u: "unat (of_nat n :: u32) = n" using assms by (intro unat_u32_of_nat) simp
  then have "\<not> (of_nat n :: u32) > 120" using assms(2) by (simp add: word_less_nat_alt)
  moreover have "unat (of_nat n - 1 :: u32) = n - 1" using u assms(1) by (subst unat_minus_one) auto
  ultimately show ?thesis using assms(2)
    by (simp add: new_dedupe_ctxt_def filling_def loop_inv_def MAX_DEDUPES_PER_IOCTL_def zero_same_def Let_def)
qed

lemma add_filling:
  assumes "filling n len c" "0 < len" "length (queued c) + 1 < n"
  shows "\<exists>c'. add_extent_to_dedupe True c loff f = Some (int (n - 2 - length (queued c)), c') \<and> filling n len c' \<and>
    length (queued c') = length (queued c) + 1"
proof -
  note f = assms(1) [unfolded filling_def]
  have q: "length (queued c) < unat (max_queable c)" using f assms(3) by simp
  define c' where "c' = c\<lparr>queued := queued c @ [\<lparr>req_file = f, req_loff = loff, req_total = 0, req_status = 0, req_idx = 0\<rparr>],
      num_queued := num_queued c + 1\<rparr>"
  have l: "loop_inv c" "num_queued c = of_nat (length (queued c))" "dc_len c = dc_orig_len c" "0 < dc_len c"
    using f assms(2) by auto
  note a = add_extent_to_dedupe_ok [OF l(1,2) q l(3,4), where loff = loff and fl = f, folded c'_def]
  have "filling n len c'" using a(2) f unfolding filling_def by (simp add: c'_def)
  moreover have "unat (max_queable c) - length (queued c) - 1 = n - 2 - length (queued c)" using f by simp
  ultimately show ?thesis using a(1) by (intro exI [of _ c']) (simp add: c'_def)
qed

lemma add_no_room:
  assumes "filling n len c" "length (queued c) + 1 < n"
  shows "add_extent_to_dedupe False c loff f = Some (-1, c)"
proof -
  have "\<not> num_queued c \<ge> max_queable c"
    using assms unat_u32_of_nat [of "length (queued c)"] by (auto simp: filling_def loop_inv_def word_le_nat_alt)
  then show ?thesis by (simp add: add_extent_to_dedupe_def new_dedupe_req_def)
qed

text \<open>
  The invariant of the loop, with \<open>m\<close> extents to go. For a group that fits into one ioctl the first
  batch is never full before the last extent.
\<close>

definition loop_ok :: "filerecs \<Rightarrow> results_tree \<Rightarrow> nat \<Rightarrow> u64 \<Rightarrow> nat \<Rightarrow> dedupe_ctxt option \<Rightarrow> ext_key option \<Rightarrow> 'w dedupe_state \<Rightarrow> bool" where
  "loop_ok st0 R n len m ctxt tgt S \<longleftrightarrow> holding st0 S \<and> ds_res S = R \<and> (ds_fs_blocksize S = 0 \<or> block_size_ok (ds_fs_blocksize S)) \<and>
     (case ctxt of None \<Rightarrow> tgt = None \<and> ds_open S = RB_NULL
      | Some c \<Rightarrow> tgt \<noteq> None \<and> filling n len c \<and> length (queued c) + 1 + m \<le> n)"

definition alloc_ok :: "'w sys \<Rightarrow> bool" where
  "alloc_ok E \<longleftrightarrow> ctxt_room E \<and> same_room E \<and> (\<forall>k. req_room E k)"

text \<open>What a turn of the loop may end with.\<close>

definition loop_step_ok :: "'w sys \<Rightarrow> filerecs \<Rightarrow> results_tree \<Rightarrow> nat \<Rightarrow> u64 \<Rightarrow> nat \<Rightarrow> 'w loop_step \<Rightarrow> bool" where
  "loop_step_ok E st0 R n len m step = (case step of
       Continue ctxt tgt S \<Rightarrow>
         if m = 0 then ctxt = None \<and> ds_open S = RB_NULL \<and> ds_files S = st0 \<and> ds_res S = R \<and>
           (ds_fs_blocksize S = 0 \<or> block_size_ok (ds_fs_blocksize S))
         else loop_ok st0 R n len m ctxt tgt S
     | Break S \<Rightarrow> False
     | Out err ctxt S \<Rightarrow> err = ENOMEM \<and> \<not> alloc_ok E \<and> holding st0 S \<and> ds_res S = R \<and> (ds_fs_blocksize S = 0 \<or> block_size_ok (ds_fs_blocksize S)))"

lemma holding_closed: "holding st0 S \<Longrightarrow> ds_open S = RB_NULL \<Longrightarrow> ds_files S = st0"
  by (auto simp: holding_def)

lemma batch_ok:
  assumes E: "sys_ok E" and c: "filling n len c" and len: "len < 2 ^ 32"
    and S: "holding st0 S" "ds_res S = R" "ds_fs_blocksize S = 0 \<or> block_size_ok (ds_fs_blocksize S)"
  shows "\<exists>step. Option.bind (run_dedupe E c S) (end_batch E True tgt) = Some step \<and> loop_step_ok E st0 R n len 0 step"
proof -
  obtain S' where s: "run_dedupe E c S = Some S'" "same_but S S'" "ds_fs_blocksize S' = 0 \<or> block_size_ok (ds_fs_blocksize S')"
    using run_dedupe_ok [OF E c len S(3)] by blast
  then have "ds_res S' = R" using S(2) by (simp add: same_but_def)
  with s end_batch_last [OF holding_same [OF S(1) s(2)]] show ?thesis by (simp add: loop_step_ok_def)
qed

lemma queue_extent_ok:
  assumes E: "sys_ok E" and c: "filling n len c" and len: "len < 2 ^ 32" "0 < len"
    and S: "holding st0 S" "ds_res S = R" "ds_fs_blocksize S = 0 \<or> block_size_ok (ds_fs_blocksize S)"
    and q: "length (queued c) + 2 + m \<le> n"
  shows "\<exists>step. queue_extent E k (m = 0) c tgt S = Some step \<and> loop_step_ok E st0 R n len m step"
proof -
  have q1: "length (queued c) + 1 < n" using q by simp
  obtain c' where a: "add_extent_to_dedupe True c (snd k) (fst k) = Some (int (n - 2 - length (queued c)), c')" "filling n len c'"
      "length (queued c') = length (queued c) + 1"
    using add_filling [OF c len(2) q1] by blast
  show ?thesis
  proof (cases "req_room E k")
    case False
    note add_no_room [OF c q1, of "snd k" "fst k"]
    moreover have "\<not> alloc_ok E" using False unfolding alloc_ok_def by blast
    ultimately show ?thesis using False S by (simp add: queue_extent_def loop_step_ok_def)
  next
    case True
    show ?thesis
    proof (cases "m = 0")
      case m: True
      then have "queue_extent E k (m = 0) c tgt S = Option.bind (run_dedupe E c' S) (end_batch E True (Some tgt))"
        using True a(1) by (simp add: queue_extent_def)
      with batch_ok [OF E a(2) len(1) S] m show ?thesis by auto
    next
      case m: False
      then have "n - 2 - length (queued c) \<noteq> 0" using q by simp
      then have "queue_extent E k (m = 0) c tgt S = Some (Continue (Some c') (Some tgt) S)"
        using True a(1) m by (simp add: queue_extent_def)
      with m S a(2,3) q show ?thesis by (simp add: loop_step_ok_def loop_ok_def)
    qed
  qed
qed

lemma open_failed_ok:
  assumes E: "sys_ok E" and len: "len < 2 ^ 32" and k: "fst k \<in> dom (recs st0)"
    and inv: "loop_ok st0 R n len (Suc m) ctxt tgt S"
  shows "\<exists>step. open_failed E ret k (m = 0) ctxt tgt S = Some step \<and> loop_step_ok E st0 R n len m step"
proof -
  have h: "holding st0 S" "ds_res S = R" "ds_fs_blocksize S = 0 \<or> block_size_ok (ds_fs_blocksize S)"
    using inv by (auto simp: loop_ok_def)
  obtain r where r: "recs (ds_files S) (fst k) = Some r" using holding_recs [OF h(1) k] by blast
  define S1 where "S1 = (if ret = ENOENT then S\<lparr>ds_db := ds_db S @ [dbfile_remove_file (filename r)]\<rparr> else S)"
  have s1: "same_but S S1" "ds_fs_blocksize S1 = ds_fs_blocksize S" by (simp_all add: S1_def same_but_def)
  have inv1: "loop_ok st0 R n len (Suc m) ctxt tgt S1"
    using inv s1 holding_same [OF h(1) s1(1)] by (cases ctxt) (simp_all add: loop_ok_def same_but_def)
  note h1 = inv1 [unfolded loop_ok_def]
  have step: "open_failed E ret k (m = 0) ctxt tgt S = (if ctxt \<noteq> None \<and> m = 0
      then Option.bind (run_dedupe E (the ctxt) S1) (end_batch E True tgt) else Some (Continue ctxt tgt S1))"
    using r by (simp add: open_failed_def S1_def Let_def)
  show ?thesis
  proof (cases "ctxt \<noteq> None \<and> m = 0")
    case True
    then obtain c where c: "ctxt = Some c" by auto
    then have "filling n len c" using h1 by simp
    from batch_ok [OF E this len, of st0 S1 R tgt] h1 step True c show ?thesis by auto
  next
    case False
    have "open_failed E ret k (m = 0) ctxt tgt S = Some (Continue ctxt tgt S1)" unfolding step if_not_P [OF False] ..
    moreover have "loop_step_ok E st0 R n len m (Continue ctxt tgt S1)"
    proof (cases "m = 0")
      case True
      then show ?thesis using False h1 holding_closed [of st0 S1] by (auto simp: loop_step_ok_def)
    next
      case m: False
      have "loop_ok st0 R n len m ctxt tgt S1" using inv1 by (auto simp: loop_ok_def split: option.splits)
      with m show ?thesis by (simp add: loop_step_ok_def)
    qed
    ultimately show ?thesis by blast
  qed
qed

lemma dedupe_one_ok:
  assumes E: "sys_ok E" and len: "len < 2 ^ 32" "0 < len" and n: "2 \<le> n" "n \<le> 120"
    and d: "de_num_dupes dext = of_nat n" "de_len dext = len"
    and k: "fst k \<in> dom (recs st0)" and inv: "loop_ok st0 R n len (Suc m) ctxt tgt S" and m: "Suc m \<le> n"
  shows "\<exists>step. dedupe_one E dext k (m = 0) ctxt tgt S = Some step \<and> loop_step_ok E st0 R n len m step"
proof -
  have so: "sys_open_ok (sys_open E)" using E by (simp add: sys_ok_def)
  have h: "holding st0 S" using inv by (simp add: loop_ok_def)
  from open_holding [OF h so k, of "token_room E (fst k)"] obtain ret t st where
    o: "filerec_open_once (sys_open E) (token_room E (fst k)) (fst k) (ds_open S) (ds_files S) = Some (ret, t, st)"
      "holding st0 (S\<lparr>ds_open := t, ds_files := st\<rparr>)" "ret \<noteq> 0 \<longrightarrow> t = ds_open S" by blast
  define S1 where "S1 = S\<lparr>ds_open := t, ds_files := st\<rparr>"
  have h1: "holding st0 S1" "ds_res S1 = R" "ds_fs_blocksize S1 = 0 \<or> block_size_ok (ds_fs_blocksize S1)"
    using inv o(2) by (auto simp: loop_ok_def S1_def)
  show ?thesis
  proof (cases "ret = 0")
    case False
    then have "loop_ok st0 R n len (Suc m) ctxt tgt S1"
      using inv o(3) h1 by (cases ctxt) (simp_all add: loop_ok_def S1_def)
    from open_failed_ok [OF E len(1) k this, of ret] o(1) False show ?thesis
      by (simp add: dedupe_one_def S1_def)
  next
    case ret: True
    show ?thesis
    proof (cases ctxt)
      case (Some c)
      then obtain target where t: "tgt = Some target" "filling n len c" "length (queued c) + 2 + m \<le> n"
        using inv by (auto simp: loop_ok_def)
      have "dedupe_one E dext k (m = 0) ctxt tgt S = queue_extent E k (m = 0) c target S1"
        using o(1) ret Some t(1) by (simp add: dedupe_one_def S1_def)
      with queue_extent_ok [OF E t(2) len h1 t(3)] show ?thesis by auto
    next
      case None
      then have tgt: "tgt = None" using inv by (simp add: loop_ok_def)
      show ?thesis
      proof (cases "m = 0")
        case True
        have "dedupe_one E dext k (m = 0) ctxt tgt S = Some (Continue None None (S1\<lparr>ds_open := RB_NULL, ds_files := st0\<rparr>))"
          using o(1) ret None tgt True end_batch_last [OF h1(1)] by (simp add: dedupe_one_def S1_def)
        then show ?thesis using True h1 by (simp add: loop_step_ok_def)
      next
        case False
        obtain c where c: "new_dedupe_ctxt True True (of_nat n) (snd k) len (fst k) = Some c" "filling n len c" "queued c = []"
          using new_ctxt_filling [OF n] by blast
        have none: "new_dedupe_ctxt a b x y z f = None" if "\<not> (a \<and> b)" for a b x y z f
          using that by (auto simp: new_dedupe_ctxt_def Let_def)
        have "dedupe_one E dext k (m = 0) ctxt tgt S =
            Some (if ctxt_room E \<and> same_room E then Continue (Some c) (Some k) S1 else Out ENOMEM None S1)"
          using o(1) ret None tgt False c(1) d none by (simp add: dedupe_one_def S1_def)
        then show ?thesis using False h1 c(2,3) m by (auto simp: loop_step_ok_def loop_ok_def alloc_ok_def)
      qed
    qed
  qed
qed

lemma dedupe_loop_ok:
  assumes E: "sys_ok E" and len: "len < 2 ^ 32" "0 < len" and n: "2 \<le> n" "n \<le> 120"
    and d: "de_num_dupes dext = of_nat n" "de_len dext = len"
  shows "ks \<noteq> [] \<Longrightarrow> length ks \<le> n \<Longrightarrow> fst ` set ks \<subseteq> dom (recs st0) \<Longrightarrow> loop_ok st0 R n len (length ks) ctxt tgt S \<Longrightarrow>
    \<exists>err ctxt' S'. dedupe_loop E dext ks ctxt tgt S = Some (err, ctxt', S') \<and> ds_res S' = R \<and> holding st0 S' \<and>
      (ds_fs_blocksize S' = 0 \<or> block_size_ok (ds_fs_blocksize S')) \<and>
      (if err = None then ctxt' = None \<and> ds_open S' = RB_NULL \<and> ds_files S' = st0 else err = Some ENOMEM \<and> \<not> alloc_ok E)"
proof (induction ks arbitrary: ctxt tgt S)
  case (Cons k ks)
  have k: "fst k \<in> dom (recs st0)" using Cons.prems(3) by simp
  have inv: "loop_ok st0 R n len (Suc (length ks)) ctxt tgt S" "Suc (length ks) \<le> n" using Cons.prems by simp_all
  have fi: "fd_inv st0" using Cons.prems(4) by (simp add: loop_ok_def holding_def)
  from dedupe_one_ok [OF E len n d k inv] obtain step where
    st: "dedupe_one E dext k (ks = []) ctxt tgt S = Some step" "loop_step_ok E st0 R n len (length ks) step" by auto
  show ?case
  proof (cases step)
    case (Continue ctxt' tgt' S')
    show ?thesis
    proof (cases "ks = []")
      case True
      then have "ds_open S' = RB_NULL" "ds_files S' = st0" using st(2) Continue by (auto simp: loop_step_ok_def)
      then show ?thesis using st Continue True holding_start [OF fi] by (simp add: loop_step_ok_def)
    next
      case False
      then have "loop_ok st0 R n len (length ks) ctxt' tgt' S'" using st(2) Continue by (simp add: loop_step_ok_def)
      from Cons.IH [OF False _ _ this] Cons.prems(2,3) st(1) Continue show ?thesis by simp
    qed
  qed (use st in \<open>auto simp: loop_step_ok_def\<close>)
qed simp

section \<open>A group\<close>

lemma fiemap_count_shared_any:
  assumes "start_off < end_off" "m (fiemap_count_extents c) = (err, fm)" "0 \<le> err \<longrightarrow> fiemap_ok fm"
  shows "\<exists>ret n. fiemap_count_shared c m True start_off end_off s = Some (ret, n)"
proof (cases "0 \<le> err")
  case True
  then show ?thesis using fiemap_count_shared_ok [of fm start_off end_off m c err s] assms by blast
next
  case False
  then show ?thesis using assms by (simp add: fiemap_count_shared_def do_fiemap_def)
qed

lemma shared_post_loop_ok:
  assumes E: "dedupe_sys_ok E" and st: "fd_inv st"
  shows "fst ` set ks \<subseteq> dom (recs st) \<Longrightarrow> \<forall>k \<in> set ks. snd k < snd k + len \<Longrightarrow>
    \<exists>shared'. shared_post_loop E len ks bytes shared st = Some (shared', st)"
proof (induction ks arbitrary: bytes shared)
  case (Cons k ks)
  obtain f loff where k: "k = (f, loff)" by fastforce
  have so: "sys_open_ok (sys_open E)" using E by (simp add: dedupe_sys_ok_def sys_ok_def)
  have f: "f \<in> dom (recs st)" and lo: "loff < loff + len" using Cons.prems k by auto
  show ?case
  proof (rule open_one [OF st so f])
    fix e assume "e \<noteq> 0" "filerec_open (sys_open E) f st = Some (e, st)"
    then show ?thesis using k by simp
  next
    fix st1 r
    assume o: "filerec_open (sys_open E) f st = Some (0, st1)" "recs st1 f = Some r" "filerec_close f st1 = Some st"
    obtain c m fm err where m: "sys_fiemap E (fd r) = (c, m)" "m (fiemap_count_extents c) = (err, fm)" "0 \<le> err \<longrightarrow> fiemap_ok fm"
      using E unfolding dedupe_sys_ok_def sys_ok_def by blast
    obtain ret b where "fiemap_count_shared c m True loff (loff + len) bytes = Some (ret, b)"
      using fiemap_count_shared_any [where s = bytes and m = m and c = c, OF lo m(2,3)] by blast
    moreover have "fiemap_room E k" using E unfolding dedupe_sys_ok_def by blast
    ultimately show ?thesis using o m(1) k Cons.IH [of b "shared + b"] Cons.prems by (cases "ret = 0") simp_all
  qed
qed simp

lemma add_shared_loop_ok:
  "dext_ok d \<Longrightarrow> set ks \<subseteq> ext_key ` set (extents_of d) \<Longrightarrow> \<exists>n. add_shared_loop d ks shared = Some n"
proof (induction ks arbitrary: shared)
  case (Cons k ks)
  then obtain e where "k = ext_key e" "e \<in> set (extents_of d)" by auto
  with find_extent_in [OF Cons.prems(1)] Cons show ?case by auto
qed simp

lemma dedupe_extent_list_ok:
  assumes E: "dedupe_sys_ok E" and st: "fd_inv (ds_files S)" and L: "in_group (ds_res S) g L" "2 \<le> length L" "length L \<le> 120"
    and len: "0 < fst g" "fst g < 2 ^ 32" and fsb: "ds_fs_blocksize S = 0 \<or> block_size_ok (ds_fs_blocksize S)"
    and files: "e_file ` set L \<subseteq> dom (recs (ds_files S))" and fit: "\<forall>e \<in> set L. e_loff e < e_loff e + fst g"
  shows "\<exists>ret S' L'. dedupe_extent_list E g S = Some (ret, S') \<and> ret \<in> {0, ENOMEM, -1} \<and> ds_files S' = ds_files S \<and>
    ds_open S' = RB_NULL \<and> (ds_fs_blocksize S' = 0 \<or> block_size_ok (ds_fs_blocksize S')) \<and>
    (ret = ENOMEM \<longrightarrow> \<not> alloc_ok E) \<and> cleaned (ds_res S) g L (ret \<noteq> -1) (ds_res S') L'"
proof -
  from L(1) obtain d where d: "find_dupe_extents (ds_res S) (snd g) (fst g) = Some d" "dext_ok d" "length (de_extents d) = length L"
    by (rule in_groupE)
  have "unat (de_num_dupes d) = length L" using d(2,3) unat_u32_of_nat by (simp add: dext_ok_def)
  then have nd: "\<not> de_num_dupes d < 2" using L(2) by (simp add: word_less_nat_alt)
  obtain alive res' L' where c: "clean_deduped g (ds_res S) = Some (alive, res')" "cleaned (ds_res S) g L alive res' L'"
    using clean_deduped_ok [OF L(1,2)] by blast
  define S1 where "S1 = S\<lparr>ds_res := res', ds_open := RB_NULL\<rparr>"
  show ?thesis
  proof (cases alive)
    case False
    then have "dedupe_extent_list E g S = Some (-1, S1)" using d(1) nd c(1) by (simp add: dedupe_extent_list_def S1_def)
    with c(2) False fsb show ?thesis by (auto simp: S1_def)
  next
    case True
    with c(2) have a: "in_group res' g L'" "2 \<le> length L'" "set L' \<subseteq> set L" by (auto simp: cleaned_def)
    from a(1) obtain d' where d': "find_dupe_extents res' (snd g) (fst g) = Some d'" "extents_of d' = L'" "dext_ok d'" "group_key d' = g"
        "length (de_extents d') = length L'" "set (de_extents d') = ext_key ` set L'" "distinct (map ext_key L')" by (rule in_groupE)
    have "distinct (map ext_key L)" using L(1) by (rule in_groupE)
    then have dl: "distinct L" "distinct L'" using d'(7) by (simp_all add: distinct_map)
    then have n: "length L' \<le> 120" using L(3) card_mono [OF _ a(3)] distinct_card by (metis List.finite_set le_trans)
    have nd': "de_num_dupes d' = of_nat (length L')" "de_len d' = fst g" using d'(3,4,5) by (auto simp: dext_ok_def group_key_def)
    obtain prev where prev: "add_shared_extents d' 0 = Some prev"
      using add_shared_loop_ok [OF d'(3), of "de_extents d'" 0] d'(2,6) by (auto simp: add_shared_extents_def)
    have "fst ` set (de_extents d') = e_file ` set L'" unfolding d'(6) by (simp add: image_image ext_key_def)
    then have ks: "de_extents d' \<noteq> []" "length (de_extents d') \<le> length L'" "fst ` set (de_extents d') \<subseteq> dom (recs (ds_files S))"
      using d'(5) a(2) image_mono [OF a(3), of e_file] files by auto
    have "loop_ok (ds_files S) res' (length L') (fst g) (length (de_extents d')) None None S1"
      using st fsb holding_start [of "ds_files S" S1] by (simp add: loop_ok_def S1_def)
    from dedupe_loop_ok [OF E [unfolded dedupe_sys_ok_def, THEN conjunct1] len(2,1) a(2) n nd' ks this] obtain err ctxt' S2 where
      l: "dedupe_loop E d' (de_extents d') None None S1 = Some (err, ctxt', S2)" "ds_res S2 = res'" "holding (ds_files S) S2"
        "ds_fs_blocksize S2 = 0 \<or> block_size_ok (ds_fs_blocksize S2)"
        "if err = None then ctxt' = None \<and> ds_open S2 = RB_NULL \<and> ds_files S2 = ds_files S else err = Some ENOMEM \<and> \<not> alloc_ok E" by blast
    note pre = d(1) nd c(1) True d'(1) prev l(1)
    show ?thesis
    proof (cases err)
      case (Some e)
      then have "dedupe_extent_list E g S = Some (ENOMEM, S2\<lparr>ds_open := RB_NULL, ds_files := ds_files S\<rparr>)"
        using pre l(5) close_holding [OF l(3)] by (simp add: dedupe_extent_list_def S1_def)
      with c(2) True l(2,4,5) Some show ?thesis by auto
    next
      case None
      then have s2: "ctxt' = None" "ds_open S2 = RB_NULL" "ds_files S2 = ds_files S" using l(5) by simp_all
      have "\<forall>k \<in> set (de_extents d'). snd k < snd k + de_len d'" using d'(6) a(3) fit nd'(2) by (auto simp: ext_key_def)
      from shared_post_loop_ok [OF E st ks(3) this, of 0 0] obtain post where
        post: "add_shared_extents_post E d' 0 (ds_files S2) = Some (post, ds_files S)"
        using s2(3) by (auto simp: add_shared_extents_post_def)
      have cl: "filerec_close_open_list RB_NULL (ds_files S) = Some (RB_NULL, ds_files S)"
        by (subst filerec_close_open_list.simps) (simp add: rb_first_def)
      define S3 where "S3 = S2\<lparr>ds_files := ds_files S, fiemap_bytes := (if prev < post then fiemap_bytes S2 + (post - prev) else fiemap_bytes S2),
        ds_open := RB_NULL, ds_files := ds_files S\<rparr>"
      have "dedupe_extent_list E g S = Some (0, S3)"
        using pre None s2 post cl by (simp add: dedupe_extent_list_def S1_def S3_def)
      moreover have "ds_files S3 = ds_files S" "ds_open S3 = RB_NULL" "ds_res S3 = res'"
          "ds_fs_blocksize S3 = ds_fs_blocksize S2" using l(2) by (simp_all add: S3_def)
      ultimately show ?thesis using c(2) True l(4) by auto
    qed
  qed
qed

section \<open>The worker\<close>

lemma scan_restores:
  assumes E: "dedupe_sys_ok E" and st: "fd_inv st" "f \<in> dom (recs st)"
  shows "\<exists>ret poff. fiemap_scan_extent (sys_open E) (sys_fiemap E) True f loff st = Some (ret, poff, st)"
proof -
  have so: "sys_open_ok (sys_open E)" using E by (simp add: dedupe_sys_ok_def sys_ok_def)
  show ?thesis
  proof (rule open_one [OF st(1) so st(2)])
    fix e assume "e \<noteq> 0" "filerec_open (sys_open E) f st = Some (e, st)"
    then show ?thesis by (simp add: fiemap_scan_extent_def)
  next
    fix st1 r
    assume o: "filerec_open (sys_open E) f st = Some (0, st1)" "recs st1 f = Some r" "filerec_close f st1 = Some st"
    obtain c m fm err where m: "sys_fiemap E (fd r) = (c, m)" "m (fiemap_count_extents c) = (err, fm)" "0 \<le> err \<longrightarrow> fiemap_ok fm"
      using E unfolding dedupe_sys_ok_def sys_ok_def by blast
    show ?thesis
    proof (cases "err < 0")
      case True
      then show ?thesis using o m(1,2) by (simp add: fiemap_scan_extent_def do_fiemap_def)
    next
      case False
      then obtain res where "get_extent fm loff = Some res" using get_extent_find m(3) by (metis not_less)
      then show ?thesis using o m(1,2) False by (cases res) (auto simp: fiemap_scan_extent_def do_fiemap_def)
    qed
  qed
qed

lemma update_hashfile_ok:
  assumes E: "dedupe_sys_ok E"
  shows "fd_inv (ds_files S) \<Longrightarrow> fst ` set ks \<subseteq> dom (recs (ds_files S)) \<Longrightarrow>
    \<exists>S'. update_hashfile E whole_file ks S = Some S' \<and> same_but S S' \<and> ds_fs_blocksize S' = ds_fs_blocksize S"
proof (induction ks arbitrary: S)
  case (Cons k ks)
  then obtain r where r: "recs (ds_files S) (fst k) = Some r" by auto
  obtain ret poff where sc: "fiemap_scan_extent (sys_open E) (sys_fiemap E) True (fst k) (snd k) (ds_files S) = Some (ret, poff, ds_files S)"
    using scan_restores [OF E Cons.prems(1), of "fst k" "snd k"] Cons.prems(2) by auto
  have room: "fiemap_room E k" using E unfolding dedupe_sys_ok_def by blast
  define S1 where "S1 = (if whole_file then S\<lparr>ds_db := ds_db S @ [dbfile_remove_extent_hashes (fileid r)]\<rparr>
    else case poff of Some p \<Rightarrow> if ret = 0 then S\<lparr>ds_db := ds_db S @ [dbfile_update_extent_poff (fileid r) (snd k) p]\<rparr> else S | None \<Rightarrow> S)"
  have s1: "same_but S S1" "ds_fs_blocksize S1 = ds_fs_blocksize S" by (auto simp: S1_def same_but_def split: option.splits)
  have "update_hashfile E whole_file (k # ks) S = update_hashfile E whole_file ks S1"
    using r sc room by (auto simp: S1_def split: option.splits)
  moreover have "fd_inv (ds_files S1)" "fst ` set ks \<subseteq> dom (recs (ds_files S1))"
    using Cons.prems s1(1) by (simp_all add: same_but_def)
  ultimately show ?case using Cons.IH [of S1] s1 by (auto simp: same_but_def)
qed (simp add: same_but_def)

text \<open>What the results tree must look like for the workers.\<close>

definition tree_fits :: "filerecs \<Rightarrow> results_tree \<Rightarrow> bool" where
  "tree_fits st res \<longleftrightarrow> res_inv res \<and> (\<forall>g k. (g, k) \<in> res_extents res \<longrightarrow>
     0 < fst g \<and> fst g < 2 ^ 32 \<and> fst k \<in> dom (recs st) \<and> snd k < snd k + fst g \<and> card (res_extents res `` {g}) \<le> 120)"

lemma tree_fitsD:
  assumes "tree_fits st res" "(g, k) \<in> res_extents res"
  shows "0 < fst g" "fst g < 2 ^ 32" "fst k \<in> dom (recs st)" "snd k < snd k + fst g" "card (res_extents res `` {g}) \<le> 120"
  using assms unfolding tree_fits_def by blast+

lemma tree_fits_subset:
  assumes "tree_fits st res" "res_inv res'" "res_extents res' \<subseteq> res_extents res"
  shows "tree_fits st res'"
proof -
  have "card (res_extents res' `` {g}) \<le> card (res_extents res `` {g})" for g
    using assms(3) by (intro card_mono finite_Image) auto
  then have "card (res_extents res' `` {g}) \<le> 120" if "(g, k) \<in> res_extents res'" for g k
    using assms(1,3) that unfolding tree_fits_def by (meson order_trans subsetD)
  then show ?thesis using assms unfolding tree_fits_def by blast
qed

lemma worker_ok:
  assumes E: "dedupe_sys_ok E" and st: "fd_inv (ds_files S)" and fits: "tree_fits (ds_files S) (ds_res S)"
    and two: "2 \<le> card (res_extents (ds_res S) `` {g})" and fsb: "ds_fs_blocksize S = 0 \<or> block_size_ok (ds_fs_blocksize S)"
  shows "\<exists>ret S'. extent_dedupe_worker E whole_file g S = Some (ret, S') \<and> ds_files S' = ds_files S \<and> res_inv (ds_res S') \<and>
    (ds_fs_blocksize S' = 0 \<or> block_size_ok (ds_fs_blocksize S')) \<and>
    (\<forall>h. h \<noteq> g \<longrightarrow> res_extents (ds_res S') `` {h} = res_extents (ds_res S) `` {h}) \<and>
    res_extents (ds_res S') \<subseteq> res_extents (ds_res S) \<and>
    (ret = 0 \<longrightarrow> res_extents (ds_res S') `` {g} = {}) \<and> (ret \<noteq> 0 \<longrightarrow> ret = ENOMEM \<and> \<not> alloc_ok E)"
proof -
  obtain k0 where k0: "(g, k0) \<in> res_extents (ds_res S)" using two by (cases "res_extents (ds_res S) `` {g} = {}") auto
  have inv: "res_inv (ds_res S)" using fits by (simp add: tree_fits_def)
  obtain d where "find_dupe_extents (ds_res S) (snd g) (fst g) = Some d" using res_inv_group [OF inv k0] by blast
  then have gr: "in_group (ds_res S) g (extents_of d)" using inv by (auto simp: in_group_def)
  define L where "L = extents_of d"
  from gr have img: "res_extents (ds_res S) `` {g} = ext_key ` set L" and dist: "distinct (map ext_key L)"
    unfolding L_def by (blast elim: in_groupE)+
  have "card (ext_key ` set L) = length L" using distinct_card [OF dist] by simp
  then have len: "2 \<le> length L" "length L \<le> 120" using two img tree_fitsD(5) [OF fits k0] by simp_all
  have k: "(g, ext_key e) \<in> res_extents (ds_res S)" if "e \<in> set L" for e using img that by auto
  note g0 = tree_fitsD(1,2) [OF fits k0]
  have files: "e_file ` set L \<subseteq> dom (recs (ds_files S))" "\<forall>e \<in> set L. e_loff e < e_loff e + fst g"
    using tree_fitsD(3,4) [OF fits k] by (auto simp: ext_key_def)
  from dedupe_extent_list_ok [OF E st gr [folded L_def] len g0 fsb files] obtain ret S1 L' where
    l: "dedupe_extent_list E g S = Some (ret, S1)" "ret \<in> {0, ENOMEM, -1}" "ds_files S1 = ds_files S"
      "ds_fs_blocksize S1 = 0 \<or> block_size_ok (ds_fs_blocksize S1)" "ret = ENOMEM \<longrightarrow> \<not> alloc_ok E"
      "cleaned (ds_res S) g L (ret \<noteq> -1) (ds_res S1) L'" by blast
  have sub: "res_inv (ds_res S1)" "res_extents (ds_res S1) \<subseteq> res_extents (ds_res S)"
      "\<forall>h. h \<noteq> g \<longrightarrow> res_extents (ds_res S1) `` {h} = res_extents (ds_res S) `` {h}"
    using l(6) by (auto simp: cleaned_def split: if_splits)
  show ?thesis
  proof (cases "ret = 0")
    case False
    then have w: "extent_dedupe_worker E whole_file g S = Some (if ret = -1 then 0 else ret, S1)"
      using l(1) by (simp add: extent_dedupe_worker_def)
    from False l(2,5) consider "ret = -1" | "ret \<noteq> -1" "ret = ENOMEM" "\<not> alloc_ok E" by blast
    then show ?thesis
    proof cases
      case 1
      then have "extent_dedupe_worker E whole_file g S = Some (0, S1)" "res_extents (ds_res S1) `` {g} = {}"
        using w l(6) by (auto simp: cleaned_def)
      moreover have "(0::int) \<noteq> 0 \<longrightarrow> (0::int) = ENOMEM \<and> \<not> alloc_ok E" by simp
      ultimately show ?thesis using l(3,4) sub by (intro exI [of _ 0] exI [of _ S1] conjI) (assumption | simp)+
    next
      case 2
      then have "extent_dedupe_worker E whole_file g S = Some (ret, S1)" using w by simp
      moreover have "ret = 0 \<longrightarrow> res_extents (ds_res S1) `` {g} = {}" "ret \<noteq> 0 \<longrightarrow> ret = ENOMEM \<and> \<not> alloc_ok E"
        using 2 False by simp_all
      ultimately show ?thesis using l(3,4) sub by (intro exI conjI)
    qed
  next
    case True
    with l(6) have "in_group (ds_res S1) g L'" "2 \<le> length L'" by (auto simp: cleaned_def)
    then obtain d1 where d1: "find_dupe_extents (ds_res S1) (snd g) (fst g) = Some d1" "set (de_extents d1) = ext_key ` set L'"
        "length (de_extents d1) = length L'" "res_extents (ds_res S1) `` {g} = ext_key ` set L'" by (elim in_groupE)
    have ks: "fst ` set (de_extents d1) \<subseteq> dom (recs (ds_files S1))"
    proof -
      have "(g, x) \<in> res_extents (ds_res S)" if "x \<in> set (de_extents d1)" for x using that d1(2,4) sub(2) by auto
      then show ?thesis using tree_fitsD(3) [OF fits] l(3) by fastforce
    qed
    obtain S2 where s2: "update_hashfile E whole_file (de_extents d1) S1 = Some S2" "same_but S1 S2"
        "ds_fs_blocksize S2 = ds_fs_blocksize S1"
      using update_hashfile_ok [OF E _ ks] st l(3) by metis
    have r2: "ds_res S2 = ds_res S1" "ds_files S2 = ds_files S" using s2(2) l(3) by (simp_all add: same_but_def)
    obtain res' where f: "dupe_extents_free g (ds_res S1) = Some res'" "res_inv res'" "res_extents res' = res_extents (ds_res S1) - {g} \<times> UNIV"
      using dupe_extents_free_ok [OF sub(1) d1(1)] by blast
    have ne: "de_extents d1 \<noteq> []" using d1(3) \<open>2 \<le> length L'\<close> by auto
    have "extent_dedupe_worker E whole_file g S = Some (0, S2\<lparr>ds_res := res'\<rparr>)"
      using l(1) True d1(1) s2(1) r2(1) f(1) ne by (simp add: extent_dedupe_worker_def)
    moreover have "\<forall>h. h \<noteq> g \<longrightarrow> res_extents res' `` {h} = res_extents (ds_res S) `` {h}"
      "res_extents res' \<subseteq> res_extents (ds_res S)" "res_extents res' `` {g} = {}"
      using sub(2,3) unfolding f(3) by blast+
    ultimately show ?thesis using r2(2) f(2) l(4) s2(3) by simp
  qed
qed

section \<open>All the groups\<close>

lemma push_extents_ok:
  assumes E: "dedupe_sys_ok E"
  shows "distinct gs \<Longrightarrow> fd_inv (ds_files S) \<Longrightarrow> tree_fits (ds_files S) (ds_res S) \<Longrightarrow>
    ds_fs_blocksize S = 0 \<or> block_size_ok (ds_fs_blocksize S) \<Longrightarrow>
    \<forall>g \<in> set gs. res_extents (ds_res S) `` {g} \<noteq> {} \<Longrightarrow>
    \<exists>S'. push_extents E whole_file gs S = Some S' \<and> ds_files S' = ds_files S \<and> res_inv (ds_res S') \<and>
      (ds_fs_blocksize S' = 0 \<or> block_size_ok (ds_fs_blocksize S')) \<and>
      res_extents (ds_res S') \<subseteq> res_extents (ds_res S) \<and>
      (\<forall>g. g \<notin> set gs \<or> card (res_extents (ds_res S) `` {g}) < 2 \<longrightarrow> res_extents (ds_res S') `` {g} = res_extents (ds_res S) `` {g}) \<and>
      (alloc_ok E \<longrightarrow> (\<forall>g \<in> set gs. 2 \<le> card (res_extents (ds_res S) `` {g}) \<longrightarrow> res_extents (ds_res S') `` {g} = {}))"
proof (induction gs arbitrary: S)
  case Nil
  then show ?case by (simp add: tree_fits_def)
next
  case (Cons g gs)
  have inv: "res_inv (ds_res S)" using Cons.prems(3) by (simp add: tree_fits_def)
  obtain k0 where "(g, k0) \<in> res_extents (ds_res S)" using Cons.prems(5) by auto
  then obtain d where fd: "find_dupe_extents (ds_res S) (snd g) (fst g) = Some d" using res_inv_group [OF inv] by blast
  then have "in_group (ds_res S) g (extents_of d)" using inv by (auto simp: in_group_def)
  then obtain d' where d': "find_dupe_extents (ds_res S) (snd g) (fst g) = Some d'" "dext_ok d'"
      "length (de_extents d') = length (extents_of d)" "res_extents (ds_res S) `` {g} = ext_key ` set (extents_of d)"
      "distinct (map ext_key (extents_of d))" by (rule in_groupE)
  have "card (res_extents (ds_res S) `` {g}) = length (extents_of d)"
    unfolding d'(4) using distinct_card [OF d'(5)] by simp
  then have card: "card (res_extents (ds_res S) `` {g}) = length (de_extents d)" using d'(1,3) fd by simp
  have "unat (de_num_dupes d) = length (de_extents d)" using d'(1,2) fd unat_u32_of_nat by (auto simp: dext_ok_def)
  then have lt: "de_num_dupes d < 2 \<longleftrightarrow> card (res_extents (ds_res S) `` {g}) < 2"
    using card by (simp add: word_less_nat_alt)
  have rest: "distinct gs" "g \<notin> set gs" "\<forall>h \<in> set gs. res_extents (ds_res S) `` {h} \<noteq> {}" using Cons.prems by auto
  show ?case
  proof (cases "de_num_dupes d < 2")
    case True
    have "push_extents E whole_file (g # gs) S = push_extents E whole_file gs S" using fd True by simp
    with Cons.IH [OF rest(1) Cons.prems(2-4) rest(3)] True lt show ?thesis by (metis linorder_not_le set_ConsD list.set_intros(2))
  next
    case False
    then have two: "2 \<le> card (res_extents (ds_res S) `` {g})" using lt by simp
    from worker_ok [OF E Cons.prems(2,3) two Cons.prems(4)] obtain ret S1 where
      w: "extent_dedupe_worker E whole_file g S = Some (ret, S1)" "ds_files S1 = ds_files S" "res_inv (ds_res S1)"
        "ds_fs_blocksize S1 = 0 \<or> block_size_ok (ds_fs_blocksize S1)"
        "\<And>h. h \<noteq> g \<Longrightarrow> res_extents (ds_res S1) `` {h} = res_extents (ds_res S) `` {h}"
        "res_extents (ds_res S1) \<subseteq> res_extents (ds_res S)" "ret = 0 \<Longrightarrow> res_extents (ds_res S1) `` {g} = {}"
        "ret \<noteq> 0 \<Longrightarrow> \<not> alloc_ok E" by blast
    have fits: "tree_fits (ds_files S1) (ds_res S1)" using tree_fits_subset [OF Cons.prems(3) w(3,6)] w(2) by simp
    have gs: "res_extents (ds_res S1) `` {h} = res_extents (ds_res S) `` {h}" if "h \<in> set gs" for h
      using w(5) that rest(2) by metis
    have p1: "fd_inv (ds_files S1)" "\<forall>h \<in> set gs. res_extents (ds_res S1) `` {h} \<noteq> {}"
      using Cons.prems(2) w(2) rest(3) gs by simp_all
    from Cons.IH [OF rest(1) p1(1) fits w(4) p1(2)] obtain S2 where
      s2: "push_extents E whole_file gs S1 = Some S2" "ds_files S2 = ds_files S1" "res_inv (ds_res S2)"
        "ds_fs_blocksize S2 = 0 \<or> block_size_ok (ds_fs_blocksize S2)"
        "res_extents (ds_res S2) \<subseteq> res_extents (ds_res S1)"
        "\<And>h. h \<notin> set gs \<or> card (res_extents (ds_res S1) `` {h}) < 2 \<Longrightarrow> res_extents (ds_res S2) `` {h} = res_extents (ds_res S1) `` {h}"
        "\<And>h. alloc_ok E \<Longrightarrow> h \<in> set gs \<Longrightarrow> 2 \<le> card (res_extents (ds_res S1) `` {h}) \<Longrightarrow> res_extents (ds_res S2) `` {h} = {}"
      by blast
    have "push_extents E whole_file (g # gs) S = Some S2" using fd False w(1) s2(1) by simp
    moreover have "res_extents (ds_res S2) `` {h} = res_extents (ds_res S) `` {h}"
      if "h \<notin> set (g # gs) \<or> card (res_extents (ds_res S) `` {h}) < 2" for h
    proof -
      have h: "h \<noteq> g" using that two by auto
      show ?thesis using s2(6) [of h] w(5) [OF h] that by auto
    qed
    moreover have "res_extents (ds_res S2) `` {h} = {}"
      if "alloc_ok E" "h \<in> set (g # gs)" "2 \<le> card (res_extents (ds_res S) `` {h})" for h
    proof (cases "h = g")
      case True
      have "res_extents (ds_res S1) `` {g} = {}" using w(7,8) that(1) by blast
      then show ?thesis using True s2(5) by blast
    next
      case False
      then show ?thesis using s2(7) [OF that(1), of h] that gs by auto
    qed
    ultimately show ?thesis using s2(2,3,4,5) w(2,6) by (intro exI [of _ S2] conjI) auto
  qed
qed

section \<open>The properties of the dedupe phase\<close>

text \<open>A system with one descriptor and no extents on disk, and a group of two extents of one file.\<close>

definition example_sys :: "unit sys" where
  "example_sys = \<lparr>sys_open = example_open, sys_fiemap = (\<lambda>d. ((0, 0), \<lambda>n. (0, \<lparr>fm_mapped_extents = 0, fm_extents = []\<rparr>))),
     sys_dedupe = (\<lambda>d. example_ioctl), sys_statfs = (0, 4096), fiemap_room = (\<lambda>k. True), token_room = (\<lambda>f. True), ctxt_room = True, same_room = True,
     req_room = (\<lambda>k. True)\<rparr>"

definition example_state :: "results_tree \<Rightarrow> unit dedupe_state" where
  "example_state res = \<lparr>ds_files = example_filerecs, ds_open = RB_NULL, ds_res = res, ds_fs_blocksize = 0, ds_world = (),
     ds_db = [], ds_log = [], kern_bytes = 0, fiemap_bytes = 0\<rparr>"

lemma example_sys_ok: "sys_ok example_sys" "alloc_ok example_sys" "dedupe_sys_ok example_sys"
  using example_ok(2) example_kernel example_block_size
  by (simp_all add: dedupe_sys_ok_def sys_ok_def alloc_ok_def example_sys_def get_fs_blocksize_def fiemap_ok_def)

lemma example_state_simps [simp]: "ds_files (example_state res) = example_filerecs" "ds_res (example_state res) = res"
    "ds_fs_blocksize (example_state res) = 0"
  by (simp_all add: example_state_def)

lemma example_group:
  obtains res where "res_inv res" "res_extents res = {(4096, [1])} \<times> {(64, 0), (64, 4096)}" "tree_fits example_filerecs res"
    "card (res_extents res `` {(4096, [1])}) = 2"
proof -
  obtain res where r: "res_inv res" "res_extents res = {(4096, [1])} \<times> {(64, 0), (64, 4096)}"
    using insert_result_ok [OF init_results_inv(1,2) refl, of "[1]" 64 64 0 4096 4095 8191] init_results_inv(3) by auto
  have i: "res_extents res `` {(4096, [1])} = {(64, 0), (64, 4096)}" unfolding r(2) by auto
  have "tree_fits example_filerecs res" unfolding tree_fits_def
    using r(1) i by (auto simp: r(2))
  with that r i show thesis by simp
qed

text \<open>
  C10. \<open>clean_deduped\<close> ends on every group of at least two extents. It frees the group exactly when all of its
  extents have the same known physical offset as the first one and a physical extent that covers the length of
  the group. Otherwise the group still has at least two of its extents, and every
  extent that was dropped covers the length and has the physical offset of one that is still there; and
  unless the group is down to two extents, nothing is left to drop: no extent that covers
  the length has the physical offset of an earlier one. The other groups are not touched.
\<close>

theorem clean_deduped_correct:
  assumes "in_group res g L" "2 \<le> length L"
  shows "\<exists>alive res' L'. clean_deduped g res = Some (alive, res') \<and> res_inv res' \<and>
    (\<not> alive \<longleftrightarrow> (\<forall>e \<in> set L. e_poff e \<noteq> 0 \<and> e_poff e = e_poff (hd L) \<and> fst g \<le> e_plen e)) \<and>
    (if alive then in_group res' g L' \<and> 2 \<le> length L' \<and> set L' \<subseteq> set L \<and>
       (\<forall>e \<in> set L - set L'. \<exists>o' \<in> set L'. e_poff e \<noteq> 0 \<and> e_poff e = e_poff o' \<and> fst g \<le> e_plen e) \<and>
       (length L' = 2 \<or> sorted_wrt (\<lambda>o' e. \<not> (e_poff e \<noteq> 0 \<and> e_poff e = e_poff o' \<and> fst g \<le> e_plen e)) L') \<and>
       res_extents res' = res_extents res - {g} \<times> ext_key ` (set L - set L')
     else res_extents res' = res_extents res - {g} \<times> UNIV)"
  using clean_deduped_ok [OF assms] unfolding cleaned_def already_deduped_def by blast

theorem clean_deduped_correct_witness:
  "\<exists>res alive res'. card (res_extents res) = 2 \<and> clean_deduped (4096, [1]) res = Some (alive, res')"
proof -
  obtain res where r: "res_inv res" "res_extents res = {(4096, [1])} \<times> {(64, 0), (64, 4096)}"
      "card (res_extents res `` {(4096, [1])}) = 2" by (rule example_group)
  have "((4096, [1]), (64, 0)) \<in> res_extents res" using r(2) by simp
  then obtain d where "find_dupe_extents res [1] 4096 = Some d" using res_inv_group [OF r(1)] by fastforce
  then have g: "in_group res (4096, [1]) (extents_of d)" using r(1) by (simp add: in_group_def)
  then have "res_extents res `` {(4096, [1])} = ext_key ` set (extents_of d)" by (rule in_groupE)
  then have "2 \<le> length (extents_of d)" using r(3) card_image_le [of "set (extents_of d)" ext_key] card_length [of "extents_of d"] by simp
  moreover have "card (res_extents res) = 2" unfolding r(2) by simp
  ultimately show ?thesis using clean_deduped_correct [OF g] by blast
qed

text \<open>
  C4. \<open>dedupe_extent_list\<close>, on a group of 2 to 120 extents of more than 0 bytes and less than 4 GiB whose ends are
  below 2^64, returns: no assertion of it or of the code below fails, whatever files do not open, whichever
  of the allocations that the code checks fail (that of an extent map in \<open>do_fiemap\<close>, which it does not
  check, is assumed to succeed), and whatever the kernel answers within its contract, by which an
  \<open>ioctl\<close> that succeeds advances all destinations without an error by the same number of bytes, at least one. It
  returns 0, ENOMEM (only when an allocation failed) or the mark that the group is gone, and every
  reference count and descriptor is what it was.
\<close>

theorem dedupe_extent_list_correct:
  assumes "dedupe_sys_ok E" "fd_inv (ds_files S)" "in_group (ds_res S) g L" "2 \<le> length L" "length L \<le> 120"
    and "0 < fst g" "fst g < 2 ^ 32" "ds_fs_blocksize S = 0 \<or> block_size_ok (ds_fs_blocksize S)"
    and "e_file ` set L \<subseteq> dom (recs (ds_files S))" "\<forall>e \<in> set L. e_loff e < e_loff e + fst g"
  shows "\<exists>ret S'. dedupe_extent_list E g S = Some (ret, S') \<and> ret \<in> {0, ENOMEM, DEDUPE_EXTENTS_CLEANED} \<and>
    ds_files S' = ds_files S \<and> ds_open S' = RB_NULL \<and> (ret = ENOMEM \<longrightarrow> \<not> alloc_ok E) \<and> res_inv (ds_res S') \<and>
    (ret = DEDUPE_EXTENTS_CLEANED \<longrightarrow> res_extents (ds_res S') = res_extents (ds_res S) - {g} \<times> UNIV)"
proof -
  obtain ret S' L' where "dedupe_extent_list E g S = Some (ret, S')" "ret \<in> {0, ENOMEM, -1}" "ds_files S' = ds_files S"
      "ds_open S' = RB_NULL" "ret = ENOMEM \<longrightarrow> \<not> alloc_ok E" "cleaned (ds_res S) g L (ret \<noteq> -1) (ds_res S') L'"
    using dedupe_extent_list_ok [OF assms] by blast
  then show ?thesis by (intro exI [of _ ret] exI [of _ S']) (simp add: cleaned_def)
qed

theorem dedupe_extent_list_correct_witness:
  "\<exists>res ret S'. card (res_extents res) = 2 \<and> dedupe_extent_list example_sys (4096, [1]) (example_state res) = Some (ret, S') \<and>
     ret \<noteq> ENOMEM \<and> ds_files S' = example_filerecs"
proof -
  obtain res where r: "res_inv res" "res_extents res = {(4096, [1])} \<times> {(64, 0), (64, 4096)}"
      "card (res_extents res `` {(4096, [1])}) = 2" by (rule example_group)
  have "((4096, [1]), (64, 0)) \<in> res_extents res" using r(2) by simp
  then obtain d where "find_dupe_extents res [1] 4096 = Some d" using res_inv_group [OF r(1)] by fastforce
  then have g: "in_group res (4096, [1]) (extents_of d)" using r(1) by (simp add: in_group_def)
  then have img: "res_extents res `` {(4096, [1])} = ext_key ` set (extents_of d)" and "distinct (map ext_key (extents_of d))"
    by (blast elim: in_groupE)+
  from distinct_card [OF this(2)] have l: "length (extents_of d) = 2" using r(3) img by simp
  have "ext_key ` set (extents_of d) = {(64, 0), (64, 4096)}" using img r(2) by auto
  then have "ext_key e \<in> {(64, 0), (64, 4096)}" if "e \<in> set (extents_of d)" for e using that by blast
  then have k: "e_file e = 64 \<and> (e_loff e = 0 \<or> e_loff e = 4096)" if "e \<in> set (extents_of d)" for e
    using that by (fastforce simp: ext_key_def)
  then have "e_file ` set (extents_of d) \<subseteq> dom (recs example_filerecs)" by auto
  moreover have "\<forall>e \<in> set (extents_of d). e_loff e < e_loff e + 4096"
  proof
    fix e assume "e \<in> set (extents_of d)"
    from k [OF this] show "e_loff e < e_loff e + 4096" by auto
  qed
  ultimately have "\<exists>ret S'. dedupe_extent_list example_sys (4096, [1]) (example_state res) = Some (ret, S') \<and> ret \<noteq> ENOMEM \<and>
      ds_files S' = example_filerecs"
    using dedupe_extent_list_correct [where S = "example_state res" and L = "extents_of d", OF example_sys_ok(3)] g l example_ok(1) example_sys_ok(2)
    by fastforce
  moreover have "card (res_extents res) = 2" unfolding r(2) by simp
  ultimately show ?thesis by blast
qed

text \<open>
  A worker that returns 0 has taken its group out of the results tree and nothing else; any other
  value is ENOMEM, after an allocation that failed. All descriptors it took are given back.
\<close>

theorem extent_dedupe_worker_correct:
  assumes "dedupe_sys_ok E" "fd_inv (ds_files S)" "tree_fits (ds_files S) (ds_res S)"
    and "2 \<le> card (res_extents (ds_res S) `` {g})" "ds_fs_blocksize S = 0 \<or> block_size_ok (ds_fs_blocksize S)"
  shows "\<exists>ret S'. extent_dedupe_worker E whole_file g S = Some (ret, S') \<and> ds_files S' = ds_files S \<and> res_inv (ds_res S') \<and>
    (\<forall>h. h \<noteq> g \<longrightarrow> res_extents (ds_res S') `` {h} = res_extents (ds_res S) `` {h}) \<and>
    (if ret = 0 then res_extents (ds_res S') `` {g} = {} else ret = ENOMEM \<and> \<not> alloc_ok E)"
proof -
  obtain ret S' where "extent_dedupe_worker E whole_file g S = Some (ret, S')" "ds_files S' = ds_files S" "res_inv (ds_res S')"
      "\<forall>h. h \<noteq> g \<longrightarrow> res_extents (ds_res S') `` {h} = res_extents (ds_res S) `` {h}"
      "ret = 0 \<Longrightarrow> res_extents (ds_res S') `` {g} = {}" "ret \<noteq> 0 \<Longrightarrow> ret = ENOMEM \<and> \<not> alloc_ok E"
    using worker_ok [OF assms] by blast
  then show ?thesis by (intro exI [of _ ret] exI [of _ S'] conjI) simp_all
qed

theorem extent_dedupe_worker_correct_witness:
  "\<exists>res S'. card (res_extents res) = 2 \<and> extent_dedupe_worker example_sys False (4096, [1]) (example_state res) = Some (0, S') \<and>
     res_extents (ds_res S') `` {(4096, [1])} = {}"
proof -
  obtain res where r: "res_extents res = {(4096, [1])} \<times> {(64, 0), (64, 4096)}" "tree_fits example_filerecs res"
      "card (res_extents res `` {(4096, [1])}) = 2" by (rule example_group)
  obtain ret S' where w: "extent_dedupe_worker example_sys False (4096, [1]) (example_state res) = Some (ret, S')"
      "if ret = 0 then res_extents (ds_res S') `` {(4096, [1])} = {} else ret = ENOMEM \<and> \<not> alloc_ok example_sys"
    using extent_dedupe_worker_correct [of example_sys "example_state res" "(4096, [1])" False] r example_sys_ok(3) example_ok(1) by auto
  have "ret = 0" using w(2) example_sys_ok(2) by (simp split: if_splits)
  moreover have "card (res_extents res) = 2" unfolding r(1) by simp
  ultimately show ?thesis using w by auto
qed

lemma dedupe_results_ok:
  assumes "dedupe_sys_ok E" "fd_inv (ds_files S)" "tree_fits (ds_files S) (ds_res S)"
    and "ds_fs_blocksize S = 0 \<or> block_size_ok (ds_fs_blocksize S)"
  shows "\<exists>S'. dedupe_results E whole_file S = Some S' \<and> ds_files S' = ds_files S \<and> res_inv (ds_res S') \<and>
    (ds_fs_blocksize S' = 0 \<or> block_size_ok (ds_fs_blocksize S')) \<and>
    res_extents (ds_res S') \<subseteq> res_extents (ds_res S) \<and>
    (alloc_ok E \<longrightarrow> res_extents (ds_res S') =
       {(g, k) \<in> res_extents (ds_res S). card (res_extents (ds_res S) `` {g}) < 2})"
proof -
  let ?gs = "map group_key (rb_inorder (rt_root (ds_res S)))"
  have inv: "res_inv (ds_res S)" using assms(3) by (simp add: tree_fits_def)
  then have "rb_index group_key dupe_extents_cmp (rt_root (ds_res S))" by (simp add: res_inv_def)
  then have dist: "distinct ?gs" using groups.ordered_distinct by (auto simp: rb_index_def)
  have ne: "\<forall>g \<in> set ?gs. res_extents (ds_res S) `` {g} \<noteq> {}"
  proof
    fix g assume "g \<in> set ?gs"
    then obtain d where "d \<in> set (rb_inorder (rt_root (ds_res S)))" "g = group_key d" by auto
    moreover from this have "hd (de_extents d) \<in> set (de_extents d)" using inv by (auto simp: res_inv_def)
    ultimately have "(g, hd (de_extents d)) \<in> res_extents (ds_res S)" unfolding res_extents_def by blast
    then show "res_extents (ds_res S) `` {g} \<noteq> {}" by blast
  qed
  have all: "g \<in> set ?gs" if "(g, k) \<in> res_extents (ds_res S)" for g k using that by (auto simp: res_extents_def)
  obtain S' where p: "push_extents E whole_file ?gs S = Some S'" "ds_files S' = ds_files S" "res_inv (ds_res S')"
      "ds_fs_blocksize S' = 0 \<or> block_size_ok (ds_fs_blocksize S')"
      "res_extents (ds_res S') \<subseteq> res_extents (ds_res S)"
      "\<And>g. g \<notin> set ?gs \<or> card (res_extents (ds_res S) `` {g}) < 2 \<Longrightarrow> res_extents (ds_res S') `` {g} = res_extents (ds_res S) `` {g}"
      "\<And>g. alloc_ok E \<Longrightarrow> g \<in> set ?gs \<Longrightarrow> 2 \<le> card (res_extents (ds_res S) `` {g}) \<Longrightarrow> res_extents (ds_res S') `` {g} = {}"
    using push_extents_ok [OF assms(1) dist assms(2-4) ne, of whole_file] by blast
  have "push_extents E whole_file ?gs S = dedupe_results E whole_file S" by (simp add: dedupe_results_def)
  moreover have "(g, k) \<in> res_extents (ds_res S') \<longleftrightarrow> (g, k) \<in> res_extents (ds_res S) \<and> card (res_extents (ds_res S) `` {g}) < 2"
    if "alloc_ok E" for g k
    using p(5) p(6) [of g] p(7) [OF that all, of g k] by (cases "card (res_extents (ds_res S) `` {g}) < 2") auto
  ultimately show ?thesis using p(1-5) by (intro exI [of _ S']) auto
qed

text \<open>
  C9. \<open>dedupe_results\<close> on a tree whose groups have at most 120 extents, of more than 0 bytes and less than 4 GiB
  and with ends below 2^64:
  when the allocations of the requests succeed, every group of at least two extents is worked off and
  taken out of the results tree, and groups of one extent stay. Whether or not those succeed, the run
  returns, only takes extents out, and gives back every descriptor. The allocation of an extent map,
  which \<open>do_fiemap\<close> does not check, is assumed to succeed, and the kernel to keep its contract.
\<close>

theorem dedupe_results_correct:
  assumes "dedupe_sys_ok E" "fd_inv (ds_files S)" "tree_fits (ds_files S) (ds_res S)"
    and "ds_fs_blocksize S = 0 \<or> block_size_ok (ds_fs_blocksize S)"
  shows "\<exists>S'. dedupe_results E whole_file S = Some S' \<and> ds_files S' = ds_files S \<and> res_inv (ds_res S') \<and>
    res_extents (ds_res S') \<subseteq> res_extents (ds_res S) \<and>
    (alloc_ok E \<longrightarrow> res_extents (ds_res S') =
       {(g, k) \<in> res_extents (ds_res S). card (res_extents (ds_res S) `` {g}) < 2})"
  using dedupe_results_ok [OF assms, of whole_file] by blast

theorem dedupe_results_correct_witness:
  "\<exists>res S'. card (res_extents res) = 2 \<and> dedupe_results example_sys False (example_state res) = Some S' \<and>
     res_extents (ds_res S') = {}"
proof -
  obtain res where r: "res_extents res = {(4096, [1])} \<times> {(64, 0), (64, 4096)}" "tree_fits example_filerecs res"
      "card (res_extents res `` {(4096, [1])}) = 2" by (rule example_group)
  obtain S' where w: "dedupe_results example_sys False (example_state res) = Some S'"
      "res_extents (ds_res S') = {(g, k) \<in> res_extents res. card (res_extents res `` {g}) < 2}"
    using dedupe_results_correct [of example_sys "example_state res" False] r(2) example_sys_ok example_ok(1) by auto
  have "g = (4096, [1])" if "(g, k) \<in> res_extents res" for g k using that unfolding r(1) by auto
  then have "res_extents (ds_res S') = {}" unfolding w(2) using r(3) by auto
  moreover have "card (res_extents res) = 2" unfolding r(1) by simp
  ultimately show ?thesis using w(1) by blast
qed

end
