(* ===== verification/Util.thy ===== *)
theory Util
  imports Prelude
begin

text \<open>
  Sizes on the command line and in the output, \<open>util.c\<close>: \<open>parse_size\<close> with its suffixes and its
  three exits, the plain branch of \<open>pretty_size_snprintf\<close>, \<open>num_digits\<close>, and the counting of cores
  from the output of \<open>lscpu\<close>.

  \<open>isdigit\<close>, \<open>tolower\<close>, \<open>strtoull\<close> and the conversion of \<open>%lu\<close> are the C library's in the C
  locale. \<open>strtoull\<close> saturates. A call of \<open>exit\<close> is \<open>Inl\<close> of its status; the string is \<open>None\<close> for
  NULL.
\<close>

section \<open>Model\<close>

definition isdigit :: "char \<Rightarrow> bool" where
  "isdigit c \<longleftrightarrow> 48 \<le> (of_char c :: nat) \<and> (of_char c :: nat) \<le> 57"

definition tolower :: "char \<Rightarrow> char" where
  "tolower c = (if 65 \<le> (of_char c :: nat) \<and> (of_char c :: nat) \<le> 90 then char_of ((of_char c :: nat) + 32) else c)"

definition digit_val :: "char \<Rightarrow> nat" where
  "digit_val c = of_char c - 48"

definition ULLONG_MAX :: nat where
  "ULLONG_MAX = 2 ^ 64 - 1"

definition decimal :: "string \<Rightarrow> nat" where
  "decimal s = foldl (\<lambda>n c. 10 * n + digit_val c) 0 (takeWhile isdigit s)"

definition strtoull :: "string \<Rightarrow> u64" where
  "strtoull s = of_nat (min (decimal s) ULLONG_MAX)"

text \<open>The \<open>switch\<close> of \<open>parse_size\<close> on the lower case suffix, with its fall-throughs.\<close>

definition suffix_mult :: "char \<Rightarrow> u64 option" where
  "suffix_mult c =
     (if c = CHR ''e'' then Some (1024 * (1024 * (1024 * (1024 * (1024 * 1024)))))
      else if c = CHR ''p'' then Some (1024 * (1024 * (1024 * (1024 * 1024))))
      else if c = CHR ''t'' then Some (1024 * (1024 * (1024 * 1024)))
      else if c = CHR ''g'' \<or> c = CHR ''G'' then Some (1024 * (1024 * 1024))
      else if c = CHR ''m'' \<or> c = CHR ''M'' then Some (1024 * 1024)
      else if c = CHR ''k'' \<or> c = CHR ''K'' then Some 1024
      else if c = CHR ''b'' then Some 1
      else None)"

definition parse_size :: "string option \<Rightarrow> int + u64" where
  "parse_size arg = (case arg of
       None \<Rightarrow> Inl 50
     | Some s \<Rightarrow>
         let i = length (takeWhile isdigit s) in
         if i = 0 then Inl 50
         else case drop i s of
             [] \<Rightarrow> Inr (strtoull s * 1)
           | c # rest \<Rightarrow> (case suffix_mult (tolower c) of
               None \<Rightarrow> Inl 1
             | Some mult \<Rightarrow> if rest \<noteq> [] then Inl 51 else Inr (strtoull s * mult)))"

text \<open>The conversion of an unsigned integer, with a single zero for 0.\<close>

fun print_nat :: "nat \<Rightarrow> string" where
  "print_nat n = (if n < 10 then [char_of (48 + n)] else print_nat (n div 10) @ [char_of (48 + n mod 10)])"

declare print_nat.simps [simp del]

text \<open>\<open>pretty_size_snprintf\<close> when sizes are not printed for humans, into a buffer with room for them.\<close>

definition pretty_size_plain :: "u64 \<Rightarrow> string" where
  "pretty_size_plain sz = print_nat (unat sz)"

function num_digits_loop :: "u64 \<Rightarrow> u32 \<Rightarrow> u32" where
  "num_digits_loop num digits = (if num \<noteq> 0 then num_digits_loop (num div 10) (digits + 1) else digits)"
  by pat_completeness auto
termination
proof (relation "measure (\<lambda>(num, _). unat num)")
  show "((num div 10, digits + 1), num, digits) \<in> measure (\<lambda>(num, _). unat num)" if "num \<noteq> 0" for num :: u64 and digits :: u32
    using that by (simp add: unat_div unat_gt_0)
qed simp

declare num_digits_loop.simps [simp del]

definition num_digits :: "u64 \<Rightarrow> u32" where
  "num_digits num = num_digits_loop num 0"

text \<open>
  \<open>get_core_count\<close> on the lines of \<open>lscpu -p\<close>: a line is \<open>None\<close> when \<open>sscanf\<close> does not find three
  numbers, and the core and the socket otherwise. \<open>sockets\<close> has 64 entries, and \<open>1 << core\<close> is an
  \<open>int\<close> that is converted to 64 bits; \<open>None\<close> is a write past the array or a shift past the width.
  The result holds the number of physical and logical cores, or \<open>-EINVAL\<close>.
\<close>

unbundle bit_operations_syntax

fun core_loop :: "(nat \<times> nat) option list \<Rightarrow> u64 list \<Rightarrow> u32 \<Rightarrow> u32 \<Rightarrow> (u32 \<times> u32) option" where
  "core_loop [] sockets physical logical = Some (physical, logical)"
| "core_loop (None # lines) sockets physical logical = core_loop lines sockets physical (logical + 1)"
| "core_loop (Some (core, socket) # lines) sockets physical logical =
     (if socket \<ge> length sockets \<or> core \<ge> 31 then None
      else if sockets ! socket AND 2 ^ core = 0 then
        core_loop lines (sockets[socket := sockets ! socket OR 2 ^ core]) (physical + 1) (logical + 1)
      else core_loop lines sockets physical (logical + 1))"

definition get_core_count :: "(nat \<times> nat) option list option \<Rightarrow> (int + u32 \<times> u32) option" where
  "get_core_count output = (case output of
       None \<Rightarrow> Some (Inl (- EINVAL))
     | Some lines \<Rightarrow> do {
         (physical, logical) \<leftarrow> core_loop lines (replicate 64 0) 0 0;
         Some (if logical = 0 \<or> physical = 0 then Inl (- EINVAL) else Inr (physical, logical))
       })"

section \<open>Printing and parsing\<close>

lemma of_char_digit: "m < 10 \<Longrightarrow> (of_char (char_of (48 + m) :: char) :: nat) = 48 + m"
  by (simp add: of_char_of)

lemma isdigit_print: "m < 10 \<Longrightarrow> isdigit (char_of (48 + m))" "m < 10 \<Longrightarrow> digit_val (char_of (48 + m)) = m"
  by (simp_all add: isdigit_def digit_val_def of_char_digit)

lemma print_digits: "c \<in> set (print_nat n) \<Longrightarrow> isdigit c"
proof (induction n rule: print_nat.induct)
  case (1 n)
  then show ?case using isdigit_print(1) [of n] isdigit_print(1) [of "n mod 10"]
    unfolding print_nat.simps [of n] by (cases "n < 10") auto
qed

lemma print_nonempty [simp]: "print_nat n \<noteq> []"
  by (subst print_nat.simps) simp

lemma takeWhile_print: "takeWhile isdigit (print_nat n @ s) = print_nat n @ takeWhile isdigit s"
  using print_digits by (simp add: takeWhile_append2)

lemma foldl_print: "foldl (\<lambda>n c. 10 * n + digit_val c) 0 (print_nat n) = n"
proof (induction n rule: print_nat.induct)
  case (1 n)
  then show ?case using isdigit_print(2) [of n] isdigit_print(2) [of "n mod 10"]
    by (subst print_nat.simps) (simp add: div_mult_mod_eq mult.commute)
qed

lemma print_bounds: "n < 10 ^ length (print_nat n) \<and> (0 < n \<longrightarrow> 10 ^ length (print_nat n) \<le> 10 * n)"
proof (induction n rule: print_nat.induct)
  case (1 n)
  show ?case
  proof (cases "n < 10")
    case True
    then show ?thesis by (subst (1 2) print_nat.simps) auto
  next
    case False
    define p where "p = (10::nat) ^ length (print_nat (n div 10))"
    have "n div 10 < p" "p \<le> 10 * (n div 10)" using 1 [OF False] False by (simp_all add: p_def)
    moreover have "10 ^ length (print_nat n) = 10 * p" using False by (subst print_nat.simps) (simp add: p_def)
    moreover have "10 * (n div 10) \<le> n" by simp
    ultimately show ?thesis by linarith
  qed
qed

lemma num_digits_loop_print: "num_digits_loop num d = d + (if num = 0 then 0 else of_nat (length (print_nat (unat num))))"
proof (induction num d rule: num_digits_loop.induct)
  case (1 num digits)
  show ?case
  proof (cases "num = 0")
    case False
    have d: "unat (num div 10) = unat num div 10" by (simp add: unat_div)
    have s: "num_digits_loop num digits = num_digits_loop (num div 10) (digits + 1)" using False by (subst num_digits_loop.simps) simp
    show ?thesis
    proof (cases "unat num < 10")
      case True
      then have "num div 10 = 0" using d by (simp add: unat_eq_zero [symmetric])
      then show ?thesis using s False True 1 [OF False] by (subst print_nat.simps) simp
    next
      case ge: False
      then have "num div 10 \<noteq> 0" using d by (auto simp: unat_eq_zero [symmetric])
      then show ?thesis using s False ge 1 [OF False] d by (subst print_nat.simps) simp
    qed
  qed (subst num_digits_loop.simps, simp)
qed

lemma parse_print:
  "parse_size (Some (print_nat n @ s)) = (case s of
       [] \<Rightarrow> Inr (of_nat (min n ULLONG_MAX))
     | c # rest \<Rightarrow> if isdigit c then parse_size (Some (print_nat n @ s)) else (case suffix_mult (tolower c) of
         None \<Rightarrow> Inl 1 | Some mult \<Rightarrow> if rest \<noteq> [] then Inl 51 else Inr (of_nat (min n ULLONG_MAX) * mult)))"
proof (cases "s = [] \<or> \<not> isdigit (hd s)")
  case True
  then have "takeWhile isdigit s = []" by (cases s) auto
  then have t: "takeWhile isdigit (print_nat n @ s) = print_nat n" by (simp add: takeWhile_print)
  then have v: "strtoull (print_nat n @ s) = of_nat (min n ULLONG_MAX)" by (simp add: strtoull_def decimal_def foldl_print)
  have "parse_size (Some (print_nat n @ s)) = (case s of [] \<Rightarrow> Inr (strtoull (print_nat n @ s) * 1)
      | c # rest \<Rightarrow> (case suffix_mult (tolower c) of None \<Rightarrow> Inl 1
         | Some mult \<Rightarrow> if rest \<noteq> [] then Inl 51 else Inr (strtoull (print_nat n @ s) * mult)))"
    unfolding parse_size_def option.case Let_def t by simp
  with True show ?thesis unfolding v by (cases s) simp_all
qed (cases s, simp_all)

text \<open>The cores seen so far, one bit each.\<close>

definition cores_ok :: "u64 list \<Rightarrow> (nat \<times> nat) set \<Rightarrow> bool" where
  "cores_ok sockets seen \<longleftrightarrow> length sockets = 64 \<and>
     (\<forall>core socket. core < 31 \<longrightarrow> socket < 64 \<longrightarrow> (bit (sockets ! socket) core \<longleftrightarrow> (core, socket) \<in> seen))"

lemma and_exp_zero: "n < 64 \<Longrightarrow> ((w :: u64) AND 2 ^ n = 0) \<longleftrightarrow> \<not> bit w n"
  by (simp add: and_exp_eq_0_iff_not_bit)

lemma core_loop_ok:
  "cores_ok sockets seen \<Longrightarrow> finite seen \<Longrightarrow> \<forall>core socket. Some (core, socket) \<in> set lines \<longrightarrow> core < 31 \<and> socket < 64 \<Longrightarrow>
   core_loop lines sockets (of_nat (card seen)) logical =
     Some (of_nat (card (seen \<union> {x. Some x \<in> set lines})), logical + of_nat (length lines))"
proof (induction lines arbitrary: sockets seen logical)
  case (Cons line lines)
  show ?case
  proof (cases line)
    case None
    then have "{x. Some x \<in> set (line # lines)} = {x. Some x \<in> set lines}" by auto
    then show ?thesis using Cons None by (simp add: ac_simps)
  next
    case (Some x)
    obtain core socket where x: "x = (core, socket)" by fastforce
    have lt: "core < 31" "socket < 64" using Cons.prems(3) Some x by auto
    have set: "seen \<union> {x. Some x \<in> set (line # lines)} = insert x seen \<union> {x. Some x \<in> set lines}" using Some by auto
    have b: "(sockets ! socket AND 2 ^ core = 0) \<longleftrightarrow> x \<notin> seen"
      using Cons.prems(1) lt x and_exp_zero [of core "sockets ! socket"] by (auto simp: cores_ok_def)
    have len: "length sockets = 64" using Cons.prems(1) by (simp add: cores_ok_def)
    have rest: "\<forall>core socket. Some (core, socket) \<in> set lines \<longrightarrow> core < 31 \<and> socket < 64" using Cons.prems(3) by auto
    show ?thesis
    proof (cases "x \<in> seen")
      case True
      then have "insert x seen = seen" by auto
      then show ?thesis using Cons.IH [OF Cons.prems(1,2) rest] b True Some x lt len unfolding set by (simp add: ac_simps)
    next
      case False
      define sockets' where "sockets' = sockets[socket := sockets ! socket OR 2 ^ core]"
      have ok: "cores_ok sockets' (insert x seen)"
        using Cons.prems(1) lt x unfolding cores_ok_def sockets'_def
        by (auto simp: nth_list_update bit_or_iff bit_exp_iff)
      have "core_loop (line # lines) sockets (of_nat (card seen)) logical = core_loop lines sockets' (of_nat (card (insert x seen))) (logical + 1)"
        using b False Some x lt len Cons.prems(2) by (simp add: sockets'_def add.commute)
      then show ?thesis using Cons.IH [OF ok _ rest, of "logical + 1"] Cons.prems(2) unfolding set by (simp add: ac_simps)
    qed
  qed
qed simp

section \<open>The properties of sizes and counts\<close>

text \<open>
  What the suffixes mean, independently of the \<open>switch\<close>: the place of a letter in this list is its
  power of 1024.
\<close>

definition suffix_power :: "char \<Rightarrow> nat option" where
  "suffix_power c = map_of (zip ''bkmgtpe'' [0, 1, 2, 3, 4, 5, 6]) c"

lemma tolower_not_upper: "\<not> (65 \<le> (of_char (tolower c) :: nat) \<and> (of_char (tolower c) :: nat) \<le> 90)"
  by (auto simp: tolower_def of_char_of)

lemma suffix_mult_power: "suffix_mult (tolower c) = map_option (\<lambda>k. 1024 ^ k) (suffix_power (tolower c))"
proof -
  have "tolower c \<noteq> CHR ''G''" "tolower c \<noteq> CHR ''M''" "tolower c \<noteq> CHR ''K''" using tolower_not_upper [of c] by auto
  then show ?thesis by (simp add: suffix_mult_def suffix_power_def)
qed

text \<open>
  C36. A size that was printed is parsed back: the plain output of every 64-bit size gives that
  size. With one of the letters b, k, m, g, t, p and e behind it, in either case, the value is scaled by
  1024 to the power 0, 1, 2, 3, 4, 5 and 6, modulo 2^64; any other character that is no digit ends the program with
  status 1, and anything after one of these letters with status 51.
\<close>

theorem parse_size_roundtrip:
  "parse_size (Some (pretty_size_plain n)) = Inr n \<and>
   (\<not> isdigit c \<longrightarrow> parse_size (Some (pretty_size_plain n @ c # rest)) =
      (case map_of (zip ''bkmgtpe'' [0, 1, 2, 3, 4, 5, 6]) (tolower c) of
         None \<Rightarrow> Inl 1 | Some k \<Rightarrow> if rest = [] then Inr (n * 1024 ^ k) else Inl 51))"
proof -
  have "unat n \<le> ULLONG_MAX" using unat_u64 [of n] unfolding ULLONG_MAX_def by (simp del: unat_u64)
  then have m: "of_nat (min (unat n) ULLONG_MAX) = n" by (simp add: min_absorb1)
  have "parse_size (Some (pretty_size_plain n)) = Inr n"
    using parse_print [of "unat n" "[]"] m by (simp add: pretty_size_plain_def)
  moreover have "parse_size (Some (pretty_size_plain n @ c # rest)) = (case suffix_power (tolower c) of
     None \<Rightarrow> Inl 1 | Some k \<Rightarrow> if rest = [] then Inr (n * 1024 ^ k) else Inl 51)" if "\<not> isdigit c"
    using parse_print [of "unat n" "c # rest"] m that unfolding pretty_size_plain_def suffix_mult_power by (simp split: option.split)
  ultimately show ?thesis unfolding suffix_power_def by blast
qed

theorem parse_size_roundtrip_witness:
  "parse_size (Some (pretty_size_plain 128 @ ''T'')) = Inr (128 * 1024 ^ 4)"
proof -
  have "tolower CHR ''T'' = CHR ''t''" "\<not> isdigit CHR ''T''" by code_simp+
  then show ?thesis using parse_size_roundtrip [of 128 "CHR ''T''" "[]"] by simp
qed

text \<open>
  \<open>num_digits\<close> is the length of the decimal representation of its argument: the smallest power
  of ten above it. For 0 it is 0.
\<close>

lemma num_digits_correct:
  "num_digits num = (if num = 0 then 0 else of_nat (length (pretty_size_plain num))) \<and>
   (num \<noteq> 0 \<longrightarrow> unat num < 10 ^ length (pretty_size_plain num) \<and> 10 ^ length (pretty_size_plain num) \<le> 10 * unat num)"
  using print_bounds [of "unat num"] num_digits_loop_print [of num 0]
  by (auto simp: num_digits_def pretty_size_plain_def unat_gt_0)

text \<open>
  \<open>get_core_count\<close> counts every line as a logical core and every pair of core and socket once as
  a physical core, as long as core numbers are below 31 and socket numbers below 64.
\<close>

theorem get_core_count_correct:
  assumes "\<forall>core socket. Some (core, socket) \<in> set lines \<longrightarrow> core < 31 \<and> socket < 64" "length lines < 2 ^ 32"
    and "{x. Some x \<in> set lines} \<noteq> {}"
  shows "get_core_count (Some lines) = Some (Inr (of_nat (card {x. Some x \<in> set lines}), of_nat (length lines)))"
proof -
  have "cores_ok (replicate 64 0) {}" by (simp add: cores_ok_def)
  from core_loop_ok [OF this _ assms(1), of 0]
  have l: "core_loop lines (replicate 64 0) 0 0 = Some (of_nat (card {x. Some x \<in> set lines}), of_nat (length lines))" by simp
  have fin: "finite (Some ` {x. Some x \<in> set lines})" "Some ` {x. Some x \<in> set lines} \<subseteq> set lines"
    by (auto intro: finite_subset [OF _ finite_set])
  then have f: "finite {x. Some x \<in> set lines}" by (simp add: finite_image_iff)
  have "card {x. Some x \<in> set lines} \<le> card (set lines)"
    using card_mono [OF _ fin(2)] by (simp add: card_image)
  then have le: "card {x. Some x \<in> set lines} \<le> length lines" using card_length [of lines] by simp
  have pos: "0 < card {x. Some x \<in> set lines}" using assms(3) f by (simp add: card_gt_0_iff)
  have nz: "(of_nat m :: u32) \<noteq> 0" if "0 < m" "m < 2 ^ 32" for m
  proof
    assume "(of_nat m :: u32) = 0"
    then have "2 ^ 32 dvd m" by (simp add: word_of_nat_eq_0_iff)
    with that show False using dvd_imp_le by force
  qed
  have "(of_nat (card {x. Some x \<in> set lines}) :: u32) \<noteq> 0" "(of_nat (length lines) :: u32) \<noteq> 0"
    by (rule nz; use pos le assms(2) in linarith)+
  with l show ?thesis by (simp add: get_core_count_def)
qed

theorem get_core_count_correct_witness:
  "get_core_count (Some [Some (0, 0), Some (0, 0), Some (1, 0)]) = Some (Inr (2, 3))"
proof -
  have "{x. Some x \<in> set [Some (0, 0), Some (0, 0), Some (1::nat, 0::nat)]} = {(0, 0), (1, 0)}" by auto
  then show ?thesis using get_core_count_correct [of "[Some (0, 0), Some (0, 0), Some (1, 0)]"] by auto
qed

end
