(* ===== verification/FileScan.thy ===== *)
theory FileScan
  imports Fiemap Csum
begin

text \<open>
  Hashing the contents of a file, the second half of \<open>file_scan.c\<close>: \<open>csum_whole_file\<close> reads the file
  through a buffer, hashes whole blocks, feeds what it consumed to the checksum of the file and of
  the current extent, and hands the results to the database.

  Parameters are the hash functions, \<open>pread\<close> (count and offset; \<open>None\<close> is an error, a list the bytes
  it read), whether \<open>realloc\<close> succeeds, the FIEMAP replies and the return codes of the database. The
  buffer is a list of bytes; \<open>buf_size\<close>, \<open>dl_offset\<close> and \<open>dl_len\<close> are the fields of the structure.
  The arrays of \<open>struct hashes\<close> are the lists of their used entries, so that \<open>blocks_index\<close> and
  \<open>extents_index\<close> are lengths. Progress reports and locks are left out.
\<close>

record block_csum =
  bc_loff :: u64
  bc_digest :: digest

record extent_csum =
  ec_loff :: u64
  ec_poff :: u64
  ec_len :: u64
  ec_digest :: digest

record buffer =
  buf :: "u8 list"
  buf_size :: u64
  dl_offset :: u64
  dl_len :: u64
  faked :: bool

record hashes =
  extents_count :: u32
  h_extents :: "extent_csum list"
  blocks_count :: u32
  h_blocks :: "block_csum list"

record 's scan_ctxt =
  sc_filesize :: u64
  sc_off :: u64
  sc_fiemap :: fiemap
  file_csum :: 's
  extent_csum :: "'s option"

record scan_options =
  do_block_hash :: bool
  skip_zeroes :: bool
  only_whole_files :: bool
  blocksize :: u32

record 's scan_sys =
  scan_xxh :: "'s xxh3"
  pread :: "u64 \<Rightarrow> u64 \<Rightarrow> u8 list option"
  realloc_ok :: bool
  csum_room :: bool
  map_room :: bool

unbundle bit_operations_syntax

section \<open>Model\<close>

definition FIEMAP_EXTENT_DATA_INLINE :: u32 where "FIEMAP_EXTENT_DATA_INLINE = 0x200"
definition FIEMAP_EXTENT_UNWRITTEN :: u32 where "FIEMAP_EXTENT_UNWRITTEN = 0x800"

definition FIEMAP_SKIP_FLAGS :: u32 where
  "FIEMAP_SKIP_FLAGS = FIEMAP_EXTENT_DATA_INLINE OR FIEMAP_EXTENT_UNWRITTEN"

definition READ_BUF_LEN :: u64 where
  "READ_BUF_LEN = 8 * 1024 * 1024"

text \<open>An \<open>unsigned int\<close> argument that is given a \<open>size_t\<close>.\<close>

definition as_uint :: "u64 \<Rightarrow> nat" where
  "as_uint n = unat (ucast n :: u32)"

definition allocate_hashes :: "bool \<Rightarrow> scan_options \<Rightarrow> 's scan_ctxt \<Rightarrow> hashes option" where
  "allocate_hashes room opts ctxt =
     (if room then Some \<lparr>extents_count = fm_mapped_extents (sc_fiemap ctxt), h_extents = [],
        blocks_count = ucast (sc_filesize ctxt div ucast (blocksize opts) + 1), h_blocks = []\<rparr>
      else None)"

definition prepare_buffer :: "bool \<Rightarrow> buffer option" where
  "prepare_buffer room =
     (if room then Some \<lparr>buf = replicate (unat READ_BUF_LEN) 0, buf_size = READ_BUF_LEN, dl_offset = 0, dl_len = 0, faked = False\<rparr>
      else None)"

text \<open>\<open>is_block_zeroed\<close> on the bytes from its pointer on: the first \<open>int\<close>, and each byte with the next.\<close>

definition is_block_zeroed :: "scan_options \<Rightarrow> u8 list \<Rightarrow> bool" where
  "is_block_zeroed opts b \<longleftrightarrow> take 4 b = [0, 0, 0, 0] \<and>
     take (unat (blocksize opts) - 1) b = take (unat (blocksize opts) - 1) (drop 1 b)"

definition add_block_hash :: "'s scan_sys \<Rightarrow> hashes \<Rightarrow> u64 \<Rightarrow> digest \<Rightarrow> int \<times> hashes" where
  "add_block_hash E hashes loff digest =
     (let grow = of_nat (length (h_blocks hashes)) + 1 > blocks_count hashes;
          hashes = (if grow then hashes\<lparr>blocks_count := blocks_count hashes + 1\<rparr> else hashes) in
      if grow \<and> \<not> realloc_ok E then (- ENOMEM, hashes)
      else (0, hashes\<lparr>h_blocks := h_blocks hashes @ [\<lparr>bc_loff = loff, bc_digest = digest\<rparr>]\<rparr>))"

partial_function (option) area_loop :: "fiemap \<Rightarrow> u64 \<Rightarrow> u64 \<Rightarrow> bool option" where
  "area_loop fm start stop =
     (if start < stop then do {
        current_extent \<leftarrow> get_extent fm start;
        case current_extent of
          None \<Rightarrow> Some False
        | Some (i, e) \<Rightarrow>
            if fe_flags e AND FIEMAP_SKIP_FLAGS \<noteq> 0 then Some True
            else if fe_flags e AND FIEMAP_EXTENT_LAST \<noteq> 0 then Some False
            else area_loop fm (fe_logical e + fe_length e + 1) stop
      }
      else Some False)"

definition is_area_ignored :: "fiemap \<Rightarrow> u64 \<Rightarrow> u64 \<Rightarrow> bool option" where
  "is_area_ignored fm start len = area_loop fm start (start + len)"

definition is_block_ignored :: "scan_options \<Rightarrow> fiemap \<Rightarrow> u64 \<Rightarrow> bool option" where
  "is_block_ignored opts fm off = is_area_ignored fm off (ucast (blocksize opts))"

definition process_block :: "'s scan_sys \<Rightarrow> u8 list \<Rightarrow> u64 \<Rightarrow> hashes \<Rightarrow> int \<times> hashes" where
  "process_block E bytes file_off hashes = add_block_hash E hashes file_off (checksum_block (scan_xxh E) bytes)"

text \<open>The loop over the blocks \<open>i\<close> to \<open>i + n - 1\<close> of the buffer.\<close>

fun blocks_loop ::
    "'s scan_sys \<Rightarrow> scan_options \<Rightarrow> fiemap \<Rightarrow> buffer \<Rightarrow> nat \<Rightarrow> nat \<Rightarrow> u64 \<Rightarrow> hashes \<Rightarrow> (int \<times> hashes) option" where
  "blocks_loop E opts fm b i 0 curr_file_off hashes = Some (0, hashes)"
| "blocks_loop E opts fm b i (Suc n) curr_file_off hashes = do {
     ignored \<leftarrow> is_block_ignored opts fm curr_file_off;
     let (ret, hashes) = (if \<not> ignored \<and> \<not> (skip_zeroes opts \<and> is_block_zeroed opts (drop (unat (dl_offset b)) (buf b)))
       then process_block E (take (unat (blocksize opts)) (drop (i * unat (blocksize opts)) (buf b))) curr_file_off hashes
       else (0, hashes));
     if ret \<noteq> 0 then Some (ret, hashes)
     else blocks_loop E opts fm b (i + 1) n (curr_file_off + ucast (blocksize opts)) hashes
   }"

text \<open>The result is a negative code or the number of bytes.\<close>

definition process_blocks ::
    "'s scan_sys \<Rightarrow> scan_options \<Rightarrow> 's scan_ctxt \<Rightarrow> buffer \<Rightarrow> hashes \<Rightarrow> ((int + u64) \<times> hashes) option" where
  "process_blocks E opts ctxt b hashes =
     (let nb_blocks = (ucast (dl_len b div ucast (blocksize opts)) :: u32) in
      if \<not> do_block_hash opts \<or> faked b then Some (Inr (dl_len b), hashes)
      else do {
        (ret, hashes) \<leftarrow> blocks_loop E opts (sc_fiemap ctxt) b 0 (unat nb_blocks) (sc_off ctxt) hashes;
        Some (if ret \<noteq> 0 then Inl ret else Inr (ucast (nb_blocks * blocksize opts)), hashes)
      })"

text \<open>An entry for an extent that is skipped has length 0; its other fields are what \<open>calloc\<close> left.\<close>

definition store_extent ::
    "'s scan_sys \<Rightarrow> 's scan_ctxt \<Rightarrow> hashes \<Rightarrow> fiemap_extent \<Rightarrow> (int \<times> 's scan_ctxt \<times> hashes) option" where
  "store_extent E ctxt hashes extent =
     (let grow = of_nat (length (h_extents hashes)) + 1 > extents_count hashes;
          hashes = (if grow then hashes\<lparr>extents_count := extents_count hashes + 1\<rparr> else hashes) in
      if grow \<and> \<not> realloc_ok E then Some (- ENOMEM, ctxt, hashes)
      else if fe_flags extent AND FIEMAP_SKIP_FLAGS \<noteq> 0 then
        Some (0, ctxt, hashes\<lparr>h_extents := h_extents hashes @
          [\<lparr>ec_loff = 0, ec_poff = 0, ec_len = 0, ec_digest = replicate DIGEST_LEN 0\<rparr>]\<rparr>)
      else do {
        c \<leftarrow> extent_csum ctxt;
        Some (0, ctxt\<lparr>extent_csum := None\<rparr>, hashes\<lparr>h_extents := h_extents hashes @
          [\<lparr>ec_loff = fe_logical extent, ec_poff = fe_physical extent, ec_len = fe_length extent,
            ec_digest = finish_running_checksum (scan_xxh E) c\<rparr>]\<rparr>)
      })"

partial_function (option) extents_loop ::
    "'s scan_sys \<Rightarrow> buffer \<Rightarrow> u64 \<Rightarrow> u64 \<Rightarrow> u64 \<Rightarrow> 's scan_ctxt \<Rightarrow> hashes \<Rightarrow> (int \<times> 's scan_ctxt \<times> hashes) option" where
  "extents_loop E b bytes file_off buf_off ctxt hashes =
     (if file_off < sc_off ctxt + bytes then do {
        extent \<leftarrow> get_extent (sc_fiemap ctxt) file_off;
        case extent of
          None \<Rightarrow> Some (1, ctxt\<lparr>extent_csum := None\<rparr>, hashes)
        | Some (i, extent) \<Rightarrow> do {
            let ext_end_off = fe_logical extent + fe_length extent;
            let to_add = (if ext_end_off > sc_off ctxt + bytes then bytes - buf_off else ext_end_off - file_off);
            let ctxt = (if fe_flags extent AND FIEMAP_SKIP_FLAGS = 0 then
                ctxt\<lparr>extent_csum := Some (add_to_running_checksum (scan_xxh E)
                  (case extent_csum ctxt of None \<Rightarrow> start_running_checksum (scan_xxh E) | Some c \<Rightarrow> c)
                  (take (as_uint to_add) (drop (unat buf_off) (buf b))))\<rparr>
              else ctxt);
            abort_on (\<not> file_off + to_add \<le> sc_off ctxt + bytes);
            let buf_off = buf_off + to_add;
            let file_off = file_off + to_add;
            let dummy = (if fe_flags extent AND FIEMAP_EXTENT_LAST \<noteq> 0 then ext_end_off - sc_filesize ctxt else 0);
            if file_off + dummy = ext_end_off then do {
              (ret, ctxt, hashes) \<leftarrow> store_extent E ctxt hashes extent;
              if ret \<noteq> 0 then Some (ret, ctxt, hashes) else extents_loop E b bytes file_off buf_off ctxt hashes
            }
            else extents_loop E b bytes file_off buf_off ctxt hashes
          }
      }
      else Some (0, ctxt, hashes))"

definition process_extents ::
    "'s scan_sys \<Rightarrow> 's scan_ctxt \<Rightarrow> buffer \<Rightarrow> hashes \<Rightarrow> u64 \<Rightarrow> (int \<times> 's scan_ctxt \<times> hashes) option" where
  "process_extents E ctxt b hashes bytes = extents_loop E b bytes (sc_off ctxt) 0 ctxt hashes"

text \<open>
  \<open>fill_buffer\<close>. The caller tells only negative, zero and positive results apart. \<open>put\<close> overwrites
  bytes of the buffer.
\<close>

definition put :: "u8 list \<Rightarrow> nat \<Rightarrow> u8 list \<Rightarrow> u8 list" where
  "put b pos bytes = take pos b @ bytes @ drop (pos + length bytes) b"

definition fill_buffer :: "'s scan_sys \<Rightarrow> 's scan_ctxt \<Rightarrow> buffer \<Rightarrow> (int \<times> buffer) option" where
  "fill_buffer E ctxt b = do {
     ignored \<leftarrow> is_area_ignored (sc_fiemap ctxt) (sc_off ctxt) (buf_size b);
     if ignored \<and> sc_off ctxt + buf_size b \<le> sc_filesize ctxt then
       Some (if sc_filesize ctxt \<le> sc_off ctxt + buf_size b then 0 else 1,
         b\<lparr>buf := put (buf b) 0 (replicate (unat (buf_size b)) 0), dl_len := buf_size b, dl_offset := 0, faked := True\<rparr>)
     else do {
       let b = (if dl_len b \<noteq> 0
         then b\<lparr>buf := put (buf b) 0 (take (unat (dl_len b)) (drop (unat (dl_offset b)) (buf b)))\<rparr> else b);
       let b = b\<lparr>dl_offset := 0, faked := False\<rparr>;
       let ret = pread E (buf_size b - dl_len b) (sc_off ctxt + dl_len b);
       let b = (case ret of None \<Rightarrow> b
         | Some bytes \<Rightarrow> b\<lparr>buf := put (buf b) (unat (dl_len b)) bytes, dl_len := dl_len b + of_nat (length bytes)\<rparr>);
       abort_on (\<not> dl_offset b + dl_len b \<le> buf_size b);
       Some (case ret of None \<Rightarrow> -1
         | Some bytes \<Rightarrow> if bytes = [] \<or> sc_off ctxt + dl_len b = sc_filesize ctxt then 0 else int (as_uint (dl_len b)), b)
     }
   }"

definition is_inlined :: "'s scan_ctxt \<Rightarrow> bool option" where
  "is_inlined ctxt = do {
     extent \<leftarrow> get_extent (sc_fiemap ctxt) (sc_filesize ctxt - 1);
     Some (case extent of None \<Rightarrow> False | Some (i, e) \<Rightarrow> fe_flags e AND FIEMAP_EXTENT_DATA_INLINE \<noteq> 0)
   }"

text \<open>The checksum of the file, and the extents.\<close>

definition feed_bytes ::
    "'s scan_sys \<Rightarrow> scan_options \<Rightarrow> 's scan_ctxt \<Rightarrow> buffer \<Rightarrow> hashes \<Rightarrow> u64 \<Rightarrow> (int \<times> 's scan_ctxt \<times> hashes) option" where
  "feed_bytes E opts ctxt b hashes bytes_processed = do {
     let ctxt = ctxt\<lparr>file_csum := add_to_running_checksum (scan_xxh E) (file_csum ctxt)
       (take (as_uint bytes_processed) (buf b))\<rparr>;
     if only_whole_files opts then Some (0, ctxt, hashes) else process_extents E ctxt b hashes bytes_processed
   }"

text \<open>
  The part of the body of the main loop from \<open>process_blocks\<close> to the extents. The result is the number
  of bytes, or \<open>None\<close> for a \<open>return\<close>; a code that is not zero leaves the loop.
\<close>

definition consume ::
    "'s scan_sys \<Rightarrow> scan_options \<Rightarrow> bool \<Rightarrow> 's scan_ctxt \<Rightarrow> buffer \<Rightarrow> hashes \<Rightarrow>
     (int \<times> u64 \<times> 's scan_ctxt \<times> hashes) option option" where
  "consume E opts eof_reached ctxt b hashes = do {
     (res, hashes) \<leftarrow> process_blocks E opts ctxt b hashes;
     case res of
       Inl err \<Rightarrow> Some None
     | Inr bytes_processed \<Rightarrow> do {
         let partial = eof_reached \<and> bytes_processed < dl_len b;
         let (ret, hashes) = (if partial
           then process_block E (take (unat (dl_len b - bytes_processed)) (drop (unat bytes_processed) (buf b)))
             (sc_off ctxt + bytes_processed) hashes
           else (0, hashes));
         if ret \<noteq> 0 then Some None
         else do {
           let bytes_processed = (if partial then bytes_processed + (dl_len b - bytes_processed) else bytes_processed);
           (ret, ctxt, hashes) \<leftarrow> feed_bytes E opts ctxt b hashes bytes_processed;
           Some (Some (ret, bytes_processed, ctxt, hashes))
         }
       }
   }"

text \<open>The main loop: \<open>Some None\<close> is a \<open>return\<close>, otherwise the context and the hashes after it.\<close>

partial_function (option) csum_loop ::
    "'s scan_sys \<Rightarrow> scan_options \<Rightarrow> bool \<Rightarrow> 's scan_ctxt \<Rightarrow> buffer \<Rightarrow> hashes \<Rightarrow> ('s scan_ctxt \<times> hashes) option option" where
  "csum_loop E opts eof_reached ctxt b hashes =
     (if sc_off ctxt < sc_filesize ctxt then do {
        (ret, b) \<leftarrow> fill_buffer E ctxt b;
        if ret < 0 then Some None
        else do {
          let eof_reached = (eof_reached \<or> ret = 0);
          step \<leftarrow> consume E opts eof_reached ctxt b hashes;
          case step of
            None \<Rightarrow> Some None
          | Some (ret, bytes_processed, ctxt, hashes) \<Rightarrow>
              if ret \<noteq> 0 then Some (Some (ctxt, hashes))
              else do {
                let b = b\<lparr>dl_offset := bytes_processed, dl_len := dl_len b - bytes_processed\<rparr>;
                let ctxt = ctxt\<lparr>sc_off := sc_off ctxt + bytes_processed\<rparr>;
                if eof_reached then Some (Some (ctxt, hashes)) else csum_loop E opts eof_reached ctxt b hashes
              }
        }
      }
      else Some (Some (ctxt, hashes)))"

datatype scan_db_op =
    dbfile_begin_trans
  | dbfile_store_block_hashes int "block_csum list"
  | dbfile_store_extent_hashes int "extent_csum list"
  | dbfile_update_scanned_file int digest u32
  | dbfile_abort_trans
  | dbfile_commit_trans

definition FILE_INLINED :: u32 where
  "FILE_INLINED = 0x0001"

text \<open>The calls on the database, in order; the first that fails makes the transaction abort.\<close>

fun db_calls :: "(scan_db_op \<Rightarrow> int) \<Rightarrow> scan_db_op list \<Rightarrow> scan_db_op list" where
  "db_calls db [] = [dbfile_commit_trans]"
| "db_calls db (c # cs) = c # (if db c \<noteq> 0 then [dbfile_abort_trans] else db_calls db cs)"

definition store_hashes ::
    "'s scan_sys \<Rightarrow> (scan_db_op \<Rightarrow> int) \<Rightarrow> int \<Rightarrow> 's scan_ctxt \<Rightarrow> hashes \<Rightarrow> scan_db_op list option" where
  "store_hashes E db fileid ctxt hashes = do {
     let file_digest = finish_running_checksum (scan_xxh E) (file_csum ctxt);
     inlined \<leftarrow> is_inlined ctxt;
     Some (dbfile_begin_trans # (if db dbfile_begin_trans \<noteq> 0 then [] else db_calls db
       ((if h_blocks hashes \<noteq> [] \<and> \<not> inlined then [dbfile_store_block_hashes fileid (h_blocks hashes)] else []) @
        (if h_extents hashes \<noteq> [] then [dbfile_store_extent_hashes fileid (h_extents hashes)] else []) @
        [dbfile_update_scanned_file fileid file_digest (if inlined then FILE_INLINED else 0)])))
   }"

text \<open>
  \<open>csum_whole_file\<close> with the buffer and the database handle of the thread. \<open>csum_room\<close> and \<open>map_room\<close> are the allocations of
  the running checksum and of the extent map (the latter is not checked), \<open>opened\<close> is whether \<open>open\<close> succeeds, \<open>room\<close> whether
  the arrays can be allocated. The result is the list of calls on the database.
\<close>

definition csum_whole_file ::
    "'s scan_sys \<Rightarrow> scan_options \<Rightarrow> (scan_db_op \<Rightarrow> int) \<Rightarrow> int \<times> u32 \<Rightarrow> (u32 \<Rightarrow> int \<times> fiemap) \<Rightarrow> bool \<Rightarrow> bool \<Rightarrow> int \<Rightarrow> u64 \<Rightarrow>
     buffer \<Rightarrow> scan_db_op list option" where
  "csum_whole_file E opts db count_reply map_reply opened room fileid filesize b = do {
     let b = b\<lparr>dl_offset := 0, dl_len := 0\<rparr>;
     if \<not> csum_room E then Some []
     else if \<not> opened then Some []
     else do {
       fm \<leftarrow> do_fiemap count_reply map_reply (map_room E);
       case fm of
         None \<Rightarrow> Some []
       | Some fm \<Rightarrow> do {
           let ctxt = \<lparr>sc_filesize = filesize, sc_off = 0, sc_fiemap = fm,
             file_csum = start_running_checksum (scan_xxh E), extent_csum = None\<rparr>;
           case allocate_hashes room opts ctxt of
             None \<Rightarrow> Some []
           | Some hashes \<Rightarrow> do {
               res \<leftarrow> csum_loop E opts False ctxt b hashes;
               case res of
                 None \<Rightarrow> Some []
               | Some (ctxt, hashes) \<Rightarrow>
                   if sc_off ctxt \<noteq> filesize then Some [] else store_hashes E db fileid ctxt hashes
             }
         }
     }
   }"

section \<open>Running checksums and slices\<close>

text \<open>\<open>c\<close> is a running checksum that was fed exactly the bytes \<open>d\<close>.\<close>

definition fed :: "'s xxh3 \<Rightarrow> 's \<Rightarrow> u8 list \<Rightarrow> bool" where
  "fed X c d \<longleftrightarrow> (\<exists>bufs. c = foldl (add_to_running_checksum X) (start_running_checksum X) bufs \<and> concat bufs = d)"

lemma fed_start: "fed X (start_running_checksum X) []"
  unfolding fed_def by (intro exI [of _ "[]"]) simp

lemma fed_add: "fed X c d \<Longrightarrow> fed X (add_to_running_checksum X c e) (d @ e)"
  unfolding fed_def by (elim exE) (rule_tac x = "bufs @ [e]" in exI, simp)

lemma fed_finish: "xxh3_ok X \<Longrightarrow> fed X c d \<Longrightarrow> finish_running_checksum X c = checksum_block X d"
  using running_checksum_concat by (auto simp: fed_def)

text \<open>The bytes of \<open>d\<close> from \<open>a\<close> up to \<open>b\<close>.\<close>

definition range_of :: "u8 list \<Rightarrow> nat \<Rightarrow> nat \<Rightarrow> u8 list" where
  "range_of d a b = take (b - a) (drop a d)"

lemma range_append: "a \<le> b \<Longrightarrow> b \<le> c \<Longrightarrow> range_of d a b @ range_of d b c = range_of d a c"
proof -
  assume "a \<le> b" "b \<le> c"
  then have "take (c - a) (drop a d) = take (b - a) (drop a d) @ take (c - b) (drop (b - a) (drop a d))"
    using take_add [of "b - a" "c - b" "drop a d"] by simp
  then show ?thesis using \<open>a \<le> b\<close> by (simp add: range_of_def)
qed

lemma range_same [simp]: "range_of d a a = []"
  by (simp add: range_of_def)

lemma range_length: "b \<le> length d \<Longrightarrow> length (range_of d a b) = b - a"
  by (simp add: range_of_def)

lemma range_sub:
  assumes "p \<le> q" "q \<le> n" "take n b = range_of d a (a + n)"
  shows "take (q - p) (drop p b) = range_of d (a + p) (a + q)"
proof -
  have "take (q - p) (drop p b) = take (q - p) (drop p (take n b))" using assms(1,2) by (simp add: drop_take min_def)
  also have "\<dots> = range_of d (a + p) (a + q)" unfolding assms(3) using assms(1,2)
    by (simp add: range_of_def drop_take min_def add.commute)
  finally show ?thesis .
qed

lemma as_uint_small: "unat n < 2 ^ 32 \<Longrightarrow> as_uint n = unat n"
  by (simp add: as_uint_def unsigned_ucast_eq take_bit_nat_eq_self)

lemma unat_add_small: "unat (a :: u64) + unat b < 2 ^ 64 \<Longrightarrow> unat (a + b) = unat a + unat b"
  by (simp add: unat_word_ariths)

section \<open>Maps without skipped extents\<close>

text \<open>
  A map of a file of \<open>n\<close> bytes as the kernel gives it for a file whose data is all written and on
  disk: no extent is to be skipped, exactly the last one has the flag, it reaches the end of the
  file and the others end before.
\<close>

definition map_fits :: "fiemap \<Rightarrow> nat \<Rightarrow> bool" where
  "map_fits fm n \<longleftrightarrow> fiemap_ok fm \<and> fm_extents fm \<noteq> [] \<and>
     (\<forall>e \<in> set (fm_extents fm). fe_flags e AND FIEMAP_SKIP_FLAGS = 0 \<and> ext_stop e < 2 ^ 64 - 1) \<and>
     (\<forall>i < length (fm_extents fm). fe_flags (fm_extents fm ! i) AND FIEMAP_EXTENT_LAST \<noteq> 0 \<longleftrightarrow> Suc i = length (fm_extents fm)) \<and>
     (\<forall>i. Suc i < length (fm_extents fm) \<longrightarrow> ext_stop (fm_extents fm ! i) < n) \<and>
     n \<le> ext_stop (last (fm_extents fm))"

lemma get_extent_at:
  assumes "fiemap_ok fm" "j < length (fm_extents fm)" "unat loff < ext_stop (fm_extents fm ! j)"
    and "\<And>i. i < j \<Longrightarrow> ext_stop (fm_extents fm ! i) \<le> unat loff"
  shows "get_extent fm loff = Some (Some (j, fm_extents fm ! j))"
proof -
  obtain r where r: "get_extent_loop fm loff 0 = Some r" "first_from (fm_extents fm) (unat loff) 0 r"
    using get_extent_loop_spec [of fm loff 0] assms(1) by (auto simp: fiemap_ok_def)
  have "r \<noteq> None"
  proof
    assume "r = None"
    then have "ext_stop (fm_extents fm ! j) \<le> unat loff" using r(2) assms(2) by (simp add: first_from_def)
    then show False using assms(3) by simp
  qed
  then obtain i e where re: "r = Some (i, e)" by auto
  have i: "i < length (fm_extents fm)" "e = fm_extents fm ! i" "unat loff < ext_stop e" "\<forall>k \<in> {0..<i}. ext_stop (fm_extents fm ! k) \<le> unat loff"
    using r(2) unfolding re by (auto simp: first_from_def)
  have "i = j"
  proof (rule linorder_cases [of i j])
    assume "i < j" then show ?thesis using assms(4) [of i] i(2,3) by simp
  next
    assume "j < i" then show ?thesis using bspec [OF i(4), of j] assms(3) by simp
  qed
  then show ?thesis using r(1) re i(2) by (simp add: get_extent_def)
qed

lemma get_extent_in:
  assumes "fiemap_ok fm"
  obtains "get_extent fm loff = Some None"
  | i e where "get_extent fm loff = Some (Some (i, e))" "e \<in> set (fm_extents fm)" "unat loff < ext_stop e"
proof -
  obtain r where r: "get_extent_loop fm loff 0 = Some r" "first_from (fm_extents fm) (unat loff) 0 r"
    using get_extent_loop_spec [of fm loff 0] assms(1) by (auto simp: fiemap_ok_def)
  then show thesis using that by (cases r) (auto simp: first_from_def get_extent_def)
qed

lemma area_not_ignored:
  assumes "fiemap_ok fm" "\<forall>e \<in> set (fm_extents fm). fe_flags e AND FIEMAP_SKIP_FLAGS = 0 \<and> ext_stop e < 2 ^ 64 - 1"
  shows "area_loop fm start stop = Some False"
proof (induction "unat stop - unat start" arbitrary: start rule: less_induct)
  case less
  show ?case
  proof (cases "start < stop")
    case False
    then show ?thesis by (subst area_loop.simps) simp
  next
    case True
    show ?thesis
    proof (rule get_extent_in [OF assms(1), of start])
      assume "get_extent fm start = Some None"
      then show ?thesis using True by (subst area_loop.simps) simp
    next
      fix i e
      assume g: "get_extent fm start = Some (Some (i, e))" "e \<in> set (fm_extents fm)" "unat start < ext_stop e"
      have e: "fe_flags e AND FIEMAP_SKIP_FLAGS = 0" "ext_stop e < 2 ^ 64 - 1" using assms(2) g(2) by auto
      have s: "unat (fe_logical e + fe_length e) = ext_stop e" using ext_end_no_wrap e(2) by simp
      then have "unat (fe_logical e + fe_length e + 1) = ext_stop e + 1"
        using e(2) unat_add_small [of "fe_logical e + fe_length e" 1] by simp
      then have "unat stop - unat (fe_logical e + fe_length e + 1) < unat stop - unat start"
        using g(3) True by (simp add: word_less_nat_alt)
      from less.hyps [OF this] show ?thesis using True g(1) e(1) by (subst area_loop.simps) simp
    qed
  qed
qed

lemma map_fits_area: "map_fits fm n \<Longrightarrow> is_area_ignored fm start len = Some False"
  using area_not_ignored by (simp add: map_fits_def is_area_ignored_def)

text \<open>Where the hashing of an extent ends, and where it begins: at the end of the one before.\<close>

definition stop_at :: "fiemap \<Rightarrow> nat \<Rightarrow> nat \<Rightarrow> nat" where
  "stop_at fm n i = min (ext_stop (fm_extents fm ! i)) n"

definition from_at :: "fiemap \<Rightarrow> nat \<Rightarrow> nat \<Rightarrow> nat" where
  "from_at fm n i = (if i = 0 then 0 else stop_at fm n (i - 1))"

lemma map_fits_sorted:
  assumes "map_fits fm n" "i < j" "j < length (fm_extents fm)"
  shows "ext_stop (fm_extents fm ! i) < ext_stop (fm_extents fm ! j)"
proof -
  have w: "sorted_wrt (\<lambda>a b. ext_stop a \<le> ext_start b) (fm_extents fm)"
    "\<forall>e \<in> set (fm_extents fm). 0 < fe_length e" using assms(1) by (auto simp: map_fits_def fiemap_ok_def)
  have "ext_stop (fm_extents fm ! i) \<le> ext_start (fm_extents fm ! j)" using w(1) assms(2,3) by (simp add: sorted_wrt_iff_nth_less)
  moreover have "ext_start (fm_extents fm ! j) < ext_stop (fm_extents fm ! j)"
    using w(2) assms(3) unat_pos_iff [of "fe_length (fm_extents fm ! j)"] by (simp add: ext_start_def ext_stop_def word_gt_0)
  ultimately show ?thesis by simp
qed

lemma map_fits_last:
  assumes "map_fits fm n" "j < length (fm_extents fm)"
  shows "fe_flags (fm_extents fm ! j) AND FIEMAP_EXTENT_LAST \<noteq> 0 \<longleftrightarrow> Suc j = length (fm_extents fm)"
    and "Suc j = length (fm_extents fm) \<Longrightarrow> n \<le> ext_stop (fm_extents fm ! j)"
    and "Suc j \<noteq> length (fm_extents fm) \<Longrightarrow> ext_stop (fm_extents fm ! j) < n"
    and "fe_flags (fm_extents fm ! j) AND FIEMAP_SKIP_FLAGS = 0" "ext_stop (fm_extents fm ! j) < 2 ^ 64 - 1"
proof -
  have l: "last (fm_extents fm) = fm_extents fm ! j" if "Suc j = length (fm_extents fm)"
    using that assms(2) last_conv_nth [of "fm_extents fm"] by (metis diff_Suc_1 list.size(3) not_less_zero)
  show "fe_flags (fm_extents fm ! j) AND FIEMAP_EXTENT_LAST \<noteq> 0 \<longleftrightarrow> Suc j = length (fm_extents fm)"
    "Suc j \<noteq> length (fm_extents fm) \<Longrightarrow> ext_stop (fm_extents fm ! j) < n"
    "fe_flags (fm_extents fm ! j) AND FIEMAP_SKIP_FLAGS = 0" "ext_stop (fm_extents fm ! j) < 2 ^ 64 - 1"
    using assms by (auto simp: map_fits_def)
  show "Suc j = length (fm_extents fm) \<Longrightarrow> n \<le> ext_stop (fm_extents fm ! j)"
    using l assms(1) by (auto simp: map_fits_def)
qed

lemma map_fits_at:
  assumes "map_fits fm n" "j < length (fm_extents fm)" "from_at fm n j \<le> unat off" "unat off < stop_at fm n j"
  shows "get_extent fm off = Some (Some (j, fm_extents fm ! j))"
proof (rule get_extent_at)
  show "ext_stop (fm_extents fm ! i) \<le> unat off" if "i < j" for i
  proof -
    have "ext_stop (fm_extents fm ! i) \<le> ext_stop (fm_extents fm ! (j - 1))"
    proof (cases "i = j - 1")
      case False
      then have "i < j - 1" "j - 1 < length (fm_extents fm)" using that assms(2) by simp_all
      from map_fits_sorted [OF assms(1) this] show ?thesis by simp
    qed simp
    moreover have "ext_stop (fm_extents fm ! (j - 1)) < n" using map_fits_last(3) [OF assms(1), of "j - 1"] assms(2) that by auto
    ultimately show ?thesis using assms(3) that by (simp add: from_at_def stop_at_def)
  qed
qed (use assms in \<open>auto simp: map_fits_def stop_at_def\<close>)

section \<open>Extents\<close>

text \<open>
  What \<open>process_extents\<close> stores for extent \<open>i\<close> of a file with contents \<open>d\<close>, and its state when it has
  consumed the first \<open>f\<close> bytes: the extents that ended are stored, and the running checksum has the
  bytes since then.
\<close>

definition stored :: "'s xxh3 \<Rightarrow> fiemap \<Rightarrow> u8 list \<Rightarrow> nat \<Rightarrow> extent_csum" where
  "stored X fm d i = \<lparr>ec_loff = fe_logical (fm_extents fm ! i), ec_poff = fe_physical (fm_extents fm ! i),
     ec_len = fe_length (fm_extents fm ! i),
     ec_digest = checksum_block X (range_of d (from_at fm (length d) i) (stop_at fm (length d) i))\<rparr>"

definition extents_upto :: "'s xxh3 \<Rightarrow> fiemap \<Rightarrow> u8 list \<Rightarrow> nat \<Rightarrow> 's option \<Rightarrow> extent_csum list \<Rightarrow> bool" where
  "extents_upto X fm d f csum exts \<longleftrightarrow> (\<exists>j \<le> length (fm_extents fm). from_at fm (length d) j \<le> f \<and>
     (if j = length (fm_extents fm) then f = length d else f < stop_at fm (length d) j) \<and>
     exts = map (stored X fm d) [0..<j] \<and>
     (if f = from_at fm (length d) j then csum = None else \<exists>c. csum = Some c \<and> fed X c (range_of d (from_at fm (length d) j) f)))"

lemma store_extent_ok:
  assumes "xxh3_ok (scan_xxh E)" "realloc_ok E" "fe_flags (fm_extents fm ! j) AND FIEMAP_SKIP_FLAGS = 0"
    and "extent_csum ctxt = Some c" "fed (scan_xxh E) c (range_of d (from_at fm (length d) j) (stop_at fm (length d) j))"
    and "h_extents hashes = map (stored (scan_xxh E) fm d) [0..<j]"
  shows "\<exists>hashes'. store_extent E ctxt hashes (fm_extents fm ! j) = Some (0, ctxt\<lparr>extent_csum := None\<rparr>, hashes') \<and>
    h_extents hashes' = map (stored (scan_xxh E) fm d) [0..<Suc j] \<and> h_blocks hashes' = h_blocks hashes"
  using assms fed_finish [OF assms(1,5)] by (simp add: store_extent_def Let_def stored_def)

lemma extents_loop_ok:
  fixes bytes :: u64
  assumes X: "xxh3_ok (scan_xxh E)" "realloc_ok E" and fm: "map_fits (sc_fiemap ctxt) (length d)"
    and n: "unat (sc_filesize ctxt) = length d" and T: "unat (sc_off ctxt) + unat bytes \<le> length d" "unat bytes < 2 ^ 32"
    and buf: "take (unat bytes) (buf b) = range_of d (unat (sc_off ctxt)) (unat (sc_off ctxt) + unat bytes)"
  shows "unat file_off = unat (sc_off ctxt) + unat buf_off \<Longrightarrow> unat buf_off \<le> unat bytes \<Longrightarrow>
    extents_upto (scan_xxh E) (sc_fiemap ctxt) d (unat file_off) csum (h_extents hashes) \<Longrightarrow>
    \<exists>csum' hashes'. extents_loop E b bytes file_off buf_off (ctxt\<lparr>extent_csum := csum\<rparr>) hashes = Some (0, ctxt\<lparr>extent_csum := csum'\<rparr>, hashes') \<and>
      extents_upto (scan_xxh E) (sc_fiemap ctxt) d (unat (sc_off ctxt) + unat bytes) csum' (h_extents hashes') \<and> h_blocks hashes' = h_blocks hashes"
proof (induction "unat bytes - unat buf_off" arbitrary: file_off buf_off csum hashes rule: less_induct)
  case less
  define X where "X = scan_xxh E"
  define fm where "fm = sc_fiemap ctxt"
  define T where "T = unat (sc_off ctxt) + unat bytes"
  have "length d < 2 ^ 64" using n unat_u64 [of "sc_filesize ctxt"] by simp
  then have end_off: "unat (sc_off ctxt + bytes) = T" using T(1) by (subst unat_add_small) (simp_all add: T_def)
  show ?case
  proof (cases "unat buf_off = unat bytes")
    case True
    then have "unat file_off = T" using less.prems(1) by (simp add: T_def)
    moreover from this have "\<not> file_off < sc_off ctxt + bytes" using end_off by (simp add: word_less_nat_alt)
    ultimately show ?thesis using less.prems(3) unfolding T_def by (subst extents_loop.simps) auto
  next
    case False
    then have lt: "unat file_off < T" "unat buf_off < unat bytes" using less.prems(1,2) by (simp_all add: T_def)
    from less.prems(3) obtain j where j: "j \<le> length (fm_extents fm)" "from_at fm (length d) j \<le> unat file_off"
        "if j = length (fm_extents fm) then unat file_off = length d else unat file_off < stop_at fm (length d) j"
        "h_extents hashes = map (stored X fm d) [0..<j]"
        "if unat file_off = from_at fm (length d) j then csum = None else \<exists>c. csum = Some c \<and> fed X c (range_of d (from_at fm (length d) j) (unat file_off))"
      unfolding extents_upto_def X_def fm_def by blast
    have jl: "j < length (fm_extents fm)" "unat file_off < stop_at fm (length d) j"
      using j(1,3) lt(1) T(1) by (auto simp: T_def split: if_splits)
    note fm' = fm [folded fm_def]
    note jj = map_fits_last [OF fm' jl(1)]
    define e where "e = fm_extents fm ! j"
    have g: "get_extent fm file_off = Some (Some (j, e))" unfolding e_def by (rule map_fits_at [OF fm' jl(1) j(2) jl(2)])
    have ee: "unat (fe_logical e + fe_length e) = ext_stop e" using ext_end_no_wrap jj(5) by (simp add: e_def)
    define f' where "f' = min (stop_at fm (length d) j) T"
    define to_add where "to_add = (if sc_off ctxt + bytes < fe_logical e + fe_length e then bytes - buf_off else fe_logical e + fe_length e - file_off)"
    have st: "stop_at fm (length d) j = min (ext_stop e) (length d)" by (simp add: stop_at_def e_def)
    have f': "unat file_off < f'" "f' \<le> T" "f' \<le> length d" "f' \<le> stop_at fm (length d) j" using lt(1) jl(2) T(1) by (auto simp: f'_def T_def)
    have add: "unat to_add = f' - unat file_off"
    proof (cases "T < ext_stop e")
      case True
      then have "to_add = bytes - buf_off" using end_off ee by (simp add: to_add_def word_less_nat_alt)
      then have "unat to_add = unat bytes - unat buf_off" using lt(2) by (simp add: unat_sub word_le_nat_alt)
      moreover have "f' = T" using True T(1) by (simp add: f'_def st T_def)
      ultimately show ?thesis using less.prems(1) by (simp add: T_def)
    next
      case False
      then have "to_add = fe_logical e + fe_length e - file_off" using end_off ee by (simp add: to_add_def word_less_nat_alt)
      moreover have le: "unat file_off \<le> ext_stop e" using jl(2) st by simp
      ultimately have "unat to_add = ext_stop e - unat file_off" using ee by (simp add: unat_sub word_le_nat_alt)
      moreover have "f' = ext_stop e" using False T(1) by (simp add: f'_def st T_def)
      ultimately show ?thesis by simp
    qed
    have fo: "unat (file_off + to_add) = f'" "unat (buf_off + to_add) = f' - unat (sc_off ctxt)"
      using add f' less.prems(1,2) \<open>length d < 2 ^ 64\<close> T(1) by (subst unat_add_small; simp add: T_def)+
    have small: "as_uint to_add = f' - unat file_off"
      using as_uint_small [of to_add] add T(2) f'(2) less.prems(1) by (simp add: T_def)
    define part where "part = take (as_uint to_add) (drop (unat buf_off) (buf b))"
    have part: "part = range_of d (unat file_off) f'"
      using range_sub [OF _ _ buf, of "unat buf_off" "f' - unat (sc_off ctxt)"] f' less.prems(1) small
      by (simp add: part_def T_def)
    define c where "c = add_to_running_checksum X (case csum of None \<Rightarrow> start_running_checksum X | Some c \<Rightarrow> c) part"
    have fed: "fed X c (range_of d (from_at fm (length d) j) f')"
    proof (cases "unat file_off = from_at fm (length d) j")
      case True
      then have "csum = None" using j(5) by simp
      then show ?thesis using fed_add [OF fed_start, of X part] True part by (simp add: c_def)
    next
      case False
      then obtain c0 where c0: "csum = Some c0" "fed X c0 (range_of d (from_at fm (length d) j) (unat file_off))" using j(5) by auto
      from fed_add [OF c0(2), of part] show ?thesis
        using range_append [OF j(2), of f' d] f'(1) part c0(1) by (simp add: c_def)
    qed
    have noabort: "file_off + to_add \<le> sc_off ctxt + bytes" using fo(1) end_off f'(2) by (simp add: word_le_nat_alt)
    define dummy where "dummy = (if fe_flags e AND FIEMAP_EXTENT_LAST \<noteq> 0 then fe_logical e + fe_length e - sc_filesize ctxt else 0)"
    have ended: "file_off + to_add + dummy = fe_logical e + fe_length e \<longleftrightarrow> f' = stop_at fm (length d) j"
    proof (cases "Suc j = length (fm_extents fm)")
      case True
      then have "dummy = fe_logical e + fe_length e - sc_filesize ctxt" using jj(1) by (simp add: dummy_def e_def)
      then have "fe_logical e + fe_length e = sc_filesize ctxt + dummy" by simp
      then have "file_off + to_add + dummy = fe_logical e + fe_length e \<longleftrightarrow> file_off + to_add = sc_filesize ctxt"
        by (metis add_right_cancel)
      also have "\<dots> \<longleftrightarrow> f' = length d" using fo(1) n by (metis word_unat_eq_iff)
      finally show ?thesis using jj(2) [OF True] st by (simp add: e_def)
    next
      case False
      then have "dummy = 0" using jj(1) by (simp add: dummy_def e_def)
      then have "file_off + to_add + dummy = fe_logical e + fe_length e \<longleftrightarrow> f' = ext_stop e" using fo(1) ee by (metis add.right_neutral word_unat_eq_iff)
      then show ?thesis using jj(3) [OF False] st by (simp add: e_def)
    qed
    have skip: "fe_flags e AND FIEMAP_SKIP_FLAGS = 0" using jj(4) by (simp add: e_def)
    define next_loop where "next_loop = extents_loop E b bytes (file_off + to_add) (buf_off + to_add)"
    have step: "extents_loop E b bytes file_off buf_off (ctxt\<lparr>extent_csum := csum\<rparr>) hashes =
      (if f' = stop_at fm (length d) j then
         Option.bind (store_extent E (ctxt\<lparr>extent_csum := Some c\<rparr>) hashes e)
           (\<lambda>(ret, ctxt, hashes). if ret \<noteq> 0 then Some (ret, ctxt, hashes) else next_loop ctxt hashes)
       else next_loop (ctxt\<lparr>extent_csum := Some c\<rparr>) hashes)"
    proof -
      have "file_off < sc_off ctxt + bytes" using lt(1) end_off by (simp add: word_less_nat_alt)
      then have lt': "(file_off < sc_off ctxt + bytes) = True" by simp
      have skip': "(fe_flags e AND FIEMAP_SKIP_FLAGS = 0) = True" using skip by simp
      have noabort': "(file_off + to_add \<le> sc_off ctxt + bytes) = True" using noabort by simp
      have upd: "sc_off (ctxt\<lparr>extent_csum := q\<rparr>) = sc_off ctxt" "sc_fiemap (ctxt\<lparr>extent_csum := q\<rparr>) = sc_fiemap ctxt"
        "sc_filesize (ctxt\<lparr>extent_csum := q\<rparr>) = sc_filesize ctxt" "extent_csum (ctxt\<lparr>extent_csum := q\<rparr>) = q"
        "ctxt\<lparr>extent_csum := q, extent_csum := r\<rparr> = ctxt\<lparr>extent_csum := r\<rparr>" for q r by simp_all
      show ?thesis
        by (subst extents_loop.simps)
          (simp only: upd lt' if_True g bind.simps option.case prod.case Let_def skip' to_add_def [symmetric]
            noabort' not_True_eq_False abort_on_bind if_False dummy_def [symmetric] ended X_def [symmetric] part_def [symmetric]
            c_def [symmetric] next_loop_def [symmetric] fm_def [symmetric])
    qed
    have meas: "unat bytes - unat (buf_off + to_add) < unat bytes - unat buf_off"
      using fo(2) f' less.prems(1) lt(2) by (simp add: T_def)
    have pre: "unat (file_off + to_add) = unat (sc_off ctxt) + unat (buf_off + to_add)" "unat (buf_off + to_add) \<le> unat bytes"
      using fo f' less.prems(1) by (simp_all add: T_def)
    show ?thesis
    proof (cases "f' = stop_at fm (length d) j")
      case True
      obtain hashes1 where h1: "store_extent E (ctxt\<lparr>extent_csum := Some c\<rparr>) hashes e = Some (0, ctxt\<lparr>extent_csum := None\<rparr>, hashes1)"
          "h_extents hashes1 = map (stored X fm d) [0..<Suc j]" "h_blocks hashes1 = h_blocks hashes"
        using store_extent_ok [OF X(1,2), of fm j "ctxt\<lparr>extent_csum := Some c\<rparr>" c d hashes] skip fed True j(4) by (auto simp: e_def X_def)
      have "extents_upto X fm d (unat (file_off + to_add)) None (h_extents hashes1)"
        unfolding extents_upto_def
      proof (intro exI [of _ "Suc j"] conjI)
        show "if Suc j = length (fm_extents fm) then unat (file_off + to_add) = length d else unat (file_off + to_add) < stop_at fm (length d) (Suc j)"
        proof (cases "Suc j = length (fm_extents fm)")
          case True': True
          then show ?thesis using fo(1) True st jj(2) by (simp add: e_def)
        next
          case False
          then have "Suc j < length (fm_extents fm)" using jl(1) by simp
          then show ?thesis using False fo(1) True st jj(3) [OF False] map_fits_sorted [OF fm', of j "Suc j"] by (simp add: stop_at_def e_def)
        qed
      qed (use jl(1) fo(1) True h1(2) in \<open>simp_all add: from_at_def\<close>)
      from less.hyps [OF meas pre this [unfolded X_def fm_def]] h1(1,3) show ?thesis
        unfolding step if_P [OF True] next_loop_def by simp
    next
      case False
      then have "f' < stop_at fm (length d) j" using f'(4) by simp
      then have "extents_upto X fm d (unat (file_off + to_add)) (Some c) (h_extents hashes)"
        unfolding extents_upto_def using jl(1) j(2,4) fo(1) f'(1) fed by (intro exI [of _ j]) auto
      from less.hyps [OF meas pre this [unfolded X_def fm_def]] show ?thesis
        unfolding step if_not_P [OF False] next_loop_def by simp
    qed
  qed
qed

section \<open>Blocks\<close>

text \<open>What is stored for block \<open>i\<close> of a file with contents \<open>d\<close>; the last block may be shorter.\<close>

definition block_at :: "'s xxh3 \<Rightarrow> u32 \<Rightarrow> u8 list \<Rightarrow> nat \<Rightarrow> block_csum" where
  "block_at X bs d i = \<lparr>bc_loff = of_nat (i * unat bs),
     bc_digest = checksum_block X (range_of d (i * unat bs) (min ((i + 1) * unat bs) (length d)))\<rparr>"

definition blocks_upto :: "'s xxh3 \<Rightarrow> u32 \<Rightarrow> u8 list \<Rightarrow> nat \<Rightarrow> block_csum list" where
  "blocks_upto X bs d f = map (block_at X bs d) [0..<f div unat bs + (if f mod unat bs = 0 then 0 else 1)]"

lemma process_block_ok:
  "realloc_ok E \<Longrightarrow> \<exists>hashes'. process_block E bytes off hashes = (0, hashes') \<and>
    h_blocks hashes' = h_blocks hashes @ [\<lparr>bc_loff = off, bc_digest = checksum_block (scan_xxh E) bytes\<rparr>] \<and> h_extents hashes' = h_extents hashes"
  by (simp add: process_block_def add_block_hash_def Let_def)

lemma blocks_loop_ok:
  assumes E: "realloc_ok E" "\<not> skip_zeroes opts" "map_fits fm (length d)"
    and buf: "take m (buf b) = range_of d o' (o' + m)" "o' = q * unat (blocksize opts)" "o' + m \<le> length d"
  shows "(i + n) * unat (blocksize opts) \<le> m \<Longrightarrow> off = of_nat ((q + i) * unat (blocksize opts)) \<Longrightarrow>
    \<exists>hashes'. blocks_loop E opts fm b i n off hashes = Some (0, hashes') \<and> h_extents hashes' = h_extents hashes \<and>
      h_blocks hashes' = h_blocks hashes @ map (block_at (scan_xxh E) (blocksize opts) d) [q + i..<q + i + n]"
proof (induction n arbitrary: i off hashes)
  case (Suc n)
  let ?bs = "unat (blocksize opts)"
  have ig: "is_block_ignored opts fm off = Some False" using map_fits_area [OF E(3)] by (simp add: is_block_ignored_def)
  have le: "Suc i * ?bs \<le> m"
    using Suc.prems(1) by (metis add_Suc_right add_Suc_shift le_add1 mult_le_mono1 order_trans)
  have "(Suc i * ?bs) - (i * ?bs) = ?bs" by simp
  then have "take ?bs (drop (i * ?bs) (buf b)) = range_of d (o' + i * ?bs) (o' + Suc i * ?bs)"
    using range_sub [OF _ le buf(1), of "i * ?bs"] by simp
  then have dig: "\<lparr>bc_loff = off, bc_digest = checksum_block (scan_xxh E) (take ?bs (drop (i * ?bs) (buf b)))\<rparr> =
      block_at (scan_xxh E) (blocksize opts) d (q + i)"
    using Suc.prems(2) le buf(2,3) by (simp add: block_at_def min_def algebra_simps)
  obtain hashes1 where h1: "process_block E (take ?bs (drop (i * ?bs) (buf b))) off hashes = (0, hashes1)"
      "h_blocks hashes1 = h_blocks hashes @ [block_at (scan_xxh E) (blocksize opts) d (q + i)]" "h_extents hashes1 = h_extents hashes"
    using process_block_ok [OF E(1), of "take ?bs (drop (i * ?bs) (buf b))" off hashes] dig by auto
  have "off + ucast (blocksize opts) = of_nat ((q + (i + 1)) * ?bs)"
    using Suc.prems(2) by (simp add: algebra_simps unsigned_ucast_eq)
  with Suc.IH [of "i + 1" "off + ucast (blocksize opts)" hashes1] Suc.prems(1) obtain hashes' where
    h': "blocks_loop E opts fm b (i + 1) n (off + ucast (blocksize opts)) hashes1 = Some (0, hashes')" "h_extents hashes' = h_extents hashes1"
      "h_blocks hashes' = h_blocks hashes1 @ map (block_at (scan_xxh E) (blocksize opts) d) [q + (i + 1)..<q + (i + 1) + n]"
    by auto
  have "[q + i..<q + i + Suc n] = (q + i) # [q + (i + 1)..<q + (i + 1) + n]" by (simp add: upt_rec)
  then show ?case using ig E(2) h1 h' by (simp del: upt_Suc)
qed simp

lemma unat_u32_u64: "unat (ucast (w :: u32) :: u64) = unat w"
proof -
  have "unat w < 2 ^ 32" using unsigned_less [of w, where ?'a = nat] by simp
  then have "unat w < 2 ^ 64" by simp
  then show ?thesis by (simp add: unsigned_ucast_eq take_bit_nat_eq_self)
qed

lemma process_blocks_ok:
  assumes E: "realloc_ok E" "\<not> skip_zeroes opts" "map_fits (sc_fiemap ctxt) (length d)" "0 < blocksize opts" "do_block_hash opts" "\<not> faked b"
    and buf: "take (unat (dl_len b)) (buf b) = range_of d (unat (sc_off ctxt)) (unat (sc_off ctxt) + unat (dl_len b))"
      "unat (sc_off ctxt) mod unat (blocksize opts) = 0" "unat (sc_off ctxt) + unat (dl_len b) \<le> length d" "unat (dl_len b) < 2 ^ 32"
    and h: "h_blocks hashes = blocks_upto (scan_xxh E) (blocksize opts) d (unat (sc_off ctxt))"
  defines "p \<equiv> unat (dl_len b) div unat (blocksize opts) * unat (blocksize opts)"
  shows "\<exists>hashes' bytes. process_blocks E opts ctxt b hashes = Some (Inr bytes, hashes') \<and> unat bytes = p \<and> h_extents hashes' = h_extents hashes \<and>
    h_blocks hashes' = blocks_upto (scan_xxh E) (blocksize opts) d (unat (sc_off ctxt) + p)"
proof -
  let ?bs = "unat (blocksize opts)" and ?o = "unat (sc_off ctxt)"
  have bs: "0 < ?bs" using E(4) by (simp add: unat_gt_0 word_gt_0)
  define nb where "nb = (ucast (dl_len b div ucast (blocksize opts)) :: u32)"
  have nb: "unat nb = unat (dl_len b) div ?bs"
  proof -
    have "unat (dl_len b div ucast (blocksize opts)) = unat (dl_len b) div ?bs" by (simp add: unat_div unat_u32_u64)
    moreover have "unat (dl_len b) div ?bs < 2 ^ 32" using buf(4) div_le_dividend [of "unat (dl_len b)" ?bs] by linarith
    ultimately show ?thesis by (simp add: nb_def unsigned_ucast_eq take_bit_nat_eq_self)
  qed
  have p: "p \<le> unat (dl_len b)" by (simp add: p_def)
  have bytes: "unat (ucast (nb * blocksize opts) :: u64) = p"
  proof -
    have "unat nb * ?bs = p" using nb by (simp add: p_def)
    moreover have "p < 2 ^ 32" using p buf(4) by linarith
    ultimately have "unat (nb * blocksize opts) = p" by (simp add: unat_word_ariths)
    with \<open>p < 2 ^ 32\<close> show ?thesis by (simp add: unsigned_ucast_eq take_bit_nat_eq_self)
  qed
  obtain q where q: "?o = q * ?bs" using buf(2) by (metis dvd_def mod_0_imp_dvd mult.commute)
  have "sc_off ctxt = of_nat (unat (sc_off ctxt))" by simp
  then have "sc_off ctxt = of_nat ((q + 0) * ?bs)" using q by simp
  from blocks_loop_ok [OF E(1-3) buf(1) q buf(3) _ this, of "unat nb" hashes] nb
  obtain hashes' where l: "blocks_loop E opts (sc_fiemap ctxt) b 0 (unat nb) (sc_off ctxt) hashes = Some (0, hashes')"
      "h_extents hashes' = h_extents hashes"
      "h_blocks hashes' = h_blocks hashes @ map (block_at (scan_xxh E) (blocksize opts) d) [q..<q + unat nb]" by auto
  have "?o + p = (q + unat nb) * ?bs" using q nb by (simp add: p_def algebra_simps)
  then have "blocks_upto (scan_xxh E) (blocksize opts) d (?o + p) = map (block_at (scan_xxh E) (blocksize opts) d) [0..<q + unat nb]"
    using bs by (simp add: blocks_upto_def)
  also have "[0..<q + unat nb] = [0..<q] @ [q..<q + unat nb]" using upt_add_eq_append [of 0 q "unat nb"] by simp
  finally have "blocks_upto (scan_xxh E) (blocksize opts) d (?o + p) = h_blocks hashes @ map (block_at (scan_xxh E) (blocksize opts) d) [q..<q + unat nb]"
    using h q bs by (simp add: blocks_upto_def)
  with l bytes E(5,6) show ?thesis by (simp add: process_blocks_def nb_def [symmetric] Let_def)
qed

section \<open>The buffer\<close>

text \<open>\<open>pread\<close> returns a prefix of what follows the offset, and at least a byte unless at the end.\<close>

definition pread_ok :: "(u64 \<Rightarrow> u64 \<Rightarrow> u8 list option) \<Rightarrow> u8 list \<Rightarrow> bool" where
  "pread_ok rd d \<longleftrightarrow> (\<forall>count off. \<exists>k \<le> unat count. rd count off = Some (take k (drop (unat off) d)) \<and>
     (0 < count \<and> unat off < length d \<longrightarrow> 0 < k))"

lemma put_length: "pos + length bytes \<le> length b \<Longrightarrow> length (put b pos bytes) = length b"
  by (simp add: put_def)

lemma take_put: "pos + length bytes \<le> length b \<Longrightarrow> take (pos + length bytes) (put b pos bytes) = take pos b @ bytes"
  by (simp add: put_def)

lemma fill_buffer_ok:
  assumes rd: "pread_ok (pread E) d" and fm: "map_fits (sc_fiemap ctxt) (length d)"
    and n: "unat (sc_filesize ctxt) = length d"
    and b: "length (buf b) = unat (buf_size b)" "unat (buf_size b) < 2 ^ 31" "unat (dl_offset b) + unat (dl_len b) \<le> unat (buf_size b)"
      "unat (dl_len b) < unat (buf_size b)" "unat (sc_off ctxt) + unat (dl_len b) < length d"
      "take (unat (dl_len b)) (drop (unat (dl_offset b)) (buf b)) = range_of d (unat (sc_off ctxt)) (unat (sc_off ctxt) + unat (dl_len b))"
  shows "\<exists>ret b'. fill_buffer E ctxt b = Some (ret, b') \<and> 0 \<le> ret \<and> dl_offset b' = 0 \<and> \<not> faked b' \<and> buf_size b' = buf_size b \<and>
    length (buf b') = unat (buf_size b') \<and> unat (dl_len b) < unat (dl_len b') \<and> unat (dl_len b') \<le> unat (buf_size b) \<and>
    unat (sc_off ctxt) + unat (dl_len b') \<le> length d \<and> (ret = 0 \<longleftrightarrow> unat (sc_off ctxt) + unat (dl_len b') = length d) \<and>
    take (unat (dl_len b')) (buf b') = range_of d (unat (sc_off ctxt)) (unat (sc_off ctxt) + unat (dl_len b'))"
proof -
  let ?o = "unat (sc_off ctxt)" and ?l = "unat (dl_len b)"
  have n64: "length d < 2 ^ 64" using n unat_u64 [of "sc_filesize ctxt"] by simp
  define left where "left = range_of d ?o (?o + ?l)"
  have ll: "length left = ?l" using b(5) by (simp add: left_def range_length)
  define buf1 where "buf1 = (if dl_len b \<noteq> 0 then put (buf b) 0 left else buf b)"
  have b1: "length buf1 = unat (buf_size b)" "take ?l buf1 = left"
  proof -
    show "length buf1 = unat (buf_size b)" using put_length [of 0 left "buf b"] b(1,4) ll by (simp add: buf1_def)
    show "take ?l buf1 = left"
    proof (cases "dl_len b = 0")
      case False
      then show ?thesis using take_put [of 0 left "buf b"] b(1,4) ll by (simp add: buf1_def)
    qed (use ll in simp)
  qed
  have cnt: "unat (buf_size b - dl_len b) = unat (buf_size b) - ?l" using b(4) by (simp add: unat_sub word_le_nat_alt)
  have off: "unat (sc_off ctxt + dl_len b) = ?o + ?l" using b(5) n64 by (subst unat_add_small) simp_all
  have "0 < buf_size b - dl_len b" using cnt b(4) by (simp add: word_less_nat_alt)
  then obtain k where k: "0 < k" "k \<le> unat (buf_size b) - ?l" "pread E (buf_size b - dl_len b) (sc_off ctxt + dl_len b) = Some (take k (drop (?o + ?l) d))"
    using rd b(5) unfolding pread_ok_def by (metis cnt off)
  define bytes where "bytes = take k (drop (?o + ?l) d)"
  have bl: "0 < length bytes" "length bytes \<le> unat (buf_size b) - ?l" "?o + ?l + length bytes \<le> length d"
    using k(1,2) b(5) by (auto simp: bytes_def)
  define b' where "b' = b\<lparr>buf := put buf1 ?l bytes, dl_offset := 0, faked := False, dl_len := dl_len b + of_nat (length bytes)\<rparr>"
  have nl: "unat (dl_len b') = ?l + length bytes"
  proof -
    have "length bytes < 2 ^ 64" using bl(3) n64 by linarith
    then have "unat (of_nat (length bytes) :: u64) = length bytes" by (rule unat_of_nat_u64)
    then show ?thesis using bl(3) n64 by (simp add: b'_def unat_add_small)
  qed
  have le: "unat (dl_len b') \<le> unat (buf_size b)" using nl bl(2) b(4) by linarith
  then have small: "as_uint (dl_len b') = unat (dl_len b')" using b(2) by (intro as_uint_small) simp
  have eof: "sc_off ctxt + dl_len b' = sc_filesize ctxt \<longleftrightarrow> ?o + unat (dl_len b') = length d"
  proof -
    have "unat (sc_off ctxt + dl_len b') = ?o + unat (dl_len b')" using nl bl(3) n64 by (subst unat_add_small) linarith+
    then show ?thesis using n by (metis word_unat_eq_iff)
  qed
  define ret where "ret = (if sc_off ctxt + dl_len b' = sc_filesize ctxt then 0 else int (as_uint (dl_len b')))"
  have "fill_buffer E ctxt b = Some (ret, b')"
  proof -
    have mv: "put (buf b) 0 (take (unat (dl_len b)) (drop (unat (dl_offset b)) (buf b))) = put (buf b) 0 left" using b(6) by (simp add: left_def)
    have "dl_len b' \<le> buf_size b'" using le by (simp add: word_le_nat_alt b'_def)
    moreover have "b\<lparr>buf := buf1\<rparr> = (if dl_len b \<noteq> 0 then b\<lparr>buf := put (buf b) 0 left\<rparr> else b)" by (simp add: buf1_def)
    ultimately show ?thesis using map_fits_area [OF fm] k(3) bl(1) mv
      by (auto simp: fill_buffer_def Let_def ret_def b'_def bytes_def [symmetric] buf1_def)
  qed
  moreover have "length (buf b') = unat (buf_size b')" "take (unat (dl_len b')) (buf b') = range_of d ?o (?o + unat (dl_len b'))"
  proof -
    have fits: "?l + length bytes \<le> length buf1" using b1(1) bl(2) b(4) by linarith
    show "length (buf b') = unat (buf_size b')" using put_length [OF fits] b1(1) by (simp add: b'_def)
    have "bytes = range_of d (?o + ?l) (?o + ?l + length bytes)" using bl(3) by (simp add: bytes_def range_of_def min_def)
    then have "left @ bytes = range_of d ?o (?o + ?l + length bytes)"
      unfolding left_def using range_append [of ?o "?o + ?l" "?o + ?l + length bytes" d] by simp
    then show "take (unat (dl_len b')) (buf b') = range_of d ?o (?o + unat (dl_len b'))"
      using take_put [OF fits] b1(2) nl by (simp add: b'_def add.assoc)
  qed
  moreover have "ret = 0 \<longleftrightarrow> ?o + unat (dl_len b') = length d" 
  proof -
    have "int (as_uint (dl_len b')) \<noteq> 0" using small nl bl(1) by linarith
    then show ?thesis unfolding ret_def eof by simp
  qed
  moreover have "dl_offset b' = 0" "\<not> faked b'" "buf_size b' = buf_size b" "0 \<le> ret" by (simp_all add: b'_def ret_def)
  ultimately show ?thesis using nl bl le by (intro exI [of _ ret] exI [of _ b']) auto
qed

section \<open>The main loop\<close>

text \<open>The state when the first \<open>f\<close> bytes of the file are consumed.\<close>

definition consumed :: "'s scan_sys \<Rightarrow> scan_options \<Rightarrow> u8 list \<Rightarrow> nat \<Rightarrow> 's scan_ctxt \<Rightarrow> hashes \<Rightarrow> bool" where
  "consumed E opts d f ctxt hashes \<longleftrightarrow> fed (scan_xxh E) (file_csum ctxt) (range_of d 0 f) \<and>
     h_blocks hashes = (if do_block_hash opts then blocks_upto (scan_xxh E) (blocksize opts) d f else []) \<and>
     (if only_whole_files opts then h_extents hashes = []
      else extents_upto (scan_xxh E) (sc_fiemap ctxt) d f (extent_csum ctxt) (h_extents hashes))"

definition opts_ok :: "scan_options \<Rightarrow> bool" where
  "opts_ok opts \<longleftrightarrow> \<not> skip_zeroes opts \<and> 0 < blocksize opts"

lemma feed_bytes_ok:
  assumes E: "xxh3_ok (scan_xxh E)" "realloc_ok E" and fm: "map_fits (sc_fiemap ctxt) (length d)" "unat (sc_filesize ctxt) = length d"
    and p: "unat (sc_off ctxt) + unat p \<le> length d" "unat p < 2 ^ 32"
    and buf: "take (unat p) (buf b) = range_of d (unat (sc_off ctxt)) (unat (sc_off ctxt) + unat p)"
    and c: "consumed E opts d (unat (sc_off ctxt)) ctxt hashes0" "h_extents hashes = h_extents hashes0"
    and h: "h_blocks hashes = (if do_block_hash opts then blocks_upto (scan_xxh E) (blocksize opts) d (unat (sc_off ctxt) + unat p) else [])"
  shows "\<exists>ctxt' hashes'. feed_bytes E opts ctxt b hashes p = Some (0, ctxt', hashes') \<and>
     sc_off ctxt' = sc_off ctxt \<and> sc_filesize ctxt' = sc_filesize ctxt \<and> sc_fiemap ctxt' = sc_fiemap ctxt \<and>
     consumed E opts d (unat (sc_off ctxt) + unat p) ctxt' hashes'"
proof -
  let ?o = "unat (sc_off ctxt)"
  define ctxt1 where "ctxt1 = ctxt\<lparr>file_csum := add_to_running_checksum (scan_xxh E) (file_csum ctxt) (take (as_uint p) (buf b))\<rparr>"
  have "take (as_uint p) (buf b) = range_of d ?o (?o + unat p)" using as_uint_small [OF p(2)] buf by simp
  moreover have "fed (scan_xxh E) (file_csum ctxt) (range_of d 0 ?o)" using c(1) by (simp add: consumed_def)
  ultimately have f: "fed (scan_xxh E) (file_csum ctxt1) (range_of d 0 (?o + unat p))"
    using fed_add [of "scan_xxh E" "file_csum ctxt" "range_of d 0 ?o" "range_of d ?o (?o + unat p)"] range_append [of 0 ?o "?o + unat p" d]
    by (simp add: ctxt1_def)
  show ?thesis
  proof (cases "only_whole_files opts")
    case True
    then show ?thesis using f h c by (simp add: consumed_def feed_bytes_def ctxt1_def)
  next
    case False
    have ex: "extents_upto (scan_xxh E) (sc_fiemap ctxt1) d (unat (sc_off ctxt1)) (extent_csum ctxt1) (h_extents hashes)"
      using c False by (simp add: consumed_def ctxt1_def)
    have s: "sc_fiemap ctxt1 = sc_fiemap ctxt" "sc_filesize ctxt1 = sc_filesize ctxt" "sc_off ctxt1 = sc_off ctxt" by (simp_all add: ctxt1_def)
    from extents_loop_ok [where ctxt = ctxt1 and d = d and b = b and bytes = p and E = E and file_off = "sc_off ctxt1" and buf_off = 0 and csum = "extent_csum ctxt1" and hashes = hashes, OF E]
      fm p buf ex obtain csum' hashes' where
      l: "extents_loop E b p (sc_off ctxt1) 0 ctxt1 hashes = Some (0, ctxt1\<lparr>extent_csum := csum'\<rparr>, hashes')"
        "extents_upto (scan_xxh E) (sc_fiemap ctxt1) d (?o + unat p) csum' (h_extents hashes')" "h_blocks hashes' = h_blocks hashes"
      unfolding s by auto
    then have "process_extents E ctxt1 b hashes p = Some (0, ctxt1\<lparr>extent_csum := csum'\<rparr>, hashes')" by (simp add: process_extents_def)
    moreover have "consumed E opts d (?o + unat p) (ctxt1\<lparr>extent_csum := csum'\<rparr>) hashes'"
      using f h l(2,3) False by (simp add: consumed_def)
    ultimately show ?thesis using False s by (simp add: feed_bytes_def ctxt1_def)
  qed
qed

lemma consume_ok:
  assumes E: "xxh3_ok (scan_xxh E)" "realloc_ok E" "opts_ok opts" and fm: "map_fits (sc_fiemap ctxt) (length d)" "unat (sc_filesize ctxt) = length d"
    and b: "\<not> faked b" "unat (dl_len b) < 2 ^ 32" "unat (sc_off ctxt) + unat (dl_len b) \<le> length d"
      "take (unat (dl_len b)) (buf b) = range_of d (unat (sc_off ctxt)) (unat (sc_off ctxt) + unat (dl_len b))"
    and eof: "eof \<longleftrightarrow> unat (sc_off ctxt) + unat (dl_len b) = length d"
    and al: "do_block_hash opts \<Longrightarrow> unat (sc_off ctxt) mod unat (blocksize opts) = 0"
    and c: "consumed E opts d (unat (sc_off ctxt)) ctxt hashes"
  defines "p \<equiv> if do_block_hash opts \<and> \<not> eof then unat (dl_len b) div unat (blocksize opts) * unat (blocksize opts) else unat (dl_len b)"
  shows "\<exists>bytes ctxt' hashes'. consume E opts eof ctxt b hashes = Some (Some (0, bytes, ctxt', hashes')) \<and> unat bytes = p \<and>
     sc_off ctxt' = sc_off ctxt \<and> sc_filesize ctxt' = sc_filesize ctxt \<and> sc_fiemap ctxt' = sc_fiemap ctxt \<and>
     consumed E opts d (unat (sc_off ctxt) + p) ctxt' hashes'"
proof -
  let ?o = "unat (sc_off ctxt)" and ?bs = "unat (blocksize opts)" and ?l = "unat (dl_len b)"
  have fin: "\<exists>ctxt' hashes'. feed_bytes E opts ctxt b hs bytes = Some (0, ctxt', hashes') \<and>
       sc_off ctxt' = sc_off ctxt \<and> sc_filesize ctxt' = sc_filesize ctxt \<and> sc_fiemap ctxt' = sc_fiemap ctxt \<and>
       consumed E opts d (?o + unat bytes) ctxt' hashes'"
    if "unat bytes \<le> ?l" "h_extents hs = h_extents hashes"
      "h_blocks hs = (if do_block_hash opts then blocks_upto (scan_xxh E) (blocksize opts) d (?o + unat bytes) else [])" for bytes hs
  proof -
    have "take (unat bytes) (buf b) = range_of d ?o (?o + unat bytes)" using range_sub [of 0 "unat bytes" ?l "buf b" d ?o] that(1) b(4) by simp
    then show ?thesis using b(2,3) that(1) by (intro feed_bytes_ok [OF E(1,2) fm _ _ _ c that(2,3)]) linarith+
  qed
  show ?thesis
  proof (cases "do_block_hash opts")
    case False
    then have "process_blocks E opts ctxt b hashes = Some (Inr (dl_len b), hashes)" by (simp add: process_blocks_def Let_def)
    moreover have "h_blocks hashes = []" using c False by (simp add: consumed_def)
    moreover from this fin [OF order_refl refl] False obtain ctxt' hashes' where
      "feed_bytes E opts ctxt b hashes (dl_len b) = Some (0, ctxt', hashes')" "sc_off ctxt' = sc_off ctxt"
      "sc_filesize ctxt' = sc_filesize ctxt" "sc_fiemap ctxt' = sc_fiemap ctxt" "consumed E opts d (?o + ?l) ctxt' hashes'" by auto
    ultimately show ?thesis using False by (simp add: consume_def p_def Let_def)
  next
    case True
    define q where "q = ?l div ?bs * ?bs"
    have bs: "0 < ?bs" "0 < blocksize opts" using E(3) by (simp_all add: opts_ok_def unat_gt_0 word_gt_0)
    have hb: "h_blocks hashes = blocks_upto (scan_xxh E) (blocksize opts) d ?o" using c True by (simp add: consumed_def)
    obtain hs bytes where pb: "process_blocks E opts ctxt b hashes = Some (Inr bytes, hs)" "unat bytes = q" "h_extents hs = h_extents hashes"
        "h_blocks hs = blocks_upto (scan_xxh E) (blocksize opts) d (?o + q)"
      using process_blocks_ok [OF E(2) _ fm(1) bs(2) True b(1,4) al [OF True] b(3,2) hb] E(3) by (auto simp: opts_ok_def q_def)
    have q: "q \<le> ?l" by (simp add: q_def)
    show ?thesis
    proof (cases "eof \<and> bytes < dl_len b")
      case False
      have pq: "p = q"
      proof (cases eof)
        case True
        then have "\<not> q < ?l" using False pb(2) by (simp add: word_less_nat_alt)
        then show ?thesis using q True by (simp add: p_def)
      qed (use \<open>do_block_hash opts\<close> in \<open>simp add: p_def q_def\<close>)
      have "unat bytes \<le> ?l" using pb(2) q by simp
      from fin [OF this pb(3)] pb(2,4) True obtain ctxt' hashes' where
        f: "feed_bytes E opts ctxt b hs bytes = Some (0, ctxt', hashes')" "sc_off ctxt' = sc_off ctxt"
          "sc_filesize ctxt' = sc_filesize ctxt" "sc_fiemap ctxt' = sc_fiemap ctxt" "consumed E opts d (?o + q) ctxt' hashes'" by auto
      have "consume E opts eof ctxt b hashes = Some (Some (0, bytes, ctxt', hashes'))"
      proof -
        have nf: "(eof \<and> bytes < dl_len b) = False" using False by simp
        show ?thesis unfolding consume_def pb(1) by (simp add: nf f(1) Let_def del: de_Morgan_conj)
      qed
      then show ?thesis using pb(2) pq f(2-) by blast
    next
      case part: True
      define tail where "tail = take (unat (dl_len b - bytes)) (drop (unat bytes) (buf b))"
      have lt: "q < ?l" using part pb(2) by (simp add: word_less_nat_alt)
      have dl: "unat (dl_len b - bytes) = ?l - q" using part pb(2) unat_sub [of bytes "dl_len b"] by (simp add: order_less_imp_le)
      have tail: "tail = range_of d (?o + q) (length d)"
        using range_sub [OF q order_refl b(4)] dl pb(2) eof part by (simp add: tail_def)
      obtain k where k: "?o = k * ?bs" using al [OF True] by (metis dvd_def mod_0_imp_dvd mult.commute)
      define i where "i = k + ?l div ?bs"
      have oq: "?o + q = i * ?bs" using k by (simp add: i_def q_def algebra_simps)
      have lq: "?l = q + ?l mod ?bs" by (simp add: q_def)
      have nd: "length d = i * ?bs + ?l mod ?bs" using eof part oq lq by linarith
      have lm: "?l mod ?bs < ?bs" "?l mod ?bs \<noteq> 0" using bs(1) lt lq by (simp, linarith)
      have dn: "length d div ?bs = i" "length d mod ?bs = ?l mod ?bs" using nd lm(1) bs(1) by simp_all
      have bl: "sc_off ctxt + bytes = of_nat (i * ?bs)"
      proof -
        have "sc_off ctxt + bytes = of_nat (unat (sc_off ctxt) + unat bytes)" by simp
        then show ?thesis using pb(2) oq by metis
      qed
      have blk: "\<lparr>bc_loff = sc_off ctxt + bytes, bc_digest = checksum_block (scan_xxh E) tail\<rparr> = block_at (scan_xxh E) (blocksize opts) d i"
        using tail bl nd lm(1) oq by (simp add: block_at_def min_def)
      obtain hs1 where h1: "process_block E tail (sc_off ctxt + bytes) hs = (0, hs1)"
          "h_blocks hs1 = h_blocks hs @ [block_at (scan_xxh E) (blocksize opts) d i]" "h_extents hs1 = h_extents hs"
        using process_block_ok [OF E(2), of tail "sc_off ctxt + bytes" hs] blk by auto
      have "blocks_upto (scan_xxh E) (blocksize opts) d (length d) = h_blocks hs1"
        unfolding h1(2) pb(4) oq using dn lm(2) bs(1) by (simp add: blocks_upto_def)
      then have hb1: "h_blocks hs1 = (if do_block_hash opts then blocks_upto (scan_xxh E) (blocksize opts) d (?o + unat (dl_len b)) else [])"
        using True eof part by simp
      have dlb: "bytes + (dl_len b - bytes) = dl_len b" by simp
      from fin [OF order_refl _ hb1] h1(3) pb(3) obtain ctxt' hashes' where
        f: "feed_bytes E opts ctxt b hs1 (dl_len b) = Some (0, ctxt', hashes')" "sc_off ctxt' = sc_off ctxt"
          "sc_filesize ctxt' = sc_filesize ctxt" "sc_fiemap ctxt' = sc_fiemap ctxt" "consumed E opts d (?o + ?l) ctxt' hashes'" by auto
      have "consume E opts eof ctxt b hashes = Some (Some (0, dl_len b, ctxt', hashes'))"
        unfolding consume_def pb(1) using part h1(1) f(1) by (simp add: Let_def tail_def [symmetric] dlb)
      then show ?thesis using part f(2-) by (auto simp: p_def)
    qed
  qed
qed

text \<open>The state at the head of the loop.\<close>

definition reading :: "'s scan_sys \<Rightarrow> scan_options \<Rightarrow> u8 list \<Rightarrow> 's scan_ctxt \<Rightarrow> buffer \<Rightarrow> hashes \<Rightarrow> bool" where
  "reading E opts d ctxt b hashes \<longleftrightarrow> map_fits (sc_fiemap ctxt) (length d) \<and> unat (sc_filesize ctxt) = length d \<and>
     length (buf b) = unat (buf_size b) \<and> unat (buf_size b) < 2 ^ 31 \<and> unat (blocksize opts) \<le> unat (buf_size b) \<and>
     unat (dl_offset b) + unat (dl_len b) \<le> unat (buf_size b) \<and> unat (dl_len b) < unat (buf_size b) \<and>
     unat (sc_off ctxt) + unat (dl_len b) < length d \<and>
     take (unat (dl_len b)) (drop (unat (dl_offset b)) (buf b)) = range_of d (unat (sc_off ctxt)) (unat (sc_off ctxt) + unat (dl_len b)) \<and>
     (do_block_hash opts \<longrightarrow> unat (sc_off ctxt) mod unat (blocksize opts) = 0) \<and>
     consumed E opts d (unat (sc_off ctxt)) ctxt hashes"

lemma csum_loop_ok:
  assumes E: "xxh3_ok (scan_xxh E)" "realloc_ok E" "opts_ok opts" "pread_ok (pread E) d"
  shows "reading E opts d ctxt b hashes \<Longrightarrow>
    \<exists>ctxt' hashes'. csum_loop E opts False ctxt b hashes = Some (Some (ctxt', hashes')) \<and> unat (sc_off ctxt') = length d \<and>
      sc_filesize ctxt' = sc_filesize ctxt \<and> sc_fiemap ctxt' = sc_fiemap ctxt \<and> consumed E opts d (length d) ctxt' hashes'"
proof (induction "length d - (unat (sc_off ctxt) + unat (dl_len b))" arbitrary: ctxt b hashes rule: less_induct)
  case less
  let ?o = "unat (sc_off ctxt)" and ?bs = "unat (blocksize opts)"
  note r = less.prems [unfolded reading_def]
  have fm: "map_fits (sc_fiemap ctxt) (length d)" "unat (sc_filesize ctxt) = length d" using r by simp_all
  have bs: "0 < ?bs" using E(3) by (simp add: opts_ok_def unat_gt_0 word_gt_0)
  have n64: "length d < 2 ^ 64" using fm(2) unat_u64 [of "sc_filesize ctxt"] by simp
  have lt: "sc_off ctxt < sc_filesize ctxt" using r by (simp add: word_less_nat_alt)
  from r obtain ret b' where f: "fill_buffer E ctxt b = Some (ret, b')" "0 \<le> ret" "\<not> faked b'" "buf_size b' = buf_size b"
      "length (buf b') = unat (buf_size b')" "unat (dl_len b) < unat (dl_len b')" "unat (dl_len b') \<le> unat (buf_size b)"
      "?o + unat (dl_len b') \<le> length d" "ret = 0 \<longleftrightarrow> ?o + unat (dl_len b') = length d"
      "take (unat (dl_len b')) (buf b') = range_of d ?o (?o + unat (dl_len b'))"
    using fill_buffer_ok [OF E(4) fm, of b] by blast
  have l32: "unat (dl_len b') < 2 ^ 32" using f(7) r by simp
  define p where "p = (if do_block_hash opts \<and> ret \<noteq> 0 then unat (dl_len b') div ?bs * ?bs else unat (dl_len b'))"
  have al: "do_block_hash opts \<Longrightarrow> ?o mod ?bs = 0" and cons: "consumed E opts d ?o ctxt hashes" using r by blast+
  from consume_ok [OF E(1-3) fm f(3) l32 f(8,10,9) al cons] obtain bytes ctxt1 hashes1 where
    c: "consume E opts (ret = 0) ctxt b' hashes = Some (Some (0, bytes, ctxt1, hashes1))" "unat bytes = p" "sc_off ctxt1 = sc_off ctxt"
      "sc_filesize ctxt1 = sc_filesize ctxt" "sc_fiemap ctxt1 = sc_fiemap ctxt" "consumed E opts d (?o + p) ctxt1 hashes1"
    unfolding p_def by blast
  define b2 where "b2 = b'\<lparr>dl_offset := bytes, dl_len := dl_len b' - bytes\<rparr>"
  define ctxt2 where "ctxt2 = ctxt1\<lparr>sc_off := sc_off ctxt1 + bytes\<rparr>"
  have step: "csum_loop E opts False ctxt b hashes =
      (if ret = 0 then Some (Some (ctxt2, hashes1)) else csum_loop E opts False ctxt2 b2 hashes1)"
    using lt f(1,2) c(1) by (subst csum_loop.simps) (simp add: Let_def b2_def ctxt2_def)
  have p: "p \<le> unat (dl_len b')" by (simp add: p_def)
  have off2: "unat (sc_off ctxt2) = ?o + p"
    using c(2,3) p f(8) n64 by (simp add: ctxt2_def unat_add_small)
  have cons2: "consumed E opts d (?o + p) ctxt2 hashes1" using c(6) by (simp add: ctxt2_def consumed_def)
  show ?case
  proof (cases "ret = 0")
    case True
    then have "?o + p = length d" using f(9) by (simp add: p_def)
    then show ?thesis using step True off2 cons2 c(4,5) by (simp add: ctxt2_def)
  next
    case False
    have dl2: "unat (dl_len b2) = unat (dl_len b') - p" using c(2) p by (simp add: b2_def unat_sub word_le_nat_alt)
    have lt2: "unat (dl_len b2) < unat (buf_size b)"
    proof (cases "do_block_hash opts")
      case True
      then have "unat (dl_len b2) = unat (dl_len b') mod ?bs" using dl2 False by (simp add: p_def minus_div_mult_eq_mod)
      then show ?thesis using mod_less_divisor [OF bs, of "unat (dl_len b')"] r by linarith
    next
      case f': False
      then have "unat (dl_len b2) = 0" using dl2 by (simp add: p_def)
      then show ?thesis using r by linarith
    qed
    have "?o + unat (dl_len b') \<noteq> length d" using f(9) False by simp
    then have sum2: "unat (sc_off ctxt2) + unat (dl_len b2) = ?o + unat (dl_len b')" "?o + unat (dl_len b') < length d"
      using off2 dl2 p f(8) by simp_all
    have "reading E opts d ctxt2 b2 hashes1"
      unfolding reading_def
    proof (intro conjI)
      show "take (unat (dl_len b2)) (drop (unat (dl_offset b2)) (buf b2)) = range_of d (unat (sc_off ctxt2)) (unat (sc_off ctxt2) + unat (dl_len b2))"
        using range_sub [OF p order_refl f(10)] dl2 c(2) sum2(1) off2 by (simp add: b2_def)
      show "do_block_hash opts \<longrightarrow> unat (sc_off ctxt2) mod ?bs = 0"
        using off2 al False by (simp add: p_def mod_eq_0_iff_dvd)
      show "consumed E opts d (unat (sc_off ctxt2)) ctxt2 hashes1" using cons2 off2 by simp
      show "unat (dl_offset b2) + unat (dl_len b2) \<le> unat (buf_size b2)" using dl2 c(2) p f(4,7) by (simp add: b2_def)
      show "unat (dl_len b2) < unat (buf_size b2)" using lt2 f(4) by (simp add: b2_def)
    qed (use r f(4,5) c(4,5) sum2 in \<open>simp_all add: b2_def ctxt2_def\<close>)
    moreover have "length d - (unat (sc_off ctxt2) + unat (dl_len b2)) < length d - (?o + unat (dl_len b))"
      using sum2 f(6) by linarith
    ultimately obtain ctxt' hashes' where "csum_loop E opts False ctxt2 b2 hashes1 = Some (Some (ctxt', hashes'))" "unat (sc_off ctxt') = length d"
        "sc_filesize ctxt' = sc_filesize ctxt2" "sc_fiemap ctxt' = sc_fiemap ctxt2" "consumed E opts d (length d) ctxt' hashes'"
      using less.hyps [of ctxt2 b2 hashes1] by blast
    then show ?thesis using step False c(4,5) by (simp add: ctxt2_def)
  qed
qed

text \<open>What the database is told about a file with contents \<open>d\<close>.\<close>

definition file_blocks :: "'s xxh3 \<Rightarrow> scan_options \<Rightarrow> u8 list \<Rightarrow> block_csum list" where
  "file_blocks X opts d = (if do_block_hash opts then blocks_upto X (blocksize opts) d (length d) else [])"

definition file_extents :: "'s xxh3 \<Rightarrow> scan_options \<Rightarrow> fiemap \<Rightarrow> u8 list \<Rightarrow> extent_csum list" where
  "file_extents X opts fm d = (if only_whole_files opts then [] else map (stored X fm d) [0..<length (fm_extents fm)])"

lemma inline_not_skipped: "fl AND FIEMAP_SKIP_FLAGS = 0 \<Longrightarrow> fl AND FIEMAP_EXTENT_DATA_INLINE = 0"
  unfolding FIEMAP_SKIP_FLAGS_def by (simp add: bit.conj_disj_distrib or_eq_0_iff)

lemma extents_upto_start:
  assumes "map_fits fm (length d)" "d \<noteq> []"
  shows "extents_upto X fm d 0 None []"
proof -
  have ne: "0 < length (fm_extents fm)" using assms(1) by (simp add: map_fits_def)
  have "fiemap_ok fm" using assms(1) by (simp add: map_fits_def)
  then have "0 < fe_length (fm_extents fm ! 0)" using ne by (auto simp: fiemap_ok_def)
  then have "0 < ext_stop (fm_extents fm ! 0)" by (simp add: ext_stop_def unat_gt_0 word_gt_0)
  then show ?thesis using assms(2) ne unfolding extents_upto_def by (intro exI [of _ 0]) (auto simp: from_at_def stop_at_def)
qed

lemma extents_upto_end:
  assumes "map_fits fm (length d)" "extents_upto X fm d (length d) csum exts"
  shows "exts = map (stored X fm d) [0..<length (fm_extents fm)]"
proof -
  from assms(2) obtain j where j: "j \<le> length (fm_extents fm)"
      "if j = length (fm_extents fm) then True else length d < stop_at fm (length d) j" "exts = map (stored X fm d) [0..<j]"
    unfolding extents_upto_def by auto
  then have "j = length (fm_extents fm)" by (auto simp: stop_at_def split: if_splits)
  then show ?thesis using j(3) by simp
qed

lemma not_inlined:
  assumes "map_fits (sc_fiemap ctxt) n"
  shows "is_inlined ctxt = Some False"
proof -
  have ok: "fiemap_ok (sc_fiemap ctxt)" "\<forall>e \<in> set (fm_extents (sc_fiemap ctxt)). fe_flags e AND FIEMAP_SKIP_FLAGS = 0"
    using assms by (auto simp: map_fits_def)
  show ?thesis
    by (rule get_extent_in [OF ok(1), of "sc_filesize ctxt - 1"]) (use ok(2) in \<open>auto simp: is_inlined_def inline_not_skipped\<close>)
qed

section \<open>The properties of hashing\<close>

lemma csum_whole_file_ok:
  assumes "xxh3_ok (scan_xxh E)" "realloc_ok E" "pread_ok (pread E) d" "d \<noteq> []" "unat filesize = length d"
    and "\<not> skip_zeroes opts" "0 < blocksize opts" "unat (blocksize opts) \<le> unat (buf_size b)"
    and "length (buf b) = unat (buf_size b)" "unat (buf_size b) < 2 ^ 31"
    and "map_reply (fiemap_count_extents count_reply) = (0, fm)" "map_fits fm (length d)" "csum_room E" "map_room E"
  shows "csum_whole_file E opts (\<lambda>_. 0) count_reply map_reply True True fileid filesize b = Some
    (dbfile_begin_trans #
     (if file_blocks (scan_xxh E) opts d = [] then [] else [dbfile_store_block_hashes fileid (file_blocks (scan_xxh E) opts d)]) @
     (if file_extents (scan_xxh E) opts fm d = [] then [] else [dbfile_store_extent_hashes fileid (file_extents (scan_xxh E) opts fm d)]) @
     [dbfile_update_scanned_file fileid (checksum_block (scan_xxh E) d) 0, dbfile_commit_trans])"
proof -
  define ctxt where "ctxt = \<lparr>sc_filesize = filesize, sc_off = 0, sc_fiemap = fm,
    file_csum = start_running_checksum (scan_xxh E), extent_csum = None\<rparr>"
  define hs where "hs = \<lparr>extents_count = fm_mapped_extents fm, h_extents = [],
    blocks_count = ucast (filesize div ucast (blocksize opts) + 1), h_blocks = []\<rparr>"
  define b1 where "b1 = b\<lparr>dl_offset := 0, dl_len := 0\<rparr>"
  have "0 < unat (blocksize opts)" using assms(7) by (simp add: unat_gt_0 word_gt_0)
  then have "reading E opts d ctxt b1 hs"
    using assms(4-12) extents_upto_start [OF assms(12,4), of "scan_xxh E"] fed_start [of "scan_xxh E"]
    by (simp add: reading_def consumed_def ctxt_def b1_def hs_def blocks_upto_def)
  moreover have "opts_ok opts" using assms(6,7) by (simp add: opts_ok_def)
  ultimately obtain ctxt' hs' where l: "csum_loop E opts False ctxt b1 hs = Some (Some (ctxt', hs'))" "unat (sc_off ctxt') = length d"
      "sc_fiemap ctxt' = fm" "consumed E opts d (length d) ctxt' hs'"
    using csum_loop_ok [OF assms(1,2) _ assms(3), of opts ctxt b1 hs] by (auto simp: ctxt_def)
  have off: "sc_off ctxt' = filesize" using l(2) assms(5) by (metis word_unat_eq_iff)
  have "range_of d 0 (length d) = d" by (simp add: range_of_def)
  then have dig: "finish_running_checksum (scan_xxh E) (file_csum ctxt') = checksum_block (scan_xxh E) d"
    using fed_finish [OF assms(1)] l(4) by (simp add: consumed_def)
  have hb: "h_blocks hs' = file_blocks (scan_xxh E) opts d" using l(4) by (simp add: consumed_def file_blocks_def)
  have he: "h_extents hs' = file_extents (scan_xxh E) opts fm d"
    using l(3,4) extents_upto_end [OF assms(12)] by (auto simp: consumed_def file_extents_def split: if_splits)
  have "store_hashes E (\<lambda>_. 0) fileid ctxt' hs' = Some
    (dbfile_begin_trans #
     (if file_blocks (scan_xxh E) opts d = [] then [] else [dbfile_store_block_hashes fileid (file_blocks (scan_xxh E) opts d)]) @
     (if file_extents (scan_xxh E) opts fm d = [] then [] else [dbfile_store_extent_hashes fileid (file_extents (scan_xxh E) opts fm d)]) @
     [dbfile_update_scanned_file fileid (checksum_block (scan_xxh E) d) 0, dbfile_commit_trans])"
    using not_inlined [of ctxt' "length d"] l(3) assms(12) unfolding store_hashes_def dig hb he by (simp add: Let_def)
  moreover have "do_fiemap count_reply map_reply (map_room E) = Some (Some fm)" using assms(11,14) by (simp add: do_fiemap_def)
  moreover have "allocate_hashes True opts ctxt = Some hs" by (simp add: allocate_hashes_def ctxt_def hs_def)
  ultimately show ?thesis using l(1) off assms(13) by (simp add: csum_whole_file_def Let_def ctxt_def [symmetric] b1_def [symmetric])
qed

text \<open>
  C2. Scanning a file that is not empty, does not change meanwhile and is written to its end: its map has no
  unwritten or inline extent, and its last extent reaches the end of the file. When zeroes are not to be
  skipped, the file can be opened, allocations succeed and no statement fails, then, whatever short reads there are, what is
  committed to the database is exactly one digest of the whole contents, one of each block in
  order (the last may be shorter) when blocks are asked for, and one for each extent of the map,
  computed from the bytes between the end of the extent before it and its own end.
\<close>

theorem csum_whole_file_correct:
  assumes "xxh3_ok (scan_xxh E)" "realloc_ok E" "pread_ok (pread E) d" "d \<noteq> []" "unat filesize = length d"
    and "\<not> skip_zeroes opts" "0 < blocksize opts" "unat (blocksize opts) \<le> unat (buf_size b)"
    and "length (buf b) = unat (buf_size b)" "unat (buf_size b) < 2 ^ 31"
    and "map_reply (fiemap_count_extents count_reply) = (0, fm)" "map_fits fm (length d)" "csum_room E" "map_room E"
  shows "csum_whole_file E opts (\<lambda>_. 0) count_reply map_reply True True fileid filesize b = Some
    (dbfile_begin_trans #
     (if file_blocks (scan_xxh E) opts d = [] then [] else [dbfile_store_block_hashes fileid (file_blocks (scan_xxh E) opts d)]) @
     (if file_extents (scan_xxh E) opts fm d = [] then [] else [dbfile_store_extent_hashes fileid (file_extents (scan_xxh E) opts fm d)]) @
     [dbfile_update_scanned_file fileid (checksum_block (scan_xxh E) d) 0, dbfile_commit_trans])"
  using assms by (rule csum_whole_file_ok)

definition example_map :: fiemap where
  "example_map = \<lparr>fm_mapped_extents = 1, fm_extents = [\<lparr>fe_logical = 0, fe_physical = 8192, fe_length = 4096, fe_flags = 1\<rparr>]\<rparr>"

definition example_scan :: "u8 list \<Rightarrow> u8 list scan_sys" where
  "example_scan d = \<lparr>scan_xxh = example_xxh3, pread = (\<lambda>count off. Some (take (unat count) (drop (unat off) d))), realloc_ok = True, csum_room = True, map_room = True\<rparr>"

definition example_opts :: scan_options where
  "example_opts = \<lparr>do_block_hash = True, skip_zeroes = False, only_whole_files = False, blocksize = 4096\<rparr>"

definition example_buffer :: buffer where
  "example_buffer = \<lparr>buf = replicate 4096 0, buf_size = 4096, dl_offset = 0, dl_len = 0, faked = False\<rparr>"

lemma example_map_fits: "map_fits example_map 3"
  by (simp add: map_fits_def example_map_def fiemap_ok_def ext_stop_def FIEMAP_SKIP_FLAGS_def FIEMAP_EXTENT_LAST_def
      FIEMAP_EXTENT_DATA_INLINE_def FIEMAP_EXTENT_UNWRITTEN_def)

lemma example_pread: "pread_ok (pread (example_scan d)) d"
  unfolding pread_ok_def example_scan_def
proof (intro allI)
  fix count off :: u64
  show "\<exists>k \<le> unat count. pread \<lparr>scan_xxh = example_xxh3, pread = (\<lambda>count off. Some (take (unat count) (drop (unat off) d))), realloc_ok = True, csum_room = True, map_room = True\<rparr> count off =
      Some (take k (drop (unat off) d)) \<and> (0 < count \<and> unat off < length d \<longrightarrow> 0 < k)"
    by (intro exI [of _ "unat count"]) (simp add: unat_gt_0 word_gt_0)
qed

theorem csum_whole_file_correct_witness:
  "\<exists>calls. csum_whole_file (example_scan [1, 2, 3]) example_opts (\<lambda>_. 0) (0, 1) (\<lambda>n. (0, example_map)) True True 7 3 example_buffer = Some calls \<and>
     dbfile_update_scanned_file 7 (checksum_block example_xxh3 [1, 2, 3]) 0 \<in> set calls"
proof -
  have *: "xxh3_ok (scan_xxh (example_scan [1, 2, 3]))" "realloc_ok (example_scan [1, 2, 3])"
    using example_xxh3_ok by (simp_all add: example_scan_def)
  have fits: "map_fits example_map (length [1, 2, 3 :: u8])" using example_map_fits by (simp add: numeral_3_eq_3)
  show ?thesis
    by (rule exI, rule conjI, rule csum_whole_file_correct [OF * example_pread, where fm = example_map])
      (simp_all add: example_opts_def example_buffer_def fits [simplified], simp_all add: example_scan_def)
qed

text \<open>
  An extent to be skipped that reaches into an area is found there: the loop goes from extent to
  extent, one byte past the end of each.
\<close>

lemma area_ignored:
  assumes ok: "fiemap_ok fm" and j: "j < length (fm_extents fm)" "fe_flags (fm_extents fm ! j) AND FIEMAP_SKIP_FLAGS \<noteq> 0"
      "2 \<le> unat (fe_length (fm_extents fm ! j))" "ext_start (fm_extents fm ! j) + 1 < unat stop"
    and last: "\<forall>i < j. fe_flags (fm_extents fm ! i) AND FIEMAP_EXTENT_LAST = 0"
  shows "unat start < ext_stop (fm_extents fm ! j) \<Longrightarrow> start < stop \<Longrightarrow> area_loop fm start stop = Some True"
proof (induction "unat stop - unat start" arbitrary: start rule: less_induct)
  case less
  obtain r where r: "get_extent_loop fm start 0 = Some r" "first_from (fm_extents fm) (unat start) 0 r"
    using get_extent_loop_spec [of fm start 0] ok by (auto simp: fiemap_ok_def)
  have "r \<noteq> None"
  proof
    assume "r = None"
    then have "ext_stop (fm_extents fm ! j) \<le> unat start" using r(2) j(1) by (simp add: first_from_def)
    then show False using less.prems(1) by simp
  qed
  then obtain i e where re: "r = Some (i, e)" by auto
  have i: "get_extent fm start = Some (Some (i, fm_extents fm ! i))" "i < length (fm_extents fm)"
      "unat start < ext_stop (fm_extents fm ! i)" "\<forall>k \<in> {0..<i}. ext_stop (fm_extents fm ! k) \<le> unat start"
    using r unfolding re by (auto simp: first_from_def get_extent_def)
  let ?e = "fm_extents fm ! i"
  have ij: "i \<le> j" using bspec [OF i(4), of j] less.prems(1) by (cases "j < i") auto
  show ?case
  proof (cases "fe_flags ?e AND FIEMAP_SKIP_FLAGS = 0")
    case True
    then have lt: "i < j" using ij j(2) by (cases "i = j") auto
    have "ext_stop ?e \<le> ext_start (fm_extents fm ! j)" using ok lt j(1) by (auto simp: fiemap_ok_def sorted_wrt_iff_nth_less)
    then have le: "ext_stop ?e + 1 < unat stop" "ext_stop ?e + 1 < ext_stop (fm_extents fm ! j)"
      using j(3,4) by (simp_all add: ext_start_def ext_stop_def)
    have "(2::nat) ^ 64 = 18446744073709551616" by simp
    then have "ext_stop ?e < 2 ^ 64 - 1" using le(1) unat_u64 [of stop] by linarith
    then have s: "unat (fe_logical ?e + fe_length ?e + 1) = ext_stop ?e + 1"
      using ext_end_no_wrap [of ?e] unat_add_small [of "fe_logical ?e + fe_length ?e" 1] by simp
    have "unat stop - unat (fe_logical ?e + fe_length ?e + 1) < unat stop - unat start" using s le(1) i(3) by simp
    from less.hyps [OF this] have "area_loop fm (fe_logical ?e + fe_length ?e + 1) stop = Some True"
      using s le by (simp add: word_less_nat_alt)
    then show ?thesis using less.prems(2) i(1) True last lt by (subst area_loop.simps) simp
  qed (use less.prems(2) i(1) in \<open>subst area_loop.simps, simp\<close>)
qed

text \<open>
  C37. When the area of the buffer lies inside the file and any extent that is to be skipped reaches into it, with
  two bytes at least of both, \<open>fill_buffer\<close> does not read at all: whatever \<open>pread\<close> would return, the whole buffer becomes
  zeroes and counts as read, also where other extents of the area have written data.
\<close>

theorem fill_buffer_fakes_area:
  assumes "fiemap_ok (sc_fiemap ctxt)" "j < length (fm_extents (sc_fiemap ctxt))"
    and "fe_flags (fm_extents (sc_fiemap ctxt) ! j) AND FIEMAP_SKIP_FLAGS \<noteq> 0" "2 \<le> unat (fe_length (fm_extents (sc_fiemap ctxt) ! j))"
    and "\<forall>i < j. fe_flags (fm_extents (sc_fiemap ctxt) ! i) AND FIEMAP_EXTENT_LAST = 0"
    and "unat (sc_off ctxt) < ext_stop (fm_extents (sc_fiemap ctxt) ! j)"
    and "ext_start (fm_extents (sc_fiemap ctxt) ! j) + 1 < unat (sc_off ctxt + buf_size b)"
    and "sc_off ctxt < sc_off ctxt + buf_size b" "sc_off ctxt + buf_size b \<le> sc_filesize ctxt" "length (buf b) = unat (buf_size b)"
  shows "\<exists>ret. \<forall>E. fill_buffer E ctxt b =
    Some (ret, b\<lparr>buf := replicate (unat (buf_size b)) 0, dl_len := buf_size b, dl_offset := 0, faked := True\<rparr>)"
proof -
  have "put (buf b) 0 (replicate (unat (buf_size b)) 0) = replicate (unat (buf_size b)) 0" using assms(10) by (simp add: put_def)
  moreover have "is_area_ignored (sc_fiemap ctxt) (sc_off ctxt) (buf_size b) = Some True"
    unfolding is_area_ignored_def by (rule area_ignored [OF assms(1-4,7,5,6,8)])
  ultimately show ?thesis using assms(9) by (simp add: fill_buffer_def)
qed

definition example_mixed_map :: fiemap where
  "example_mixed_map = \<lparr>fm_mapped_extents = 2, fm_extents = [\<lparr>fe_logical = 0, fe_physical = 8192, fe_length = 2048, fe_flags = 0\<rparr>,
     \<lparr>fe_logical = 2048, fe_physical = 16384, fe_length = 2048, fe_flags = 0x801\<rparr>]\<rparr>"

theorem fill_buffer_fakes_area_witness:
  "\<exists>ret b. \<forall>d. fill_buffer (example_scan d) \<lparr>sc_filesize = 4096, sc_off = 0, sc_fiemap = example_mixed_map, file_csum = [], extent_csum = None\<rparr> example_buffer =
     Some (ret, b) \<and> buf b = replicate 4096 0"
proof -
  let ?c = "\<lparr>sc_filesize = 4096, sc_off = 0, sc_fiemap = example_mixed_map, file_csum = [] :: u8 list, extent_csum = None\<rparr>"
  have "fiemap_ok example_mixed_map" by (simp add: fiemap_ok_def example_mixed_map_def ext_stop_def ext_start_def)
  moreover have "fe_flags (fm_extents example_mixed_map ! 1) AND FIEMAP_SKIP_FLAGS \<noteq> 0"
    "\<forall>i < 1. fe_flags (fm_extents example_mixed_map ! i) AND FIEMAP_EXTENT_LAST = 0" by code_simp+
  ultimately have "\<exists>ret. \<forall>E. fill_buffer E ?c example_buffer =
      Some (ret, example_buffer\<lparr>buf := replicate (unat (buf_size example_buffer)) 0, dl_len := buf_size example_buffer, dl_offset := 0, faked := True\<rparr>)"
    by (intro fill_buffer_fakes_area [where j = 1]) (simp_all add: example_buffer_def example_mixed_map_def ext_start_def ext_stop_def)
  then show ?thesis by (auto simp: example_buffer_def)
qed

text \<open>
  With zero skipping on, the test for zeroes looks at the first block of the buffer for every block:
  when that one is zero, none of the blocks in the buffer is hashed, whatever the others hold.
\<close>

theorem process_blocks_zero_test:
  assumes "do_block_hash opts" "skip_zeroes opts" "\<not> faked b" "map_fits (sc_fiemap ctxt) n"
    and "is_block_zeroed opts (drop (unat (dl_offset b)) (buf b))"
  shows "\<exists>bytes. process_blocks E opts ctxt b hashes = Some (Inr bytes, hashes)"
proof -
  have "blocks_loop E opts (sc_fiemap ctxt) b i m off hashes = Some (0, hashes)" for i m off
    using map_fits_area [OF assms(4)] assms(2,5)
    by (induction m arbitrary: i off) (simp_all add: is_block_ignored_def)
  then show ?thesis using assms(1,3) by (simp add: process_blocks_def Let_def)
qed

theorem process_blocks_zero_test_witness:
  "\<exists>bytes. process_blocks (example_scan []) (example_opts\<lparr>skip_zeroes := True, blocksize := 4\<rparr>)
     \<lparr>sc_filesize = 8, sc_off = 0, sc_fiemap = example_map, file_csum = [], extent_csum = None\<rparr>
     \<lparr>buf = [0, 0, 0, 0, 1, 2, 3, 4], buf_size = 8, dl_offset = 0, dl_len = 8, faked = False\<rparr>
     \<lparr>extents_count = 1, h_extents = [], blocks_count = 3, h_blocks = []\<rparr> =
     Some (Inr bytes, \<lparr>extents_count = 1, h_extents = [], blocks_count = 3, h_blocks = []\<rparr>)"
  by (rule process_blocks_zero_test [where n = 3]) (simp_all add: example_opts_def example_map_fits is_block_zeroed_def)

end
