(* ===== verification/Dbfile.thy ===== *)
theory Dbfile
  imports FileScan Util
begin

text \<open>
  The hash file, \<open>dbfile.c\<close>: four tables with their constraints, and every statement the program
  prepares. A table is the list of its rows. \<open>sqlite\<close> itself is not modelled beyond what its
  documentation says of the statements used here: a \<open>UNIQUE\<close> constraint makes an \<open>insert\<close> fail,
  \<open>or replace\<close> deletes the rows in the way first, deleting a file deletes its blocks and extents
  (\<open>ON DELETE CASCADE\<close>, \<open>foreign_keys\<close> is on), a comparison with NULL is not true, and the order of
  the rows of a \<open>select\<close> is not specified, here that of the table.

  A column holds an \<open>int\<close>, which is what \<open>sqlite3_bind_int64\<close> makes of an unsigned value (\<open>bind_int64\<close>) and
  \<open>sqlite3_column_int64\<close> turns back (\<open>column_int64\<close>). \<open>rc\<close> is the code \<open>sqlite\<close> gives for a statement that
  cannot be run at all, 0 otherwise; \<open>rowid\<close> is the id it picks for a new row.
\<close>

record file_row =
  f_id :: int
  f_filename :: string
  f_ino :: int
  f_subvol :: int
  f_size :: int
  f_mtime :: int
  f_dedupe_seq :: int
  f_digest :: "digest option"
  f_flags :: "int option"

record block_row =
  br_digest :: digest
  br_fileid :: int
  br_loff :: int

record extent_row =
  er_digest :: digest
  er_fileid :: int
  er_loff :: int
  er_poff :: int
  er_len :: int

datatype config_val = CText string | CInt int

record database =
  files :: "file_row list"
  blocks :: "block_row list"
  extents :: "extent_row list"
  config :: "(string \<times> config_val) list"

text \<open>\<open>struct file\<close>, as the scan fills it.\<close>

record db_file =
  df_id :: int
  df_filename :: string
  df_ino :: u64
  df_subvol :: u64
  df_size :: u64
  df_mtime :: u64
  df_dedupe_seq :: u32

record dbfile_config =
  cfg_blocksize :: u32
  cfg_major :: int
  cfg_minor :: int
  cfg_hash_type :: string
  cfg_dedupe_seq :: u32
  cfg_fs_uuid :: "u8 list"

record dbfile_stats =
  num_b_hashes :: u64
  num_e_hashes :: u64
  num_files :: u64

section \<open>Model\<close>

definition bind_int64 :: "u64 \<Rightarrow> int" where
  "bind_int64 w = sint w"

definition column_int64 :: "int \<Rightarrow> u64" where
  "column_int64 v = word_of_int v"

abbreviation (input) SQLITE_CONSTRAINT :: int where "SQLITE_CONSTRAINT \<equiv> 19"

definition create_tables :: database where
  "create_tables = \<lparr>files = [], blocks = [], extents = [], config = []\<rparr>"

text \<open>Deleting files, with what refers to them.\<close>

definition delete_files :: "(file_row \<Rightarrow> bool) \<Rightarrow> database \<Rightarrow> database" where
  "delete_files P db =
     (let gone = f_id ` set (filter P (files db)) in
      db\<lparr>files := filter (\<lambda>r. \<not> P r) (files db), blocks := filter (\<lambda>b. br_fileid b \<notin> gone) (blocks db),
        extents := filter (\<lambda>e. er_fileid e \<notin> gone) (extents db)\<rparr>)"

definition write_file :: "int \<Rightarrow> db_file \<Rightarrow> database \<Rightarrow> database" where
  "write_file rowid dbfile db =
     (let row = \<lparr>f_id = rowid, f_filename = df_filename dbfile, f_ino = bind_int64 (df_ino dbfile), f_subvol = bind_int64 (df_subvol dbfile),
            f_size = bind_int64 (df_size dbfile), f_mtime = bind_int64 (df_mtime dbfile), f_dedupe_seq = sint (df_dedupe_seq dbfile),
            f_digest = None, f_flags = None\<rparr>;
          db = delete_files (\<lambda>r. f_ino r = f_ino row \<and> f_subvol r = f_subvol row \<or> f_filename r = f_filename row) db in
      db\<lparr>files := files db @ [row]\<rparr>)"

text \<open>The id of the new row, 0 on an error.\<close>

definition dbfile_store_file_info :: "int \<Rightarrow> int \<Rightarrow> db_file \<Rightarrow> database \<Rightarrow> int \<times> database" where
  "dbfile_store_file_info rc rowid dbfile db = (if rc \<noteq> 0 then (0, db) else (rowid, write_file rowid dbfile db))"

definition dbfile_remove_extent_hashes :: "int \<Rightarrow> int \<Rightarrow> database \<Rightarrow> int \<times> database" where
  "dbfile_remove_extent_hashes rc fid db =
     (if rc \<noteq> 0 then (rc, db) else (0, db\<lparr>extents := filter (\<lambda>e. er_fileid e \<noteq> fid) (extents db)\<rparr>))"

definition remove_block_hashes :: "int \<Rightarrow> int \<Rightarrow> database \<Rightarrow> int \<times> database" where
  "remove_block_hashes rc fid db =
     (if rc \<noteq> 0 then (rc, db) else (0, db\<lparr>blocks := filter (\<lambda>b. br_fileid b \<noteq> fid) (blocks db)\<rparr>))"

definition dbfile_remove_hashes :: "int \<Rightarrow> int \<Rightarrow> int \<Rightarrow> database \<Rightarrow> int \<times> database" where
  "dbfile_remove_hashes brc erc fid db =
     (let (ret1, db) = remove_block_hashes brc fid db; (ret2, db) = dbfile_remove_extent_hashes erc fid db in (ret1 + ret2, db))"

definition insert_block :: "block_row \<Rightarrow> database \<Rightarrow> database option" where
  "insert_block row db =
     (if (\<exists>b \<in> set (blocks db). br_fileid b = br_fileid row \<and> br_loff b = br_loff row) \<or> br_fileid row \<notin> f_id ` set (files db) then None
      else Some (db\<lparr>blocks := blocks db @ [row]\<rparr>))"

definition insert_extent_row :: "extent_row \<Rightarrow> database \<Rightarrow> database option" where
  "insert_extent_row row db =
     (if (\<exists>e \<in> set (extents db). er_fileid e = er_fileid row \<and> er_loff e = er_loff row \<and> er_len e = er_len row) \<or>
        er_fileid row \<notin> f_id ` set (files db) then None
      else Some (db\<lparr>extents := extents db @ [row]\<rparr>))"

fun dbfile_store_block_hashes :: "(block_csum \<Rightarrow> int) \<Rightarrow> int \<Rightarrow> block_csum list \<Rightarrow> database \<Rightarrow> int \<times> database" where
  "dbfile_store_block_hashes rc fid [] db = (0, db)"
| "dbfile_store_block_hashes rc fid (h # hashes) db =
     (if rc h \<noteq> 0 then (rc h, db)
      else case insert_block \<lparr>br_digest = bc_digest h, br_fileid = fid, br_loff = bind_int64 (bc_loff h)\<rparr> db of
        None \<Rightarrow> (SQLITE_CONSTRAINT, db)
      | Some db \<Rightarrow> dbfile_store_block_hashes rc fid hashes db)"

fun dbfile_store_extent_hashes :: "(extent_csum \<Rightarrow> int) \<Rightarrow> int \<Rightarrow> extent_csum list \<Rightarrow> database \<Rightarrow> int \<times> database" where
  "dbfile_store_extent_hashes rc fid [] db = (0, db)"
| "dbfile_store_extent_hashes rc fid (h # hashes) db =
     (if ec_len h = 0 then dbfile_store_extent_hashes rc fid hashes db
      else if rc h \<noteq> 0 then (rc h, db)
      else case insert_extent_row \<lparr>er_digest = ec_digest h, er_fileid = fid, er_loff = bind_int64 (ec_loff h), er_poff = bind_int64 (ec_poff h),
          er_len = bind_int64 (ec_len h)\<rparr> db of
        None \<Rightarrow> (SQLITE_CONSTRAINT, db)
      | Some db \<Rightarrow> dbfile_store_extent_hashes rc fid hashes db)"

definition dbfile_update_scanned_file :: "int \<Rightarrow> int \<Rightarrow> digest \<Rightarrow> u32 \<Rightarrow> database \<Rightarrow> int \<times> database" where
  "dbfile_update_scanned_file rc fid digest flags db =
     (if rc \<noteq> 0 then (rc, db)
      else (0, db\<lparr>files := map (\<lambda>r. if f_id r = fid then r\<lparr>f_digest := Some digest, f_flags := Some (uint flags)\<rparr> else r) (files db)\<rparr>))"

definition dbfile_update_extent_poff :: "int \<Rightarrow> int \<Rightarrow> u64 \<Rightarrow> u64 \<Rightarrow> database \<Rightarrow> int \<times> database" where
  "dbfile_update_extent_poff rc fid loff poff db =
     (if rc \<noteq> 0 then (rc, db)
      else (0, db\<lparr>extents := map (\<lambda>e. if er_fileid e = fid \<and> er_loff e = bind_int64 loff then e\<lparr>er_poff := bind_int64 poff\<rparr> else e) (extents db)\<rparr>))"

definition dbfile_remove_file :: "int \<Rightarrow> string \<Rightarrow> database \<Rightarrow> int \<times> database" where
  "dbfile_remove_file rc name db = (if rc \<noteq> 0 then (rc, db) else (0, delete_files (\<lambda>r. f_filename r = name) db))"

text \<open>\<open>update or replace\<close>: another file with the new name is deleted.\<close>

definition dbfile_rename_file :: "int \<Rightarrow> int \<Rightarrow> string \<Rightarrow> database \<Rightarrow> int \<times> database" where
  "dbfile_rename_file rc fid path db =
     (if rc \<noteq> 0 then (rc, db)
      else if fid \<notin> f_id ` set (files db) then (0, db)
      else let db = delete_files (\<lambda>r. f_filename r = path \<and> f_id r \<noteq> fid) db in
        (0, db\<lparr>files := map (\<lambda>r. if f_id r = fid then r\<lparr>f_filename := path\<rparr> else r) (files db)\<rparr>))"

definition dbfile_prune_unscanned_files :: "int \<Rightarrow> database \<Rightarrow> int \<times> database" where
  "dbfile_prune_unscanned_files rc db = (if rc \<noteq> 0 then (rc, db) else (0, delete_files (\<lambda>r. f_digest r = None) db))"

text \<open>\<open>dbfile_describe_file\<close> fills four fields of a zeroed structure when there is a row.\<close>

definition dbfile_describe_file :: "int \<Rightarrow> u64 \<Rightarrow> u64 \<Rightarrow> database \<Rightarrow> db_file \<Rightarrow> int \<times> db_file" where
  "dbfile_describe_file rc ino subvol db dbfile =
     (if rc \<noteq> 0 then (rc, dbfile)
      else case List.find (\<lambda>r. f_ino r = bind_int64 ino \<and> f_subvol r = bind_int64 subvol) (files db) of
        None \<Rightarrow> (0, dbfile)
      | Some r \<Rightarrow> (0, dbfile\<lparr>df_mtime := column_int64 (f_mtime r), df_size := column_int64 (f_size r), df_filename := f_filename r, df_id := f_id r\<rparr>))"

definition get_max_dedupe_seq :: "int \<Rightarrow> database \<Rightarrow> u32" where
  "get_max_dedupe_seq rc db = (if rc \<noteq> 0 \<or> files db = [] then 0 else word_of_int (Max (f_dedupe_seq ` set (files db))))"

text \<open>The three counts, each with the code of its statement; a failure leaves the rest of the structure alone.\<close>

definition dbfile_get_stats :: "int \<Rightarrow> int \<Rightarrow> int \<Rightarrow> database \<Rightarrow> dbfile_stats \<Rightarrow> int \<times> dbfile_stats" where
  "dbfile_get_stats brc erc frc db stats =
     (if brc \<noteq> 0 then (brc, stats)
      else let stats = stats\<lparr>num_b_hashes := of_nat (length (blocks db))\<rparr> in
      if erc \<noteq> 0 then (erc, stats)
      else let stats = stats\<lparr>num_e_hashes := of_nat (length (extents db))\<rparr> in
      if frc \<noteq> 0 then (frc, stats)
      else (0, stats\<lparr>num_files := of_nat (length (files db))\<rparr>))"

definition count_file_by_digest :: "int \<Rightarrow> digest \<Rightarrow> bool \<Rightarrow> database \<Rightarrow> u64" where
  "count_file_by_digest rc digest show_block_hashes db =
     (if rc \<noteq> 0 then 0
      else let ids = (if show_block_hashes then br_fileid ` set (filter (\<lambda>b. br_digest b = digest) (blocks db))
                      else er_fileid ` set (filter (\<lambda>e. er_digest e = digest) (extents db))) in
        of_nat (card (f_filename ` set (filter (\<lambda>r. f_id r \<in> ids) (files db)))))"

section \<open>The configuration\<close>

definition sync_config :: "string \<Rightarrow> config_val \<Rightarrow> database \<Rightarrow> database" where
  "sync_config key v db = db\<lparr>config := filter (\<lambda>r. fst r \<noteq> key) (config db) @ [(key, v)]\<rparr>"

text \<open>
  \<open>unparse\<close> is \<open>uuid_unparse\<close> of libuuid. \<open>rc\<close> gives the code for each of the six statements; the
  first that fails ends the function.
\<close>

definition config_rows :: "(u8 list \<Rightarrow> string) \<Rightarrow> dbfile_config \<Rightarrow> (string \<times> config_val) list" where
  "config_rows unparse cfg = [(''hash_type'', CText (cfg_hash_type cfg)), (''block_size'', CInt (sint (cfg_blocksize cfg))),
     (''dedupe_sequence'', CInt (sint (cfg_dedupe_seq cfg))), (''version_minor'', CInt (cfg_minor cfg)),
     (''fs_uuid'', CText (unparse (cfg_fs_uuid cfg))), (''version_major'', CInt (cfg_major cfg))]"

fun sync_rows :: "(string \<Rightarrow> int) \<Rightarrow> (string \<times> config_val) list \<Rightarrow> database \<Rightarrow> int \<times> database" where
  "sync_rows rc [] db = (0, db)"
| "sync_rows rc ((key, v) # rows) db = (if rc key \<noteq> 0 then (rc key, db) else sync_rows rc rows (sync_config key v db))"

definition dbfile_sync_config :: "(string \<Rightarrow> int) \<Rightarrow> (u8 list \<Rightarrow> string) \<Rightarrow> dbfile_config \<Rightarrow> database \<Rightarrow> int \<times> database" where
  "dbfile_sync_config rc unparse cfg db = sync_rows rc (config_rows unparse cfg) db"

text \<open>
  The value of an \<open>int\<close> key or a text key; the default stays when there is no row. The program writes
  every key with one type, and a row of the other type is taken for none here.
\<close>

definition get_config_int :: "string \<Rightarrow> database \<Rightarrow> int \<Rightarrow> int" where
  "get_config_int name db val = (case map_of (config db) name of Some (CInt v) \<Rightarrow> v | _ \<Rightarrow> val)"

text \<open>
  \<open>val\<close> is the caller's buffer, of which \<open>memcpy\<close> overwrites the first \<open>len\<close> bytes; the text \<open>sqlite\<close> hands out
  ends with a NUL. What \<open>memcpy\<close> reads behind that NUL, when the text is shorter, no caller looks at,
  and the model leaves the buffer alone there.
\<close>

definition get_config_text :: "string \<Rightarrow> database \<Rightarrow> nat \<Rightarrow> string \<Rightarrow> string" where
  "get_config_text name db len val =
     (case map_of (config db) name of
        Some (CText s) \<Rightarrow> (let t = take len (s @ [CHR 0x00]) in t @ drop (length t) val)
      | _ \<Rightarrow> val)"

definition c_string :: "string \<Rightarrow> string" where
  "c_string s = takeWhile (\<lambda>c. c \<noteq> CHR 0x00) s"

abbreviation (input) DB_FILE_MAJOR :: int where "DB_FILE_MAJOR \<equiv> 4"
abbreviation (input) DB_FILE_MINOR :: int where "DB_FILE_MINOR \<equiv> 1"

definition HASH_TYPE :: string where
  "HASH_TYPE = ''XXHASH3 ''"

definition dbfile_config_defaults :: "u32 \<Rightarrow> dbfile_config" where
  "dbfile_config_defaults bs = \<lparr>cfg_blocksize = bs, cfg_major = DB_FILE_MAJOR, cfg_minor = DB_FILE_MINOR,
     cfg_hash_type = HASH_TYPE, cfg_dedupe_seq = 0, cfg_fs_uuid = replicate 16 0\<rparr>"

text \<open>
  \<open>parse\<close> is \<open>uuid_parse\<close> on the C string in the buffer: \<open>None\<close> leaves the uuid alone. The buffer
  \<open>char uuid[37]\<close> is not initialised, \<open>junk\<close> is what the stack holds there; 36 of its bytes are overwritten
  when there is a row, and the last byte never is.
\<close>

definition dbfile_get_config :: "(string \<Rightarrow> u8 list option) \<Rightarrow> string \<Rightarrow> u32 \<Rightarrow> database \<Rightarrow> dbfile_config" where
  "dbfile_get_config parse junk bs db =
     (let cfg = dbfile_config_defaults bs;
          cfg = cfg\<lparr>cfg_blocksize := word_of_int (get_config_int ''block_size'' db (sint (cfg_blocksize cfg)))\<rparr>;
          cfg = cfg\<lparr>cfg_hash_type := get_config_text ''hash_type'' db 8 (cfg_hash_type cfg)\<rparr>;
          cfg = cfg\<lparr>cfg_major := get_config_int ''version_major'' db (cfg_major cfg)\<rparr>;
          cfg = cfg\<lparr>cfg_minor := get_config_int ''version_minor'' db (cfg_minor cfg)\<rparr>;
          cfg = cfg\<lparr>cfg_dedupe_seq := word_of_int (get_config_int ''dedupe_sequence'' db (sint (cfg_dedupe_seq cfg)))\<rparr> in
      case parse (c_string (get_config_text ''fs_uuid'' db 36 junk)) of
        None \<Rightarrow> cfg
      | Some uuid \<Rightarrow> cfg\<lparr>cfg_fs_uuid := uuid\<rparr>)"

text \<open>\<open>strncasecmp\<close> on eight characters; the result is the code and the block size to use.\<close>

definition dbfile_check :: "dbfile_config \<Rightarrow> u32 \<Rightarrow> int \<times> u32" where
  "dbfile_check cfg bs =
     (if cfg_major cfg \<noteq> DB_FILE_MAJOR \<or> cfg_minor cfg \<noteq> DB_FILE_MINOR then (EIO, bs)
      else if map tolower (take 8 (cfg_hash_type cfg)) \<noteq> map tolower (take 8 HASH_TYPE) then (EINVAL, bs)
      else (0, cfg_blocksize cfg))"

section \<open>The constraints of the tables\<close>

definition db_inv :: "database \<Rightarrow> bool" where
  "db_inv db \<longleftrightarrow> distinct (map f_id (files db)) \<and> distinct (map (\<lambda>r. (f_ino r, f_subvol r)) (files db)) \<and>
     distinct (map f_filename (files db)) \<and>
     distinct (map (\<lambda>b. (br_fileid b, br_loff b)) (blocks db)) \<and> br_fileid ` set (blocks db) \<subseteq> f_id ` set (files db) \<and>
     distinct (map (\<lambda>e. (er_fileid e, er_loff e, er_len e)) (extents db)) \<and> er_fileid ` set (extents db) \<subseteq> f_id ` set (files db) \<and>
     distinct (map fst (config db))"

lemma db_inv_create: "db_inv create_tables"
  by (simp add: db_inv_def create_tables_def)

lemma delete_files_inv:
  assumes "db_inv db"
  shows "db_inv (delete_files P db)"
proof -
  have keep: "x \<in> f_id ` set (filter (\<lambda>r. \<not> P r) (files db))" if "x \<in> f_id ` set (files db)" "x \<notin> f_id ` set (filter P (files db))" for x
    using that by auto
  show ?thesis using assms keep unfolding db_inv_def delete_files_def Let_def
    by (auto simp: distinct_map_filter)
qed

lemma delete_files_files [simp]: "files (delete_files P db) = filter (\<lambda>r. \<not> P r) (files db)"
  by (simp add: delete_files_def Let_def)

lemma write_file_inv:
  assumes "db_inv db" "rowid \<notin> f_id ` set (files db)"
  shows "db_inv (write_file rowid dbfile db)"
proof -
  define row where "row = \<lparr>f_id = rowid, f_filename = df_filename dbfile, f_ino = bind_int64 (df_ino dbfile), f_subvol = bind_int64 (df_subvol dbfile),
    f_size = bind_int64 (df_size dbfile), f_mtime = bind_int64 (df_mtime dbfile), f_dedupe_seq = sint (df_dedupe_seq dbfile),
    f_digest = None, f_flags = None\<rparr>"
  define db1 where "db1 = delete_files (\<lambda>r. f_ino r = f_ino row \<and> f_subvol r = f_subvol row \<or> f_filename r = f_filename row) db"
  have w: "write_file rowid dbfile db = db1\<lparr>files := files db1 @ [row]\<rparr>"
    unfolding write_file_def Let_def row_def [symmetric] db1_def [symmetric] ..
  have "db_inv db1" unfolding db1_def by (rule delete_files_inv [OF assms(1)])
  moreover have "f_id row \<notin> f_id ` set (files db1)" using assms(2) by (auto simp: db1_def row_def)
  moreover have "(f_ino row, f_subvol row) \<notin> (\<lambda>r. (f_ino r, f_subvol r)) ` set (files db1)" "f_filename row \<notin> f_filename ` set (files db1)"
    by (auto simp: db1_def)
  ultimately show ?thesis unfolding w db_inv_def by auto
qed

lemma map_files_inv:
  assumes "db_inv db" "\<And>r. f_id (g r) = f_id r" "\<And>r. f_ino (g r) = f_ino r" "\<And>r. f_subvol (g r) = f_subvol r"
    "distinct (map f_filename (map g (files db)))"
  shows "db_inv (db\<lparr>files := map g (files db)\<rparr>)"
  using assms by (simp add: db_inv_def comp_def image_image)

lemma rename_inv:
  assumes "db_inv db"
  shows "db_inv (snd (dbfile_rename_file rc fid path db))"
proof (cases "rc \<noteq> 0 \<or> fid \<notin> f_id ` set (files db)")
  case True
  then show ?thesis using assms by (auto simp: dbfile_rename_file_def)
next
  case False
  define db1 where "db1 = delete_files (\<lambda>r. f_filename r = path \<and> f_id r \<noteq> fid) db"
  define g where "g = (\<lambda>r :: file_row. if f_id r = fid then r\<lparr>f_filename := path\<rparr> else r)"
  have i1: "db_inv db1" unfolding db1_def by (rule delete_files_inv [OF assms])
  have other: "f_filename r \<noteq> path \<or> f_id r = fid" if "r \<in> set (files db1)" for r using that by (auto simp: db1_def)
  have "distinct (map f_filename (map g (files db1)))"
  proof -
    have dn: "distinct (map f_filename (files db1))" "distinct (map f_id (files db1))" using i1 by (auto simp: db_inv_def)
    have "inj_on (\<lambda>r. f_filename (g r)) (set (files db1))"
    proof (rule inj_onI)
      fix r r' assume r: "r \<in> set (files db1)" "r' \<in> set (files db1)" "f_filename (g r) = f_filename (g r')"
      consider "f_id r = fid" "f_id r' = fid" | "f_id r = fid" "f_id r' \<noteq> fid" | "f_id r \<noteq> fid" "f_id r' = fid" | "f_id r \<noteq> fid" "f_id r' \<noteq> fid" by blast
      then show "r = r'"
      proof cases
        case 1 then show ?thesis using dn(2) r(1,2) by (metis distinct_map inj_onD)
      next
        case 2 then show ?thesis using r other [OF r(2)] by (simp add: g_def)
      next
        case 3 then show ?thesis using r other [OF r(1)] by (simp add: g_def)
      next
        case 4 then show ?thesis using dn(1) r by (metis distinct_map g_def inj_onD)
      qed
    qed
    moreover have "distinct (files db1)" using dn(2) by (simp add: distinct_map)
    ultimately show ?thesis by (simp add: distinct_map comp_def)
  qed
  moreover have "f_id (g r) = f_id r" "f_ino (g r) = f_ino r" "f_subvol (g r) = f_subvol r" for r by (simp_all add: g_def)
  ultimately have "db_inv (db1\<lparr>files := map g (files db1)\<rparr>)" using map_files_inv [OF i1, of g] by blast
  then show ?thesis using False by (simp add: dbfile_rename_file_def Let_def db1_def g_def)
qed

lemma insert_block_inv:
  assumes "db_inv db" "insert_block row db = Some db'"
  shows "db_inv db'"
proof -
  have n: "\<not> (\<exists>b \<in> set (blocks db). br_fileid b = br_fileid row \<and> br_loff b = br_loff row)" "br_fileid row \<in> f_id ` set (files db)"
    "db' = db\<lparr>blocks := blocks db @ [row]\<rparr>" using assms(2) by (simp_all add: insert_block_def split: if_splits)
  then have "(br_fileid row, br_loff row) \<notin> (\<lambda>b. (br_fileid b, br_loff b)) ` set (blocks db)" by force
  then show ?thesis using assms(1) n(2) unfolding n(3) by (simp add: db_inv_def)
qed

lemma insert_extent_row_inv:
  assumes "db_inv db" "insert_extent_row row db = Some db'"
  shows "db_inv db'"
proof -
  have n: "\<not> (\<exists>e \<in> set (extents db). er_fileid e = er_fileid row \<and> er_loff e = er_loff row \<and> er_len e = er_len row)"
    "er_fileid row \<in> f_id ` set (files db)" "db' = db\<lparr>extents := extents db @ [row]\<rparr>"
    using assms(2) by (simp_all add: insert_extent_row_def split: if_splits)
  then have "(er_fileid row, er_loff row, er_len row) \<notin> (\<lambda>e. (er_fileid e, er_loff e, er_len e)) ` set (extents db)" by force
  then show ?thesis using assms(1) n(2) unfolding n(3) by (simp add: db_inv_def)
qed

lemma store_blocks_inv: "db_inv db \<Longrightarrow> db_inv (snd (dbfile_store_block_hashes rc fid hashes db))"
  by (induction rc fid hashes db rule: dbfile_store_block_hashes.induct) (auto split: option.split dest: insert_block_inv)

lemma store_extents_inv: "db_inv db \<Longrightarrow> db_inv (snd (dbfile_store_extent_hashes rc fid hashes db))"
  by (induction rc fid hashes db rule: dbfile_store_extent_hashes.induct) (auto split: option.split dest: insert_extent_row_inv)

lemma filter_hashes_inv:
  "db_inv db \<Longrightarrow> db_inv (db\<lparr>blocks := filter P (blocks db)\<rparr>)" "db_inv db \<Longrightarrow> db_inv (db\<lparr>extents := filter Q (extents db)\<rparr>)"
  by (auto simp: db_inv_def distinct_map_filter)

lemma remove_hashes_inv:
  "db_inv db \<Longrightarrow> db_inv (snd (dbfile_remove_extent_hashes rc fid db))"
  "db_inv db \<Longrightarrow> db_inv (snd (remove_block_hashes rc fid db))"
  by (auto simp: dbfile_remove_extent_hashes_def remove_block_hashes_def intro: filter_hashes_inv)

lemma remove_all_hashes_inv: "db_inv db \<Longrightarrow> db_inv (snd (dbfile_remove_hashes brc erc fid db))"
proof -
  assume "db_inv db"
  then have "db_inv (snd (dbfile_remove_extent_hashes erc fid (snd (remove_block_hashes brc fid db))))" by (simp add: remove_hashes_inv)
  then show ?thesis by (simp add: dbfile_remove_hashes_def split_beta Let_def)
qed

lemma update_scanned_inv: "db_inv db \<Longrightarrow> db_inv (snd (dbfile_update_scanned_file rc fid digest flags db))"
proof -
  assume i: "db_inv db"
  let ?g = "\<lambda>r. if f_id r = fid then r\<lparr>f_digest := Some digest, f_flags := Some (uint flags)\<rparr> else r"
  have "map f_filename (map ?g (files db)) = map f_filename (files db)" by (simp add: comp_def)
  then have "distinct (map f_filename (map ?g (files db)))" using i by (simp only: db_inv_def)
  then show ?thesis using i map_files_inv [OF i, of ?g] by (simp add: dbfile_update_scanned_file_def)
qed

lemma update_poff_inv: "db_inv db \<Longrightarrow> db_inv (snd (dbfile_update_extent_poff rc fid loff poff db))"
proof -
  assume i: "db_inv db"
  let ?g = "\<lambda>e. if er_fileid e = fid \<and> er_loff e = bind_int64 loff then e\<lparr>er_poff := bind_int64 poff\<rparr> else e"
  have "map (\<lambda>e. (er_fileid e, er_loff e, er_len e)) (map ?g (extents db)) = map (\<lambda>e. (er_fileid e, er_loff e, er_len e)) (extents db)"
    "map er_fileid (map ?g (extents db)) = map er_fileid (extents db)" by (simp_all add: comp_def)
  then have d: "distinct (map (\<lambda>e. (er_fileid e, er_loff e, er_len e)) (map ?g (extents db)))"
    and "set (map er_fileid (map ?g (extents db))) = set (map er_fileid (extents db))"
    using i unfolding db_inv_def by presburger+
  then have f: "er_fileid ` set (map ?g (extents db)) \<subseteq> f_id ` set (files db)" using i unfolding db_inv_def set_map by blast
  show ?thesis
  proof (cases "rc = 0")
    case True
    have "snd (dbfile_update_extent_poff rc fid loff poff db) = db\<lparr>extents := map ?g (extents db)\<rparr>"
      using True by (simp add: dbfile_update_extent_poff_def)
    with d f i show ?thesis unfolding db_inv_def by (simp del: map_map set_map)
  qed (use i in \<open>simp add: dbfile_update_extent_poff_def\<close>)
qed

lemma sync_config_inv: "db_inv db \<Longrightarrow> db_inv (sync_config key v db)"
  by (auto simp: db_inv_def sync_config_def distinct_map_filter)

lemma sync_rows_inv: "db_inv db \<Longrightarrow> db_inv (snd (sync_rows rc rows db))"
  by (induction rc rows db rule: sync_rows.induct) (auto intro: sync_config_inv)

section \<open>The database as a state machine\<close>

text \<open>The database and what a rollback goes back to; every call of the program is a step.\<close>

inductive db_step :: "database \<times> database \<Rightarrow> database \<times> database \<Rightarrow> bool" where
  begin_trans: "db_step (db, saved) (db, db)"
| abort_trans: "db_step (db, saved) (saved, saved)"
| commit_trans: "db_step (db, saved) (db, db)"
| store_file: "rowid \<notin> f_id ` set (files db) \<Longrightarrow> db_step (db, saved) (snd (dbfile_store_file_info rc rowid dbfile db), saved)"
| remove_hashes: "db_step (db, saved) (snd (dbfile_remove_hashes brc erc fid db), saved)"
| remove_extents: "db_step (db, saved) (snd (dbfile_remove_extent_hashes rc fid db), saved)"
| store_blocks: "db_step (db, saved) (snd (dbfile_store_block_hashes rcb fid bs db), saved)"
| store_extents: "db_step (db, saved) (snd (dbfile_store_extent_hashes rce fid es db), saved)"
| update_scanned: "db_step (db, saved) (snd (dbfile_update_scanned_file rc fid digest flags db), saved)"
| update_poff: "db_step (db, saved) (snd (dbfile_update_extent_poff rc fid loff poff db), saved)"
| remove_file: "db_step (db, saved) (snd (dbfile_remove_file rc name db), saved)"
| rename_file: "db_step (db, saved) (snd (dbfile_rename_file rc fid path db), saved)"
| prune_unscanned: "db_step (db, saved) (snd (dbfile_prune_unscanned_files rc db), saved)"
| sync_cfg: "db_step (db, saved) (snd (dbfile_sync_config rck unparse cfg db), saved)"

inductive_cases db_stepE: "db_step s s'"

lemmas db_op_inv = delete_files_inv write_file_inv rename_inv store_blocks_inv store_extents_inv remove_hashes_inv
  remove_all_hashes_inv update_scanned_inv update_poff_inv sync_rows_inv

lemma db_step_inv: "db_step s s' \<Longrightarrow> db_inv (fst s) \<and> db_inv (snd s) \<Longrightarrow> db_inv (fst s') \<and> db_inv (snd s')"
  by (induction rule: db_step.induct)
    (auto simp: dbfile_store_file_info_def dbfile_remove_file_def dbfile_prune_unscanned_files_def dbfile_sync_config_def intro: db_op_inv)

lemma db_reach_inv: "db_step\<^sup>*\<^sup>* s s' \<Longrightarrow> db_inv (fst s) \<and> db_inv (snd s) \<Longrightarrow> db_inv (fst s') \<and> db_inv (snd s')"
  by (induction rule: rtranclp_induct) (auto dest: db_step_inv)

text \<open>Every offset in the tables was bound from 64 bits, so reading it back loses nothing.\<close>

definition in_64_bits :: "database \<Rightarrow> bool" where
  "in_64_bits db \<longleftrightarrow> er_loff ` set (extents db) \<subseteq> range bind_int64 \<and> br_loff ` set (blocks db) \<subseteq> range bind_int64"

lemma in_64_bits_mono:
  "in_64_bits db \<Longrightarrow> set (extents db') \<subseteq> set (extents db) \<Longrightarrow> set (blocks db') \<subseteq> set (blocks db) \<Longrightarrow> in_64_bits db'"
  unfolding in_64_bits_def by blast

lemma in_64_bits_extents: "in_64_bits db \<Longrightarrow> e \<in> set (extents db) \<Longrightarrow> er_loff e \<in> range bind_int64"
  unfolding in_64_bits_def by blast

lemma in_64_bits_blocks: "in_64_bits db \<Longrightarrow> b \<in> set (blocks db) \<Longrightarrow> br_loff b \<in> range bind_int64"
  unfolding in_64_bits_def by blast

lemma store_blocks_64: "in_64_bits db \<Longrightarrow> in_64_bits (snd (dbfile_store_block_hashes rc fid hashes db))"
proof (induction rc fid hashes db rule: dbfile_store_block_hashes.induct)
  case (2 rc fid h hashes db)
  then show ?case by (auto simp: in_64_bits_def insert_block_def split: option.split)
qed simp

lemma store_extents_64: "in_64_bits db \<Longrightarrow> in_64_bits (snd (dbfile_store_extent_hashes rc fid hashes db))"
proof (induction rc fid hashes db rule: dbfile_store_extent_hashes.induct)
  case (2 rc fid h hashes db)
  then show ?case by (auto simp: in_64_bits_def insert_extent_row_def split: option.split)
qed simp

lemma update_poff_64: "in_64_bits db \<Longrightarrow> in_64_bits (snd (dbfile_update_extent_poff rc fid loff poff db))"
  by (auto simp: in_64_bits_def dbfile_update_extent_poff_def)

lemma config_64 [simp]: "in_64_bits (db\<lparr>config := c\<rparr>) \<longleftrightarrow> in_64_bits db" "in_64_bits (db\<lparr>files := fs\<rparr>) \<longleftrightarrow> in_64_bits db"
  by (simp_all add: in_64_bits_def)

lemma delete_files_64: "in_64_bits db \<Longrightarrow> in_64_bits (delete_files P db)"
  by (erule in_64_bits_mono) (auto simp: delete_files_def Let_def)

lemma sync_rows_64: "in_64_bits db \<Longrightarrow> in_64_bits (snd (sync_rows rc rows db))"
  by (induction rc rows db rule: sync_rows.induct) (auto simp: sync_config_def)

lemma remove_hashes_64:
  "in_64_bits db \<Longrightarrow> in_64_bits (snd (dbfile_remove_extent_hashes rc fid db))"
  "in_64_bits db \<Longrightarrow> in_64_bits (snd (remove_block_hashes rc fid db))"
  by (erule in_64_bits_mono; auto simp: dbfile_remove_extent_hashes_def remove_block_hashes_def)+

lemma remove_all_hashes_64: "in_64_bits db \<Longrightarrow> in_64_bits (snd (dbfile_remove_hashes brc erc fid db))"
  by (simp add: dbfile_remove_hashes_def split_beta Let_def remove_hashes_64)

lemmas db_op_64 = delete_files_64 store_blocks_64 store_extents_64 remove_hashes_64 remove_all_hashes_64 update_poff_64 sync_rows_64

lemma db_step_64: "db_step s s' \<Longrightarrow> in_64_bits (fst s) \<and> in_64_bits (snd s) \<Longrightarrow> in_64_bits (fst s') \<and> in_64_bits (snd s')"
  by (induction rule: db_step.induct)
    (auto simp: dbfile_store_file_info_def write_file_def Let_def dbfile_remove_file_def dbfile_prune_unscanned_files_def dbfile_sync_config_def
      dbfile_update_scanned_file_def dbfile_rename_file_def intro: db_op_64)

lemma db_reach_64: "db_step\<^sup>*\<^sup>* s s' \<Longrightarrow> in_64_bits (fst s) \<and> in_64_bits (snd s) \<Longrightarrow> in_64_bits (fst s') \<and> in_64_bits (snd s')"
  by (induction rule: rtranclp_induct) (auto dest: db_step_64)

text \<open>
  What no constraint of the tables asks for: lengths are positive and every number was bound from 64
  bits, so reading it back loses nothing; a file has flags exactly when it has a digest.
\<close>

definition rows_ok :: "database \<Rightarrow> bool" where
  "rows_ok db \<longleftrightarrow> (\<forall>e \<in> set (extents db). er_len e \<in> bind_int64 ` (- {0}) \<and> er_loff e \<in> range bind_int64 \<and> er_poff e \<in> range bind_int64) \<and>
     (\<forall>b \<in> set (blocks db). br_loff b \<in> range bind_int64) \<and> (\<forall>r \<in> set (files db). (f_digest r = None) = (f_flags r = None))"

lemma rows_ok_mono:
  "rows_ok db \<Longrightarrow> set (extents db') \<subseteq> set (extents db) \<Longrightarrow> set (blocks db') \<subseteq> set (blocks db) \<Longrightarrow> set (files db') \<subseteq> set (files db) \<Longrightarrow> rows_ok db'"
  unfolding rows_ok_def by blast

lemma insert_rows:
  "rows_ok db \<Longrightarrow> insert_block row db = Some db' \<Longrightarrow> br_loff row \<in> range bind_int64 \<Longrightarrow> rows_ok db'"
  "rows_ok db \<Longrightarrow> insert_extent_row erow db = Some db' \<Longrightarrow> er_len erow \<in> bind_int64 ` (- {0}) \<Longrightarrow> er_loff erow \<in> range bind_int64 \<Longrightarrow>
   er_poff erow \<in> range bind_int64 \<Longrightarrow> rows_ok db'"
  unfolding rows_ok_def insert_block_def insert_extent_row_def by (simp_all split: if_split_asm) auto

lemma store_blocks_rows: "rows_ok db \<Longrightarrow> rows_ok (snd (dbfile_store_block_hashes rc fid hashes db))"
proof (induction rc fid hashes db rule: dbfile_store_block_hashes.induct)
  case (2 rc fid h hashes db)
  then show ?case by (auto split: option.split dest: insert_rows(1))
qed simp

lemma store_extents_rows: "rows_ok db \<Longrightarrow> rows_ok (snd (dbfile_store_extent_hashes rc fid hashes db))"
proof (induction rc fid hashes db rule: dbfile_store_extent_hashes.induct)
  case (2 rc fid h hashes db)
  then show ?case by (auto split: option.split dest: insert_rows(2))
qed simp

lemma delete_files_rows: "rows_ok db \<Longrightarrow> rows_ok (delete_files P db)"
  by (erule rows_ok_mono) (auto simp: delete_files_def Let_def)

lemma config_rows_ok [simp]: "rows_ok (db\<lparr>config := c\<rparr>) \<longleftrightarrow> rows_ok db"
  by (simp add: rows_ok_def)

lemma sync_rows_rows: "rows_ok db \<Longrightarrow> rows_ok (snd (sync_rows rc rows db))"
  by (induction rc rows db rule: sync_rows.induct) (auto simp: sync_config_def)

lemma remove_hashes_rows:
  "rows_ok db \<Longrightarrow> rows_ok (snd (dbfile_remove_extent_hashes rc fid db))"
  "rows_ok db \<Longrightarrow> rows_ok (snd (remove_block_hashes rc fid db))"
  by (erule rows_ok_mono; auto simp: dbfile_remove_extent_hashes_def remove_block_hashes_def)+

lemma remove_all_hashes_rows: "rows_ok db \<Longrightarrow> rows_ok (snd (dbfile_remove_hashes brc erc fid db))"
  by (simp add: dbfile_remove_hashes_def split_beta Let_def remove_hashes_rows)

lemma update_rows:
  "rows_ok db \<Longrightarrow> rows_ok (snd (dbfile_update_extent_poff rc fid loff poff db))"
  "rows_ok db \<Longrightarrow> rows_ok (snd (dbfile_update_scanned_file rc fid digest flags db))"
  by (auto simp: rows_ok_def dbfile_update_extent_poff_def dbfile_update_scanned_file_def)

lemma write_file_rows: "rows_ok db \<Longrightarrow> rows_ok (write_file rowid dbfile db)"
  unfolding write_file_def Let_def by (drule delete_files_rows) (auto simp: rows_ok_def)

lemma rename_rows: "rows_ok db \<Longrightarrow> rows_ok (snd (dbfile_rename_file rc fid path db))"
  unfolding dbfile_rename_file_def Let_def using delete_files_rows [of db "\<lambda>r. f_filename r = path \<and> f_id r \<noteq> fid"]
  by (auto simp: rows_ok_def)

lemmas db_op_rows = delete_files_rows store_blocks_rows store_extents_rows remove_hashes_rows remove_all_hashes_rows update_rows
  sync_rows_rows write_file_rows rename_rows

lemma db_step_rows: "db_step s s' \<Longrightarrow> rows_ok (fst s) \<and> rows_ok (snd s) \<Longrightarrow> rows_ok (fst s') \<and> rows_ok (snd s')"
  by (induction rule: db_step.induct)
    (auto simp: dbfile_store_file_info_def dbfile_remove_file_def dbfile_prune_unscanned_files_def dbfile_sync_config_def intro: db_op_rows)

lemma db_reach_rows: "db_step\<^sup>*\<^sup>* s s' \<Longrightarrow> rows_ok (fst s) \<and> rows_ok (snd s) \<Longrightarrow> rows_ok (fst s') \<and> rows_ok (snd s')"
  by (induction rule: rtranclp_induct) (auto dest: db_step_rows)

definition db_reachable :: "database \<Rightarrow> bool" where
  "db_reachable db \<longleftrightarrow> (\<exists>saved. db_step\<^sup>*\<^sup>* (create_tables, create_tables) (db, saved))"

lemma db_reachable_ok:
  assumes "db_reachable db"
  shows "db_inv db" "in_64_bits db"
proof -
  obtain saved where s: "db_step\<^sup>*\<^sup>* (create_tables, create_tables) (db, saved)" using assms unfolding db_reachable_def ..
  show "db_inv db" using db_reach_inv [OF s] db_inv_create by simp
  have "in_64_bits create_tables" by (simp add: in_64_bits_def create_tables_def)
  with db_reach_64 [OF s] show "in_64_bits db" by simp
qed

lemma db_reachable_create: "db_reachable create_tables"
  unfolding db_reachable_def by blast

lemma db_reachable_step: "db_reachable db \<Longrightarrow> (\<And>saved. db_step (db, saved) (db', saved)) \<Longrightarrow> db_reachable db'"
  unfolding db_reachable_def by (meson rtranclp.rtrancl_into_rtrancl)

section \<open>The properties of the hash file\<close>

text \<open>
  C11. In every state the calls of the program can bring the hash file into, in any order, with errors
  and rollbacks anywhere: the ids, the names and the pairs of inode number and subvolume of the files
  are unique, no block or extent is stored twice for a file, and every block and extent belongs to a
  file that is there. Beyond the constraints of the tables: no extent of length 0 is stored, every
  offset and length is one that 64 bits hold, and a file has flags exactly when it has a digest.
\<close>

theorem db_reachable_inv:
  assumes "db_step\<^sup>*\<^sup>* (create_tables, create_tables) (db, saved)"
  shows "db_inv db \<and> rows_ok db"
proof -
  have "rows_ok create_tables" by (simp add: rows_ok_def create_tables_def)
  then show ?thesis using db_reach_inv [OF assms] db_reach_rows [OF assms] db_inv_create by simp
qed

definition example_db_file :: db_file where
  "example_db_file = \<lparr>df_id = 0, df_filename = ''/a'', df_ino = 7, df_subvol = 0, df_size = 3, df_mtime = 9, df_dedupe_seq = 1\<rparr>"

text \<open>A file is stored, an extent of it, another name is removed.\<close>

theorem db_reachable_inv_witness:
  "db_inv (snd (dbfile_remove_file 0 ''/b'' (snd (dbfile_store_extent_hashes (\<lambda>_. 0) 1 [\<lparr>ec_loff = 0, ec_poff = 4096, ec_len = 3, ec_digest = []\<rparr>]
     (snd (dbfile_store_file_info 0 1 example_db_file create_tables)))))) \<and>
   rows_ok (snd (dbfile_remove_file 0 ''/b'' (snd (dbfile_store_extent_hashes (\<lambda>_. 0) 1 [\<lparr>ec_loff = 0, ec_poff = 4096, ec_len = 3, ec_digest = []\<rparr>]
     (snd (dbfile_store_file_info 0 1 example_db_file create_tables))))))"
proof -
  have "db_step (create_tables, create_tables) (snd (dbfile_store_file_info 0 1 example_db_file create_tables), create_tables)"
    by (rule db_step.store_file) (simp add: create_tables_def)
  then have "db_step\<^sup>*\<^sup>* (create_tables, create_tables)
      (snd (dbfile_remove_file 0 ''/b'' (snd (dbfile_store_extent_hashes (\<lambda>_. 0) 1 [\<lparr>ec_loff = 0, ec_poff = 4096, ec_len = 3, ec_digest = []\<rparr>]
        (snd (dbfile_store_file_info 0 1 example_db_file create_tables))))), create_tables)"
    by (meson db_step.remove_file db_step.store_extents r_into_rtranclp rtranclp.rtrancl_into_rtrancl)
  then show ?thesis by (rule db_reachable_inv)
qed

lemma sync_config_lookup: "map_of (config (sync_config key v db)) = (map_of (config db))(key \<mapsto> v)"
proof
  fix k
  have "map_of (filter (\<lambda>r. fst r \<noteq> key) xs) k = (if k = key then None else map_of xs k)" for xs :: "(string \<times> config_val) list"
    by (induction xs) auto
  then show "map_of (config (sync_config key v db)) k = ((map_of (config db))(key \<mapsto> v)) k"
    by (auto simp: sync_config_def map_add_def split: option.split)
qed

lemma get_text_synced:
  "map_of (config db) name = Some (CText s) \<Longrightarrow> length s = len \<Longrightarrow> get_config_text name db len val = s @ drop len val"
  by (simp add: get_config_text_def)

lemma c_string_36:
  assumes "length s = 36" "CHR 0x00 \<notin> set s" "length junk = 37"
  shows "c_string (s @ drop 36 junk) = (if junk ! 36 = CHR 0x00 then s else s @ [junk ! 36])"
proof -
  have "drop 36 junk = [junk ! 36]" using assms(3) by (simp add: Cons_nth_drop_Suc [symmetric])
  then show ?thesis using assms(2) by (auto simp: c_string_def takeWhile_append)
qed

text \<open>
  C31. What is read back of a configuration that was written, whatever the table held before and
  whatever the block size of the program is: every field but the uuid is what was stored. The uuid is
  read back when the byte behind the text happens to be 0; that byte is never written, and when it is
  not 0 the text has 37 characters for \<open>uuid_parse\<close>, which refuses it, and the uuid read is the null one.
  Of libuuid: the text of a uuid has 36 characters, none of them NUL, and \<open>uuid_parse\<close> takes no text of
  another length and gives back the uuid of this one.
\<close>

theorem config_roundtrip:
  assumes "parse (unparse (cfg_fs_uuid cfg)) = Some (cfg_fs_uuid cfg)" "length (unparse (cfg_fs_uuid cfg)) = 36"
    and "CHR 0x00 \<notin> set (unparse (cfg_fs_uuid cfg))" "\<forall>t u. parse t = Some u \<longrightarrow> length t = 36"
    and "length (cfg_hash_type cfg) = 8" "length junk = 37"
  shows "dbfile_get_config parse junk bs (snd (dbfile_sync_config (\<lambda>_. 0) unparse cfg db)) =
    (if junk ! 36 = CHR 0x00 then cfg else cfg\<lparr>cfg_fs_uuid := replicate 16 0\<rparr>)"
proof -
  define db' where "db' = snd (dbfile_sync_config (\<lambda>_. 0) unparse cfg db)"
  have rows: "map_of (config db') ''fs_uuid'' = Some (CText (unparse (cfg_fs_uuid cfg)))"
      "map_of (config db') ''hash_type'' = Some (CText (cfg_hash_type cfg))" "get_config_int ''block_size'' db' b = sint (cfg_blocksize cfg)"
      "get_config_int ''dedupe_sequence'' db' b = sint (cfg_dedupe_seq cfg)" "get_config_int ''version_minor'' db' b = cfg_minor cfg"
      "get_config_int ''version_major'' db' b = cfg_major cfg" for b
    by (simp_all add: db'_def dbfile_sync_config_def config_rows_def sync_config_lookup get_config_int_def)
  have ht: "get_config_text ''hash_type'' db' 8 HASH_TYPE = cfg_hash_type cfg"
    using get_text_synced [OF rows(2) assms(5)] by (simp add: HASH_TYPE_def)
  have "parse (unparse (cfg_fs_uuid cfg) @ [c]) = None" for c
    using assms(4) [rule_format, of "unparse (cfg_fs_uuid cfg) @ [c]"] assms(2) by (cases "parse (unparse (cfg_fs_uuid cfg) @ [c])") auto
  then have "parse (c_string (get_config_text ''fs_uuid'' db' 36 junk)) = (if junk ! 36 = CHR 0x00 then Some (cfg_fs_uuid cfg) else None)"
    using get_text_synced [OF rows(1) assms(2)] c_string_36 [OF assms(2,3,6)] assms(1) by simp
  then show ?thesis unfolding db'_def [symmetric] by (simp add: dbfile_get_config_def Let_def dbfile_config_defaults_def rows ht)
qed

text \<open>For the example the text of a uuid is its bytes, each as a character that is not 0, and twenty more characters.\<close>

definition example_unparse :: "u8 list \<Rightarrow> string" where
  "example_unparse u = map (\<lambda>b. if b = 7 then CHR ''7'' else CHR ''0'') u @ replicate 20 (CHR ''-'')"

definition example_parse :: "string \<Rightarrow> u8 list option" where
  "example_parse t = (if length t = 36 then Some (map (\<lambda>c. if c = CHR ''7'' then 7 else 0) (take 16 t)) else None)"

theorem config_roundtrip_witness:
  "dbfile_get_config example_parse (replicate 37 (CHR 0x00)) 4096 (snd (dbfile_sync_config (\<lambda>_. 0) example_unparse
     ((dbfile_config_defaults 131072)\<lparr>cfg_fs_uuid := replicate 16 7\<rparr>) create_tables)) = (dbfile_config_defaults 131072)\<lparr>cfg_fs_uuid := replicate 16 7\<rparr> \<and>
   dbfile_get_config example_parse (replicate 37 (CHR ''x'')) 4096 (snd (dbfile_sync_config (\<lambda>_. 0) example_unparse
     ((dbfile_config_defaults 131072)\<lparr>cfg_fs_uuid := replicate 16 7\<rparr>) create_tables)) = dbfile_config_defaults 131072"
proof -
  have "dbfile_get_config example_parse (replicate 37 c) 4096 (snd (dbfile_sync_config (\<lambda>_. 0) example_unparse
      ((dbfile_config_defaults 131072)\<lparr>cfg_fs_uuid := replicate 16 7\<rparr>) create_tables)) =
     (if replicate 37 c ! 36 = CHR 0x00 then (dbfile_config_defaults 131072)\<lparr>cfg_fs_uuid := replicate 16 7\<rparr>
      else (dbfile_config_defaults 131072)\<lparr>cfg_fs_uuid := replicate 16 7, cfg_fs_uuid := replicate 16 0\<rparr>)" for c
    by (rule config_roundtrip) (auto simp: dbfile_config_defaults_def HASH_TYPE_def example_parse_def example_unparse_def split: if_splits)
  from this [of "CHR 0x00"] this [of "CHR ''x''"] show ?thesis by (simp add: dbfile_config_defaults_def)
qed

lemma column_bind [simp]: "column_int64 (bind_int64 w) = w"
  by (simp add: bind_int64_def column_int64_def)

lemma bind_int64_eq [simp]: "bind_int64 v = bind_int64 w \<longleftrightarrow> v = w"
  by (metis column_bind)

lemma bind_int64_mem [simp]: "bind_int64 v \<in> bind_int64 ` S \<longleftrightarrow> v \<in> S"
  by (auto simp: image_iff)

text \<open>The rows the two arrays of a scan become.\<close>

definition block_rows :: "int \<Rightarrow> block_csum list \<Rightarrow> block_row list" where
  "block_rows fid = map (\<lambda>h. \<lparr>br_digest = bc_digest h, br_fileid = fid, br_loff = bind_int64 (bc_loff h)\<rparr>)"

definition extent_rows :: "int \<Rightarrow> extent_csum list \<Rightarrow> extent_row list" where
  "extent_rows fid hs = map (\<lambda>h. \<lparr>er_digest = ec_digest h, er_fileid = fid, er_loff = bind_int64 (ec_loff h),
     er_poff = bind_int64 (ec_poff h), er_len = bind_int64 (ec_len h)\<rparr>) (filter (\<lambda>h. ec_len h \<noteq> 0) hs)"

lemma store_blocks_ok:
  "fid \<in> f_id ` set (files db) \<Longrightarrow> distinct (map bc_loff hs) \<Longrightarrow>
   \<forall>b \<in> set (blocks db). br_fileid b = fid \<longrightarrow> br_loff b \<notin> bind_int64 ` bc_loff ` set hs \<Longrightarrow>
   dbfile_store_block_hashes (\<lambda>_. 0) fid hs db = (0, db\<lparr>blocks := blocks db @ block_rows fid hs\<rparr>)"
proof (induction hs arbitrary: db)
  case (Cons h hs)
  let ?row = "\<lparr>br_digest = bc_digest h, br_fileid = fid, br_loff = bind_int64 (bc_loff h)\<rparr>"
  have "insert_block ?row db = Some (db\<lparr>blocks := blocks db @ [?row]\<rparr>)" using Cons.prems by (auto simp: insert_block_def)
  moreover have "dbfile_store_block_hashes (\<lambda>_. 0) fid hs (db\<lparr>blocks := blocks db @ [?row]\<rparr>) =
      (0, db\<lparr>blocks := (blocks db @ [?row]) @ block_rows fid hs\<rparr>)"
    using Cons.IH [of "db\<lparr>blocks := blocks db @ [?row]\<rparr>"] Cons.prems by auto
  ultimately show ?case by (simp add: block_rows_def)
qed (simp add: block_rows_def)

lemma store_extents_ok:
  "fid \<in> f_id ` set (files db) \<Longrightarrow> distinct (map ec_loff hs) \<Longrightarrow>
   \<forall>e \<in> set (extents db). er_fileid e = fid \<longrightarrow> er_loff e \<notin> bind_int64 ` ec_loff ` set hs \<Longrightarrow>
   dbfile_store_extent_hashes (\<lambda>_. 0) fid hs db = (0, db\<lparr>extents := extents db @ extent_rows fid hs\<rparr>)"
proof (induction hs arbitrary: db)
  case (Cons h hs)
  let ?row = "\<lparr>er_digest = ec_digest h, er_fileid = fid, er_loff = bind_int64 (ec_loff h), er_poff = bind_int64 (ec_poff h),
    er_len = bind_int64 (ec_len h)\<rparr>"
  show ?case
  proof (cases "ec_len h = 0")
    case True
    then show ?thesis using Cons by (simp add: extent_rows_def)
  next
    case False
    have "insert_extent_row ?row db = Some (db\<lparr>extents := extents db @ [?row]\<rparr>)" using Cons.prems by (auto simp: insert_extent_row_def)
    moreover have "dbfile_store_extent_hashes (\<lambda>_. 0) fid hs (db\<lparr>extents := extents db @ [?row]\<rparr>) =
        (0, db\<lparr>extents := (extents db @ [?row]) @ extent_rows fid hs\<rparr>)"
      using Cons.IH [of "db\<lparr>extents := extents db @ [?row]\<rparr>"] Cons.prems by auto
    ultimately show ?thesis using False by (simp add: extent_rows_def)
  qed
qed (simp add: extent_rows_def)

section \<open>Opening the hash file\<close>

text \<open>
  What the calls of \<open>dbfile_prepare\<close> answer. \<open>prep_on_disk\<close> is false for the database in memory, whose
  path is \<open>(null)\<close>; \<open>prep_unlink\<close> is 0 or the \<open>errno\<close> of \<open>unlink\<close>; \<open>prep_modes\<close> is the code of the pragmas.
\<close>

record prep_env =
  prep_tables :: int
  prep_indexes :: int
  prep_dbpath :: int
  prep_chmod :: int
  prep_config :: int
  prep_modes :: int
  prep_sync :: "string \<Rightarrow> int"
  prep_on_disk :: bool
  prep_unlink :: int
  prep_parse :: "string \<Rightarrow> u8 list option"
  prep_unparse :: "u8 list \<Rightarrow> string"
  prep_junk :: string

abbreviation (input) SQLITE_MISUSE :: int where "SQLITE_MISUSE \<equiv> 21"

text \<open>
  \<open>dbfile_prepare\<close> on the database \<open>db\<close> with the block size \<open>bs\<close>: the code, the block size to use, and the
  database. \<open>create table if not exists\<close> leaves existing tables alone. A hash file that fails the check is
  unlinked and opened again, which prepares the new one, and then prepared once more; a NULL
  handle is refused by \<open>sqlite\<close>. The recursion is bounded by the fuel, \<open>None\<close> when it is used up; three
  levels are enough, since a fresh database passes the check.
\<close>

fun dbfile_prepare :: "nat \<Rightarrow> prep_env \<Rightarrow> u32 \<Rightarrow> database \<Rightarrow> (int \<times> u32 \<times> database) option" where
  "dbfile_prepare 0 E bs db = None"
| "dbfile_prepare (Suc n) E bs db =
     (if prep_tables E \<noteq> 0 then Some (prep_tables E, bs, db)
      else if prep_indexes E \<noteq> 0 then Some (prep_indexes E, bs, db)
      else if prep_dbpath E \<noteq> 0 then Some (prep_dbpath E, bs, db)
      else if prep_on_disk E \<and> prep_chmod E \<noteq> 0 then Some (prep_chmod E, bs, db)
      else if prep_config E \<noteq> 0 then Some (prep_config E, bs, db)
      else let cfg = dbfile_get_config (prep_parse E) (prep_junk E) bs db; (ret, bs) = dbfile_check cfg bs in
      if ret \<noteq> 0 \<and> prep_on_disk E then
        (if prep_unlink E \<noteq> 0 \<and> prep_unlink E \<noteq> ENOENT then Some (prep_unlink E, bs, db)
         else if prep_modes E \<noteq> 0 then Some (SQLITE_MISUSE, bs, create_tables)
         else case dbfile_prepare n E bs create_tables of
           None \<Rightarrow> None
         | Some (ret, bs, db) \<Rightarrow> if ret \<noteq> 0 then Some (SQLITE_MISUSE, bs, db) else dbfile_prepare n E bs db)
      else let (ret, db) = dbfile_sync_config (prep_sync E) (prep_unparse E) cfg db in Some (ret, bs, db))"

definition prep_ok :: "prep_env \<Rightarrow> bool" where
  "prep_ok E \<longleftrightarrow> prep_tables E = 0 \<and> prep_indexes E = 0 \<and> prep_dbpath E = 0 \<and> prep_chmod E = 0 \<and> prep_config E = 0 \<and> prep_modes E = 0 \<and>
     prep_sync E = (\<lambda>_. 0) \<and> prep_on_disk E \<and> prep_unlink E = 0"

text \<open>
  What the rows of the configuration must say for the hash file to be kept, and the block size they
  give: a version that is stored is 4.1 and a hash that is stored is xxhash3, in any case of letters.
\<close>

definition compatible :: "database \<Rightarrow> bool" where
  "compatible db \<longleftrightarrow> (case map_of (config db) ''version_major'' of Some (CInt v) \<Rightarrow> v = 4 | _ \<Rightarrow> True) \<and>
     (case map_of (config db) ''version_minor'' of Some (CInt v) \<Rightarrow> v = 1 | _ \<Rightarrow> True) \<and>
     (case map_of (config db) ''hash_type'' of Some (CText s) \<Rightarrow> map tolower (take 8 s) = ''xxhash3 '' | _ \<Rightarrow> True)"

definition stored_blocksize :: "u32 \<Rightarrow> database \<Rightarrow> u32" where
  "stored_blocksize bs db = (case map_of (config db) ''block_size'' of Some (CInt v) \<Rightarrow> word_of_int v | _ \<Rightarrow> bs)"

lemma lower_hash_type: "map tolower (take 8 HASH_TYPE) = ''xxhash3 ''"
  by code_simp

lemma get_config_hash_type:
  "map tolower (take 8 (cfg_hash_type (dbfile_get_config parse junk bs db))) = ''xxhash3 '' \<longleftrightarrow>
   (case map_of (config db) ''hash_type'' of Some (CText s) \<Rightarrow> map tolower (take 8 s) = ''xxhash3 '' | _ \<Rightarrow> True)"
  (is "?L \<longleftrightarrow> ?R")
proof -
  have t: "cfg_hash_type (dbfile_get_config parse junk bs db) = get_config_text ''hash_type'' db 8 HASH_TYPE"
    by (simp add: dbfile_get_config_def Let_def dbfile_config_defaults_def split: option.split)
  show ?thesis
  proof (cases "\<exists>s. map_of (config db) ''hash_type'' = Some (CText s)")
    case True
    then obtain s where s: "map_of (config db) ''hash_type'' = Some (CText s)" ..
    show ?thesis
    proof (cases "8 \<le> length s")
      case True
      then show ?thesis unfolding t by (simp add: get_config_text_def s)
    next
      case False
      then have "CHR 0x00 \<in> set (take 8 (get_config_text ''hash_type'' db 8 HASH_TYPE))" by (auto simp: get_config_text_def s Let_def take_Cons split: nat.split)
      then have "tolower (CHR 0x00) \<in> set (map tolower (take 8 (get_config_text ''hash_type'' db 8 HASH_TYPE)))" unfolding set_map by (rule imageI)
      moreover have "tolower (CHR 0x00) \<notin> set ''xxhash3 ''" by code_simp
      ultimately have "\<not> ?L" unfolding t by metis
      moreover have "map tolower (take 8 s) \<noteq> ''xxhash3 ''"
      proof
        assume "map tolower (take 8 s) = ''xxhash3 ''"
        from arg_cong [OF this, of length] show False using False by simp
      qed
      then have "\<not> ?R" unfolding s by simp
      ultimately show ?thesis by blast
    qed
  next
    case False
    then show ?thesis unfolding t by (auto simp: get_config_text_def lower_hash_type split: option.split config_val.split)
  qed
qed

lemma check_compatible:
  "dbfile_check (dbfile_get_config parse junk bs db) bs =
     (if compatible db then (0, stored_blocksize bs db)
      else if cfg_major (dbfile_get_config parse junk bs db) \<noteq> 4 \<or> cfg_minor (dbfile_get_config parse junk bs db) \<noteq> 1 then (EIO, bs) else (EINVAL, bs))"
proof -
  let ?cfg = "dbfile_get_config parse junk bs db"
  have "cfg_major ?cfg = get_config_int ''version_major'' db 4" "cfg_minor ?cfg = get_config_int ''version_minor'' db 1"
      "cfg_blocksize ?cfg = word_of_int (get_config_int ''block_size'' db (sint bs))"
    by (simp_all add: dbfile_get_config_def Let_def dbfile_config_defaults_def split: option.split)
  then have f: "cfg_major ?cfg = 4 \<longleftrightarrow> (case map_of (config db) ''version_major'' of Some (CInt v) \<Rightarrow> v = 4 | _ \<Rightarrow> True)"
      "cfg_minor ?cfg = 1 \<longleftrightarrow> (case map_of (config db) ''version_minor'' of Some (CInt v) \<Rightarrow> v = 1 | _ \<Rightarrow> True)"
      "cfg_blocksize ?cfg = stored_blocksize bs db"
    by (auto simp: get_config_int_def stored_blocksize_def split: option.split config_val.split)
  show ?thesis unfolding dbfile_check_def compatible_def lower_hash_type get_config_hash_type [of parse junk bs db] f(3)
    unfolding f(1,2) [symmetric] by auto
qed

lemma sync_rows_tables:
  "files (snd (sync_rows rc rows db)) = files db" "blocks (snd (sync_rows rc rows db)) = blocks db" "extents (snd (sync_rows rc rows db)) = extents db"
  by (induction rc rows db rule: sync_rows.induct) (simp_all add: sync_config_def)

lemma sync_config_code: "fst (dbfile_sync_config (\<lambda>_. 0) unparse cfg db) = 0"
  by (simp add: dbfile_sync_config_def config_rows_def)

text \<open>A compatible database is kept, and the configuration written to it is compatible and has its block size.\<close>

lemma sync_compatible:
  assumes "compatible db" "db' = snd (dbfile_sync_config (\<lambda>_. 0) unparse (dbfile_get_config parse junk bs db) db)"
  shows "compatible db'" "map_of (config db') ''version_major'' = Some (CInt 4)" "map_of (config db') ''block_size'' = Some (CInt (sint (stored_blocksize bs db)))"
proof -
  let ?cfg = "dbfile_get_config parse junk bs db"
  have c: "dbfile_check ?cfg bs = (0, stored_blocksize bs db)" using check_compatible [of parse junk bs db] assms(1) by simp
  then have f: "cfg_major ?cfg = 4" "cfg_minor ?cfg = 1" "map tolower (take 8 (cfg_hash_type ?cfg)) = ''xxhash3 ''" "cfg_blocksize ?cfg = stored_blocksize bs db"
    by (auto simp: dbfile_check_def lower_hash_type split: if_splits)
  show "map_of (config db') ''version_major'' = Some (CInt 4)" "map_of (config db') ''block_size'' = Some (CInt (sint (stored_blocksize bs db)))"
    by (simp_all add: assms(2) dbfile_sync_config_def config_rows_def sync_config_lookup f)
  show "compatible db'" by (simp add: compatible_def assms(2) dbfile_sync_config_def config_rows_def sync_config_lookup f)
qed

lemma prepare_keeps:
  assumes E: "prep_ok E" and c: "compatible db"
  shows "\<exists>db'. dbfile_prepare (Suc n) E bs db = Some (0, stored_blocksize bs db, db') \<and> files db' = files db \<and> blocks db' = blocks db \<and>
    extents db' = extents db \<and> compatible db' \<and> map_of (config db') ''version_major'' = Some (CInt 4) \<and>
    map_of (config db') ''block_size'' = Some (CInt (sint (stored_blocksize bs db)))"
proof -
  define cfg where "cfg = dbfile_get_config (prep_parse E) (prep_junk E) bs db"
  define db' where "db' = snd (dbfile_sync_config (\<lambda>_. 0) (prep_unparse E) cfg db)"
  have "dbfile_sync_config (\<lambda>_. 0) (prep_unparse E) cfg db = (0, db')"
    using sync_config_code [of "prep_unparse E" cfg db] by (simp add: db'_def prod_eq_iff)
  then have "dbfile_prepare (Suc n) E bs db = Some (0, stored_blocksize bs db, db')"
    using E c by (simp add: prep_ok_def Let_def cfg_def check_compatible)
  then show ?thesis using sync_compatible [OF c db'_def [unfolded cfg_def]]
    by (simp add: db'_def dbfile_sync_config_def sync_rows_tables)
qed

lemma compatible_create: "compatible create_tables" "stored_blocksize bs create_tables = bs"
  by (simp_all add: compatible_def stored_blocksize_def create_tables_def)


definition example_prep :: prep_env where
  "example_prep = \<lparr>prep_tables = 0, prep_indexes = 0, prep_dbpath = 0, prep_chmod = 0, prep_config = 0, prep_modes = 0, prep_sync = (\<lambda>_. 0),
     prep_on_disk = True, prep_unlink = 0,
     prep_parse = example_parse, prep_unparse = example_unparse, prep_junk = replicate 37 (CHR 0x00)\<rparr>"

lemma example_prep_ok: "prep_ok example_prep"
  by (simp add: prep_ok_def example_prep_def)


end
