(* ===== verification/DbLoad.thy ===== *)
theory DbLoad
  imports Dbfile FindDupes
begin

text \<open>
  Loading from the hash file, \<open>dbfile.c\<close>: the queries for the duplicates of a batch of files, and the
  functions that turn their rows into file records, the results tree and the hash tree.

  \<open>mem\<close> is the allocator of file records: the address \<open>calloc\<close> returns in a state of the table of
  files, or \<open>None\<close>. \<open>rooms\<close> tells whether the allocations of \<open>insert_one_result\<close> succeed. A row of a
  \<open>join\<close> is a pair. A statement has one code: that \<open>sqlite\<close> fails after it has returned some rows is taken
  for a failure before the first row, since no caller looks at what was loaded after an error.
\<close>

section \<open>Model\<close>

unbundle bit_operations_syntax

text \<open>
  The shape that the three queries share: rows of the past whose key is among those that, in the
  past, occur more than once and occur in the current batch.
\<close>

definition batch_dups :: "('a \<Rightarrow> 'k) \<Rightarrow> ('a \<Rightarrow> bool) \<Rightarrow> ('a \<Rightarrow> bool) \<Rightarrow> 'a list \<Rightarrow> 'a list" where
  "batch_dups key past now rows =
     (let inner = map key (filter now rows);
          middle = filter (\<lambda>x. past x \<and> key x \<in> set inner) rows;
          keys = filter (\<lambda>k. length (filter (\<lambda>x. key x = k) middle) > 1) (map key middle) in
      filter (\<lambda>x. past x \<and> key x \<in> set keys) rows)"

text \<open>\<open>not (flags & 1)\<close>, which is not true for NULL.\<close>

definition not_inlined_row :: "file_row \<Rightarrow> bool" where
  "not_inlined_row r \<longleftrightarrow> (case f_flags r of None \<Rightarrow> False | Some fl \<Rightarrow> fl AND 1 = 0)"

definition get_duplicate_files :: "u32 \<Rightarrow> database \<Rightarrow> file_row list" where
  "get_duplicate_files seq db = batch_dups (\<lambda>r. (f_digest r, f_size r))
     (\<lambda>r. f_dedupe_seq r \<le> uint seq \<and> not_inlined_row r \<and> f_digest r \<noteq> None)
     (\<lambda>r. f_dedupe_seq r = uint seq \<and> not_inlined_row r) (files db)"

definition extents_with_files :: "database \<Rightarrow> (extent_row \<times> file_row) list" where
  "extents_with_files db = filter (\<lambda>(e, r). er_fileid e = f_id r) (List.product (extents db) (files db))"

definition get_duplicate_extents :: "u32 \<Rightarrow> database \<Rightarrow> extent_row list" where
  "get_duplicate_extents seq db = map fst (batch_dups (\<lambda>(e, r). (er_digest e, er_len e))
     (\<lambda>(e, r). f_dedupe_seq r \<le> uint seq) (\<lambda>(e, r). f_dedupe_seq r = uint seq) (extents_with_files db))"

definition blocks_with_files :: "database \<Rightarrow> (block_row \<times> file_row) list" where
  "blocks_with_files db = filter (\<lambda>(b, r). br_fileid b = f_id r) (List.product (blocks db) (files db))"

definition get_duplicate_blocks :: "u32 \<Rightarrow> database \<Rightarrow> block_row list" where
  "get_duplicate_blocks seq db = map fst (batch_dups (\<lambda>(b, r). br_digest b)
     (\<lambda>(b, r). f_dedupe_seq r \<le> uint seq) (\<lambda>(b, r). f_dedupe_seq r = uint seq) (blocks_with_files db))"

text \<open>The extent of a file at an offset, and the extents whose digest occurs once. The sum does not wrap in \<open>sqlite\<close>.\<close>

definition get_file_extent :: "int \<Rightarrow> int \<Rightarrow> database \<Rightarrow> extent_row list" where
  "get_file_extent fid loff db = filter (\<lambda>e. er_fileid e = fid \<and> fid \<in> f_id ` set (files db) \<and> er_loff e \<le> loff \<and> er_loff e + er_len e > loff) (extents db)"

definition get_nondupe_extents :: "int \<Rightarrow> database \<Rightarrow> extent_row list" where
  "get_nondupe_extents fid db = filter (\<lambda>e. er_fileid e = fid \<and> fid \<in> f_id ` set (files db) \<and>
     length (filter (\<lambda>e'. er_digest e' = er_digest e) (extents db)) = 1) (extents db)"

definition dbfile_load_one_file_extent :: "int \<Rightarrow> filerec \<Rightarrow> u64 \<Rightarrow> database \<Rightarrow> int \<times> file_extent option" where
  "dbfile_load_one_file_extent rc file loff db =
     (if rc \<noteq> 0 then (rc, None)
      else case get_file_extent (fileid file) (bind_int64 loff) db of
        [] \<Rightarrow> (0, None)
      | e # _ \<Rightarrow> (0, Some \<lparr>fx_poff = column_int64 (er_poff e), fx_loff = column_int64 (er_loff e), fx_len = column_int64 (er_len e)\<rparr>))"

text \<open>\<open>room\<close> tells whether the array can be extended by each row.\<close>

definition dbfile_load_nondupe_file_extents :: "int \<Rightarrow> (extent_row \<Rightarrow> bool) \<Rightarrow> filerec \<Rightarrow> database \<Rightarrow> int \<times> file_extent list" where
  "dbfile_load_nondupe_file_extents rc room file db =
     (let rows = get_nondupe_extents (fileid file) db in
      if rc \<noteq> 0 then (rc, [])
      else if \<exists>e \<in> set rows. \<not> room e then (ENOMEM, [])
      else (0, map (\<lambda>e. \<lparr>fx_poff = column_int64 (er_poff e), fx_loff = column_int64 (er_loff e), fx_len = column_int64 (er_len e)\<rparr>) rows))"

text \<open>The return code and \<open>*file\<close>, which stays NULL when there is no row.\<close>

definition dbfile_load_one_filerec ::
    "(filerecs \<Rightarrow> fptr option) \<Rightarrow> int \<Rightarrow> int \<Rightarrow> database \<Rightarrow> filerecs \<Rightarrow> (int \<times> fptr option \<times> filerecs) option" where
  "dbfile_load_one_filerec mem rc fid db st =
     (if rc \<noteq> 0 then Some (rc, None, st)
      else case List.find (\<lambda>r. f_id r = fid) (files db) of
        None \<Rightarrow> Some (0, None, st)
      | Some r \<Rightarrow> do {
          (new, st) \<leftarrow> filerec_new (mem st) True (f_filename r) fid (column_int64 (f_size r)) st;
          Some (if new = None then ENOMEM else 0, new, st)
        })"

fun same_files_loop ::
    "(filerecs \<Rightarrow> fptr option) \<Rightarrow> bool \<Rightarrow> file_row list \<Rightarrow> filerecs \<Rightarrow> results_tree \<Rightarrow> (int \<times> filerecs \<times> results_tree) option" where
  "same_files_loop mem room [] st res = Some (0, st, res)"
| "same_files_loop mem room (r # rows) st res = do {
     digest \<leftarrow> f_digest r;
     (file, st) \<leftarrow> (case filerec_find (f_id r) st of
         Some f \<Rightarrow> Some (Some f, st)
       | None \<Rightarrow> filerec_new (mem st) True (f_filename r) (f_id r) (column_int64 (f_size r)) st);
     case file of
       None \<Rightarrow> Some (ENOMEM, st, res)
     | Some file \<Rightarrow> do {
         (ret, res) \<leftarrow> insert_one_result room room res digest file 0 (column_int64 (f_size r)) 0;
         if ret \<noteq> 0 then Some (ENOMEM, st, res) else same_files_loop mem room rows st res
       }
   }"

definition dbfile_load_same_files ::
    "(filerecs \<Rightarrow> fptr option) \<Rightarrow> bool \<Rightarrow> int \<Rightarrow> u32 \<Rightarrow> database \<Rightarrow> filerecs \<Rightarrow> results_tree \<Rightarrow> (int \<times> filerecs \<times> results_tree) option" where
  "dbfile_load_same_files mem room rc seq db st res =
     (if rc \<noteq> 0 then Some (rc, st, res) else same_files_loop mem room (get_duplicate_files seq db) st res)"

text \<open>A file record that exists already, or one from the table.\<close>

definition find_or_load ::
    "(filerecs \<Rightarrow> fptr option) \<Rightarrow> int \<Rightarrow> int \<Rightarrow> database \<Rightarrow> filerecs \<Rightarrow> (int \<times> fptr option \<times> filerecs) option" where
  "find_or_load mem rc fid db st = (case filerec_find fid st of
       Some f \<Rightarrow> Some (0, Some f, st)
     | None \<Rightarrow> dbfile_load_one_filerec mem rc fid db st)"

fun extent_hashes_loop ::
    "(filerecs \<Rightarrow> fptr option) \<Rightarrow> bool \<Rightarrow> (int \<Rightarrow> int) \<Rightarrow> database \<Rightarrow> extent_row list \<Rightarrow> filerecs \<Rightarrow> results_tree \<Rightarrow>
     (int \<times> filerecs \<times> results_tree) option" where
  "extent_hashes_loop mem room rc db [] st res = Some (0, st, res)"
| "extent_hashes_loop mem room rc db (e # rows) st res = do {
     (ret, file, st) \<leftarrow> find_or_load mem (rc (er_fileid e)) (er_fileid e) db st;
     if ret \<noteq> 0 then Some (ret, st, res)
     else do {
       file \<leftarrow> file;
       (ret, res) \<leftarrow> insert_one_result room room res (er_digest e) file (column_int64 (er_loff e)) (column_int64 (er_len e)) (column_int64 (er_poff e));
       if ret \<noteq> 0 then Some (ENOMEM, st, res) else extent_hashes_loop mem room rc db rows st res
     }
   }"

definition dbfile_load_extent_hashes ::
    "(filerecs \<Rightarrow> fptr option) \<Rightarrow> bool \<Rightarrow> (int \<Rightarrow> int) \<Rightarrow> int \<Rightarrow> u32 \<Rightarrow> database \<Rightarrow> filerecs \<Rightarrow> results_tree \<Rightarrow>
     (int \<times> filerecs \<times> results_tree) option" where
  "dbfile_load_extent_hashes mem room frc rc seq db st res =
     (if rc \<noteq> 0 then Some (rc, st, res) else extent_hashes_loop mem room frc db (get_duplicate_extents seq db) st res)"

text \<open>\<open>addr\<close> is the address of the block that is inserted, if it can be allocated.\<close>

fun block_hashes_loop ::
    "(filerecs \<Rightarrow> fptr option) \<Rightarrow> (hash_tree \<Rightarrow> nat option) \<Rightarrow> bool \<Rightarrow> (int \<Rightarrow> int) \<Rightarrow> database \<Rightarrow> block_row list \<Rightarrow> hash_tree \<times> filerecs \<Rightarrow>
     (int \<times> hash_tree \<times> filerecs) option" where
  "block_hashes_loop mem addr room rc db [] s = Some (0, s)"
| "block_hashes_loop mem addr room rc db (b # rows) s = do {
     let (tree, st) = s;
     (ret, file, st) \<leftarrow> find_or_load mem (rc (br_fileid b)) (br_fileid b) db st;
     if ret \<noteq> 0 then Some (ret, tree, st)
     else do {
       file \<leftarrow> file;
       (ret, s) \<leftarrow> insert_hashed_block (addr tree) room room (br_digest b) file (column_int64 (br_loff b)) (tree, st);
       if ret \<noteq> 0 then Some (ENOMEM, s) else block_hashes_loop mem addr room rc db rows s
     }
   }"

definition dbfile_load_block_hashes ::
    "(filerecs \<Rightarrow> fptr option) \<Rightarrow> (hash_tree \<Rightarrow> nat option) \<Rightarrow> bool \<Rightarrow> (int \<Rightarrow> int) \<Rightarrow> int \<Rightarrow> u32 \<Rightarrow> database \<Rightarrow> hash_tree \<times> filerecs \<Rightarrow>
     (int \<times> hash_tree \<times> filerecs) option" where
  "dbfile_load_block_hashes mem addr room frc rc seq db s =
     (if rc \<noteq> 0 then Some (rc, s)
      else do {
        (ret, tree, st) \<leftarrow> block_hashes_loop mem addr room frc db (get_duplicate_blocks seq db) s;
        if ret \<noteq> 0 then Some (ret, tree, st) else Some (0, sort_file_hash_heads tree, st)
      })"

section \<open>The queries\<close>

lemma filter_conj_length: "length (filter (\<lambda>x. Q x = k) (filter P xs)) = length (filter (\<lambda>x. P x \<and> Q x = k) xs)"
  by (simp add: conj_commute)

lemma batch_dups_iff:
  "x \<in> set (batch_dups key past now rows) \<longleftrightarrow> x \<in> set rows \<and> past x \<and> (\<exists>y \<in> set rows. now y \<and> key y = key x) \<and>
     1 < length (filter (\<lambda>z. past z \<and> key z = key x) rows)"
proof -
  let ?inner = "key ` {y \<in> set rows. now y}"
  have eq: "filter (\<lambda>z. (past z \<and> key z \<in> ?inner) \<and> key z = key x) rows =
      (if key x \<in> ?inner then filter (\<lambda>z. past z \<and> key z = key x) rows else [])"
    by (auto simp: filter_empty_conv intro!: filter_cong)
  have mem: "key x \<in> set (map key (filter (\<lambda>z. past z \<and> key z \<in> ?inner) rows))"
    if "x \<in> set rows" "past x" "key x \<in> ?inner" using that by auto
  show ?thesis unfolding batch_dups_def Let_def
    using eq mem by (auto simp: filter_conj_length image_iff split: if_splits)
qed

lemma two_of_filter: "1 < length (filter P xs) \<Longrightarrow> distinct (map f xs) \<Longrightarrow> x \<in> set xs \<Longrightarrow> \<exists>y \<in> set xs. P y \<and> f y \<noteq> f x"
proof -
  assume l: "1 < length (filter P xs)" and d: "distinct (map f xs)" and x: "x \<in> set xs"
  have "distinct (map f (filter P xs))" using d by (rule distinct_map_filter)
  then have c: "card (f ` set (filter P xs)) = length (filter P xs)" using distinct_card by (metis length_map list.set_map)
  have "\<not> f ` set (filter P xs) \<subseteq> {f x}"
  proof
    assume "f ` set (filter P xs) \<subseteq> {f x}"
    then have "card (f ` set (filter P xs)) \<le> 1" using card_mono [of "{f x}"] by force
    then show False using c l by simp
  qed
  then show ?thesis by auto
qed

lemma dup_file_mate:
  assumes "db_inv db" "r \<in> set (get_duplicate_files seq db)"
  shows "\<exists>r' \<in> set (get_duplicate_files seq db). f_id r' \<noteq> f_id r \<and> f_digest r' = f_digest r \<and> f_size r' = f_size r"
proof -
  let ?past = "\<lambda>r. f_dedupe_seq r \<le> uint seq \<and> not_inlined_row r \<and> f_digest r \<noteq> None"
  let ?key = "\<lambda>r. (f_digest r, f_size r)"
  have r: "r \<in> set (files db)" "\<exists>y \<in> set (files db). (f_dedupe_seq y = uint seq \<and> not_inlined_row y) \<and> ?key y = ?key r"
    "1 < length (filter (\<lambda>z. ?past z \<and> ?key z = ?key r) (files db))"
    using assms(2) unfolding get_duplicate_files_def batch_dups_iff by blast+
  have "distinct (map f_id (files db))" using assms(1) by (simp add: db_inv_def)
  from two_of_filter [OF r(3) this r(1)] obtain r' where
    r': "r' \<in> set (files db)" "?past r'" "?key r' = ?key r" "f_id r' \<noteq> f_id r" by blast
  have "r' \<in> set (get_duplicate_files seq db)" unfolding get_duplicate_files_def batch_dups_iff r'(3) using r' r(2,3) by blast
  then show ?thesis using r' by auto
qed

section \<open>Loading whole files\<close>

text \<open>The allocator gives fresh addresses.\<close>

definition mem_ok :: "(filerecs \<Rightarrow> fptr option) \<Rightarrow> bool" where
  "mem_ok mem \<longleftrightarrow> (\<forall>st. finite (dom (recs st)) \<longrightarrow> (\<exists>p. mem st = Some p \<and> recs st p = None))"

lemma mem_okE:
  assumes "mem_ok mem" "filerecs_inv st"
  obtains p where "mem st = Some p" "recs st p = None"
proof -
  have "finite (dom (recs st))" using assms(2) unfolding filerecs_inv_def by (metis List.finite_set)
  then show thesis using assms(1) that unfolding mem_ok_def by blast
qed

text \<open>Only new files come to the table, and all the old ones stay found.\<close>

definition keeps_files :: "filerecs \<Rightarrow> filerecs \<Rightarrow> bool" where
  "keeps_files st st' \<longleftrightarrow> (\<forall>fid f. filerec_find fid st = Some f \<longrightarrow> filerec_find fid st' = Some f)"

lemma keeps_files_trans: "keeps_files a b \<Longrightarrow> keeps_files b c \<Longrightarrow> keeps_files a c"
  by (simp add: keeps_files_def)

lemma new_file_ok:
  assumes "mem_ok mem" "filerecs_inv st" "filerec_find fid st = None"
  shows "\<exists>f st'. filerec_new (mem st) True name fid sz st = Some (Some f, st') \<and> filerecs_inv st' \<and> keeps_files st st' \<and> filerec_find fid st' = Some f"
proof -
  obtain p where p: "mem st = Some p" "recs st p = None" using mem_okE [OF assms(1,2)] .
  obtain st' where st': "filerec_new (Some p) True name fid sz st = Some (Some p, st')" "filerecs_inv st'"
      "recs st' = (recs st)(p \<mapsto> \<lparr>fd = -1, fd_refs = 0, filename = name, fileid = fid, fsize = sz, block_tree = RB_NULL\<rparr>)"
    using filerec_new_ok [OF assms(2) p(2) assms(3)] by blast
  have "filerec_find k st' = (if k = fid then Some p else filerec_find k st)" for k
    by (rule filerec_find_new [OF assms(2) p(2) assms(3) st'(2,3)]) simp
  then show ?thesis using p(1) st'(1,2) assms(3) by (auto simp: keeps_files_def)
qed

lemma filerec_find_inj:
  "filerecs_inv st \<Longrightarrow> filerec_find i st = Some f \<Longrightarrow> filerec_find j st = Some f \<Longrightarrow> i = j"
  using filerec_find_Some [of st] by (metis option.inject)

definition group_of_row :: "filerecs \<Rightarrow> file_row \<Rightarrow> (group_key \<times> ext_key) set" where
  "group_of_row st r = {((column_int64 (f_size r), d), (f, 0)) | d f. f_digest r = Some d \<and> filerec_find (f_id r) st = Some f}"

lemma room_for_insert:
  assumes "room_for (Suc n) res" "res_extents res' = insert (g, a) (res_extents res)"
  shows "room_for n res'"
  using room_for_add [OF assms(1), of res' g a a] assms(2) by simp

lemma same_files_loop_ok:
  assumes mem: "mem_ok mem"
  shows "filerecs_inv st \<Longrightarrow> res_inv res \<Longrightarrow> room_for (length rows) res \<Longrightarrow> \<forall>r \<in> set rows. f_digest r \<noteq> None \<Longrightarrow>
    \<exists>st' res'. same_files_loop mem True rows st res = Some (0, st', res') \<and> filerecs_inv st' \<and> res_inv res' \<and> keeps_files st st' \<and>
      (\<forall>r \<in> set rows. filerec_find (f_id r) st' \<noteq> None) \<and>
      res_extents res' = res_extents res \<union> (\<Union>r \<in> set rows. group_of_row st' r)"
proof (induction rows arbitrary: st res)
  case Nil
  then show ?case by (simp add: keeps_files_def)
next
  case (Cons r rows)
  obtain d where d: "f_digest r = Some d" using Cons.prems(4) by auto
  obtain f st1 where f: "(case filerec_find (f_id r) st of Some f \<Rightarrow> Some (Some f, st)
       | None \<Rightarrow> filerec_new (mem st) True (f_filename r) (f_id r) (column_int64 (f_size r)) st) = Some (Some f, st1)"
      "filerecs_inv st1" "keeps_files st st1" "filerec_find (f_id r) st1 = Some f"
  proof (cases "filerec_find (f_id r) st")
    case None
    from new_file_ok [OF mem Cons.prems(1) None, of "f_filename r" "column_int64 (f_size r)"] that None show thesis by auto
  next
    case (Some f)
    then show thesis using that [of f st] Cons.prems(1) by (simp add: keeps_files_def)
  qed
  have rr: "res_room res" using room_for_res_room [OF Cons.prems(2)] Cons.prems(3) by simp
  obtain res1 where r1: "insert_one_result True True res d f 0 (column_int64 (f_size r)) 0 = Some (0, res1)" "res_inv res1"
      "res_extents res1 = insert ((column_int64 (f_size r), d), (f, 0)) (res_extents res)"
    using insert_one_result_ok [OF Cons.prems(2) rr] by blast
  have "room_for (length rows) res1" using room_for_insert [OF _ r1(3)] Cons.prems(3) by simp
  from Cons.IH [OF f(2) r1(2) this] Cons.prems(4) obtain st' res' where
    l: "same_files_loop mem True rows st1 res1 = Some (0, st', res')" "filerecs_inv st'" "res_inv res'" "keeps_files st1 st'"
      "\<forall>r \<in> set rows. filerec_find (f_id r) st' \<noteq> None"
      "res_extents res' = res_extents res1 \<union> (\<Union>r \<in> set rows. group_of_row st' r)" by auto
  have fr: "filerec_find (f_id r) st' = Some f" using l(4) f(4) by (simp add: keeps_files_def)
  then have g: "group_of_row st' r = {((column_int64 (f_size r), d), (f, 0))}" using d by (auto simp: group_of_row_def)
  have "same_files_loop mem True (r # rows) st res = Some (0, st', res')" using d f(1) r1(1) l(1) by simp
  moreover have "res_extents res' = res_extents res \<union> (\<Union>r \<in> set (r # rows). group_of_row st' r)" using l(6) r1(3) g by auto
  ultimately show ?case using l(2,3,5) fr keeps_files_trans [OF f(3) l(4)] by auto
qed

lemma dup_files_digest: "r \<in> set (get_duplicate_files seq db) \<Longrightarrow> f_digest r \<noteq> None"
  unfolding get_duplicate_files_def batch_dups_iff by blast

lemma load_same_files_ok:
  assumes "mem_ok mem" "filerecs_inv st" "db_inv db" "length (get_duplicate_files seq db) < 2 ^ 31"
  shows "\<exists>st' res'. dbfile_load_same_files mem True 0 seq db st init_results_tree = Some (0, st', res') \<and> filerecs_inv st' \<and> res_inv res' \<and>
    (\<forall>r \<in> set (get_duplicate_files seq db). filerec_find (f_id r) st' \<noteq> None) \<and>
    res_extents res' = (\<Union>r \<in> set (get_duplicate_files seq db). group_of_row st' r) \<and>
    (\<forall>g. card (res_extents res' `` {g}) \<noteq> 1)"
proof -
  obtain st' res' where l: "same_files_loop mem True (get_duplicate_files seq db) st init_results_tree = Some (0, st', res')" "filerecs_inv st'"
      "res_inv res'" "\<forall>r \<in> set (get_duplicate_files seq db). filerec_find (f_id r) st' \<noteq> None"
      "res_extents res' = (\<Union>r \<in> set (get_duplicate_files seq db). group_of_row st' r)"
    using same_files_loop_ok [OF assms(1,2) init_results_inv(1) room_for_init [OF assms(4)]] dup_files_digest init_results_inv(3) by fastforce
  have "card (res_extents res' `` {g}) \<noteq> 1" for g
  proof
    assume "card (res_extents res' `` {g}) = 1"
    then obtain k where k: "res_extents res' `` {g} = {k}" by (auto simp: card_1_singleton_iff)
    then have "(g, k) \<in> res_extents res'" by blast
    then obtain r d f where r: "r \<in> set (get_duplicate_files seq db)" "g = (column_int64 (f_size r), d)" "k = (f, 0)" "f_digest r = Some d"
        "filerec_find (f_id r) st' = Some f"
      unfolding l(5) group_of_row_def by blast
    obtain r' where r': "r' \<in> set (get_duplicate_files seq db)" "f_id r' \<noteq> f_id r" "f_digest r' = f_digest r" "f_size r' = f_size r"
      using dup_file_mate [OF assms(3) r(1)] by blast
    obtain f' where f': "filerec_find (f_id r') st' = Some f'" using l(4) r'(1) by blast
    have "((column_int64 (f_size r'), d), (f', 0)) \<in> group_of_row st' r'" using r' r(4) f' by (simp add: group_of_row_def)
    then have "(f', 0) \<in> res_extents res' `` {g}" using r'(1,4) r(2) unfolding l(5) by auto
    then have "f' = f" using k r(3) by auto
    then show False using filerec_find_inj [OF l(2) f'] r(5) r'(2) by simp
  qed
  then show ?thesis using l by (simp add: dbfile_load_same_files_def)
qed

section \<open>Loading extents\<close>

lemma joined_distinct:
  assumes "distinct (map key xs)" "distinct (map f_id (files db))" "\<And>x. fid x = ref x"
  shows "distinct (map (\<lambda>(x, r). key x) (filter (\<lambda>(x, r). ref x = f_id r) (List.product xs (files db))))"
proof -
  have "distinct xs" "distinct (files db)" using assms(1,2) by (simp_all add: distinct_map)
  then have "distinct (filter (\<lambda>(x, r). ref x = f_id r) (List.product xs (files db)))" by (simp add: distinct_product)
  moreover have "inj_on (\<lambda>(x, r). key x) (set (filter (\<lambda>(x, r). ref x = f_id r) (List.product xs (files db))))"
  proof (rule inj_onI)
    fix a b assume a: "a \<in> set (filter (\<lambda>(x, r). ref x = f_id r) (List.product xs (files db)))"
      and b: "b \<in> set (filter (\<lambda>(x, r). ref x = f_id r) (List.product xs (files db)))" and eq: "(\<lambda>(x, r). key x) a = (\<lambda>(x, r). key x) b"
    obtain x r where ar: "a = (x, r)" "x \<in> set xs" "r \<in> set (files db)" "ref x = f_id r" using a by auto
    obtain y s where bs: "b = (y, s)" "y \<in> set xs" "s \<in> set (files db)" "ref y = f_id s" using b by auto
    have "x = y" using assms(1) ar(1,2) bs(1,2) eq by (auto simp: distinct_map inj_on_def)
    moreover from this have "f_id r = f_id s" using ar(4) bs(4) by simp
    then have "r = s" using assms(2) ar(3) bs(3) by (auto simp: distinct_map inj_on_def)
    ultimately show "a = b" using ar(1) bs(1) by simp
  qed
  ultimately show ?thesis by (simp add: distinct_map)
qed

lemma dup_extent_mate:
  assumes "db_inv db" "e \<in> set (get_duplicate_extents seq db)"
  shows "\<exists>e' \<in> set (get_duplicate_extents seq db). (er_fileid e', er_loff e') \<noteq> (er_fileid e, er_loff e) \<and>
    er_digest e' = er_digest e \<and> er_len e' = er_len e"
proof -
  let ?past = "\<lambda>(e, r). f_dedupe_seq r \<le> uint seq" and ?now = "\<lambda>(e, r). f_dedupe_seq r = uint seq"
  let ?key = "\<lambda>(e, r). (er_digest e, er_len e)" and ?J = "extents_with_files db"
  obtain x where x: "x \<in> set (batch_dups ?key ?past ?now ?J)" "e = fst x" using assms(2) by (auto simp: get_duplicate_extents_def)
  have j: "x \<in> set ?J" "\<exists>y \<in> set ?J. ?now y \<and> ?key y = ?key x" "1 < length (filter (\<lambda>z. ?past z \<and> ?key z = ?key x) ?J)"
    using x(1) unfolding batch_dups_iff by blast+
  have "distinct (map (\<lambda>(e, r). (er_fileid e, er_loff e, er_len e)) ?J)"
    unfolding extents_with_files_def by (rule joined_distinct) (use assms(1) in \<open>auto simp: db_inv_def\<close>)
  from two_of_filter [OF j(3) this j(1)] obtain y where
    y: "y \<in> set ?J" "?past y" "?key y = ?key x"
      "(\<lambda>(e, r). (er_fileid e, er_loff e, er_len e)) y \<noteq> (\<lambda>(e, r). (er_fileid e, er_loff e, er_len e)) x" by blast
  have "y \<in> set (batch_dups ?key ?past ?now ?J)" unfolding batch_dups_iff y(3) using y(1,2) j(2,3) by blast
  then have "fst y \<in> set (get_duplicate_extents seq db)" by (simp add: get_duplicate_extents_def)
  then show ?thesis using y(3,4) x(2) by (cases x; cases y) auto
qed

lemma find_or_load_ok:
  assumes "mem_ok mem" "filerecs_inv st" "fid \<in> f_id ` set (files db)"
  shows "\<exists>f st'. find_or_load mem 0 fid db st = Some (0, Some f, st') \<and> filerecs_inv st' \<and> keeps_files st st' \<and> filerec_find fid st' = Some f"
proof (cases "filerec_find fid st")
  case None
  obtain r where r: "List.find (\<lambda>r. f_id r = fid) (files db) = Some r" using assms(3) by (cases "List.find (\<lambda>r. f_id r = fid) (files db)") (auto simp: find_None_iff)
  from new_file_ok [OF assms(1,2) None, of "f_filename r" "column_int64 (f_size r)"] show ?thesis
    using None r by (auto simp: find_or_load_def dbfile_load_one_filerec_def)
qed (use assms(2) in \<open>simp add: find_or_load_def keeps_files_def\<close>)

definition group_of_extent :: "filerecs \<Rightarrow> extent_row \<Rightarrow> (group_key \<times> ext_key) set" where
  "group_of_extent st e = {((column_int64 (er_len e), er_digest e), (f, column_int64 (er_loff e))) | f. filerec_find (er_fileid e) st = Some f}"

lemma extent_hashes_loop_ok:
  assumes mem: "mem_ok mem"
  shows "filerecs_inv st \<Longrightarrow> res_inv res \<Longrightarrow> room_for (length rows) res \<Longrightarrow> \<forall>e \<in> set rows. er_fileid e \<in> f_id ` set (files db) \<Longrightarrow>
    \<exists>st' res'. extent_hashes_loop mem True (\<lambda>_. 0) db rows st res = Some (0, st', res') \<and> filerecs_inv st' \<and> res_inv res' \<and> keeps_files st st' \<and>
      (\<forall>e \<in> set rows. filerec_find (er_fileid e) st' \<noteq> None) \<and>
      res_extents res' = res_extents res \<union> (\<Union>e \<in> set rows. group_of_extent st' e)"
proof (induction rows arbitrary: st res)
  case Nil
  then show ?case by (simp add: keeps_files_def)
next
  case (Cons e rows)
  obtain f st1 where f: "find_or_load mem 0 (er_fileid e) db st = Some (0, Some f, st1)" "filerecs_inv st1" "keeps_files st st1"
      "filerec_find (er_fileid e) st1 = Some f"
    using find_or_load_ok [OF mem Cons.prems(1), of "er_fileid e" db] Cons.prems(4) by auto
  have rr: "res_room res" using room_for_res_room [OF Cons.prems(2)] Cons.prems(3) by simp
  obtain res1 where r1: "insert_one_result True True res (er_digest e) f (column_int64 (er_loff e)) (column_int64 (er_len e)) (column_int64 (er_poff e)) = Some (0, res1)"
      "res_inv res1" "res_extents res1 = insert ((column_int64 (er_len e), er_digest e), (f, column_int64 (er_loff e))) (res_extents res)"
    using insert_one_result_ok [OF Cons.prems(2) rr] by blast
  have "room_for (length rows) res1" using room_for_insert [OF _ r1(3)] Cons.prems(3) by simp
  from Cons.IH [OF f(2) r1(2) this] Cons.prems(4) obtain st' res' where
    l: "extent_hashes_loop mem True (\<lambda>_. 0) db rows st1 res1 = Some (0, st', res')" "filerecs_inv st'" "res_inv res'" "keeps_files st1 st'"
      "\<forall>e \<in> set rows. filerec_find (er_fileid e) st' \<noteq> None"
      "res_extents res' = res_extents res1 \<union> (\<Union>e \<in> set rows. group_of_extent st' e)" by auto
  have fr: "filerec_find (er_fileid e) st' = Some f" using l(4) f(4) by (simp add: keeps_files_def)
  then have g: "group_of_extent st' e = {((column_int64 (er_len e), er_digest e), (f, column_int64 (er_loff e)))}" by (auto simp: group_of_extent_def)
  have "extent_hashes_loop mem True (\<lambda>_. 0) db (e # rows) st res = Some (0, st', res')" using f(1) r1(1) l(1) by simp
  moreover have "res_extents res' = res_extents res \<union> (\<Union>e \<in> set (e # rows). group_of_extent st' e)" using l(6) r1(3) g by auto
  ultimately show ?case using l(2,3,5) fr keeps_files_trans [OF f(3) l(4)] by auto
qed

lemma column_inj: "a \<in> range bind_int64 \<Longrightarrow> b \<in> range bind_int64 \<Longrightarrow> column_int64 a = column_int64 b \<Longrightarrow> a = b"
  by auto

lemma dup_extents_in: "e \<in> set (get_duplicate_extents seq db) \<Longrightarrow> e \<in> set (extents db) \<and> er_fileid e \<in> f_id ` set (files db)"
proof -
  assume "e \<in> set (get_duplicate_extents seq db)"
  then obtain r where "(e, r) \<in> set (extents_with_files db)" by (auto simp: get_duplicate_extents_def batch_dups_iff)
  then show ?thesis by (auto simp: extents_with_files_def)
qed

lemma load_extent_hashes_ok:
  assumes "mem_ok mem" "filerecs_inv st" "db_inv db" "in_64_bits db" "length (get_duplicate_extents seq db) < 2 ^ 31"
  shows "\<exists>st' res'. dbfile_load_extent_hashes mem True (\<lambda>_. 0) 0 seq db st init_results_tree = Some (0, st', res') \<and> filerecs_inv st' \<and> res_inv res' \<and>
    (\<forall>e \<in> set (get_duplicate_extents seq db). filerec_find (er_fileid e) st' \<noteq> None) \<and>
    res_extents res' = (\<Union>e \<in> set (get_duplicate_extents seq db). group_of_extent st' e) \<and>
    (\<forall>g. card (res_extents res' `` {g}) \<noteq> 1)"
proof -
  obtain st' res' where l: "extent_hashes_loop mem True (\<lambda>_. 0) db (get_duplicate_extents seq db) st init_results_tree = Some (0, st', res')" "filerecs_inv st'"
      "res_inv res'" "\<forall>e \<in> set (get_duplicate_extents seq db). filerec_find (er_fileid e) st' \<noteq> None"
      "res_extents res' = (\<Union>e \<in> set (get_duplicate_extents seq db). group_of_extent st' e)"
    using extent_hashes_loop_ok [OF assms(1,2) init_results_inv(1) room_for_init [OF assms(5)], of db] dup_extents_in [of _ seq db] init_results_inv(3) by auto
  have "card (res_extents res' `` {g}) \<noteq> 1" for g
  proof
    assume "card (res_extents res' `` {g}) = 1"
    then obtain k where k: "res_extents res' `` {g} = {k}" by (auto simp: card_1_singleton_iff)
    then have "(g, k) \<in> res_extents res'" by blast
    then obtain e f where e: "e \<in> set (get_duplicate_extents seq db)" "g = (column_int64 (er_len e), er_digest e)" "k = (f, column_int64 (er_loff e))"
        "filerec_find (er_fileid e) st' = Some f"
      unfolding l(5) group_of_extent_def by blast
    obtain e' where e': "e' \<in> set (get_duplicate_extents seq db)" "(er_fileid e', er_loff e') \<noteq> (er_fileid e, er_loff e)"
        "er_digest e' = er_digest e" "er_len e' = er_len e"
      using dup_extent_mate [OF assms(3) e(1)] by blast
    obtain f' where f': "filerec_find (er_fileid e') st' = Some f'" using l(4) e'(1) by blast
    have "(g, (f', column_int64 (er_loff e'))) \<in> group_of_extent st' e'" using e' e(2) f' by (simp add: group_of_extent_def)
    then have "(f', column_int64 (er_loff e')) \<in> res_extents res' `` {g}" using e'(1) unfolding l(5) by auto
    then have eq: "f' = f" "column_int64 (er_loff e') = column_int64 (er_loff e)" using k e(3) by auto
    have "er_fileid e' = er_fileid e" using filerec_find_inj [OF l(2) f'] e(4) eq(1) by simp
    moreover have "er_loff e' = er_loff e"
      using column_inj [OF _ _ eq(2)] assms(4) dup_extents_in [OF e(1)] dup_extents_in [OF e'(1)] by (simp add: in_64_bits_extents)
    ultimately show False using e'(2) by simp
  qed
  then show ?thesis using l by (simp add: dbfile_load_extent_hashes_def)
qed

section \<open>Loading blocks\<close>

text \<open>A file record made for a row has no blocks yet, and the old records stay as they are.\<close>

lemma files_inv_new:
  assumes "files_inv bs st" "recs st p = None" "recs st' = (recs st)(p \<mapsto> r)" "block_tree r = RB_NULL"
  shows "files_inv bs st'"
  using assms by_loff.rb_index_NULL unfolding files_inv_def by (auto simp: domIff)

lemma find_or_load_files:
  assumes "mem_ok mem" "filerecs_inv st" "find_or_load mem 0 fid db st = Some (0, Some f, st')"
  shows "recs st \<subseteq>\<^sub>m recs st'" "files_inv bs st \<Longrightarrow> files_inv bs st'"
proof -
  have "st' = st \<or> (\<exists>p r. recs st p = None \<and> recs st' = (recs st)(p \<mapsto> r) \<and> block_tree r = RB_NULL)"
  proof (cases "filerec_find fid st")
    case None
    obtain r where r: "List.find (\<lambda>r. f_id r = fid) (files db) = Some r"
      using assms(3) None by (cases "List.find (\<lambda>r. f_id r = fid) (files db)") (auto simp: find_or_load_def dbfile_load_one_filerec_def)
    obtain p where p: "mem st = Some p" "recs st p = None" using mem_okE [OF assms(1,2)] .
    obtain st1 where "filerec_new (Some p) True (f_filename r) fid (column_int64 (f_size r)) st = Some (Some p, st1)"
      "recs st1 = (recs st)(p \<mapsto> \<lparr>fd = -1, fd_refs = 0, filename = f_filename r, fileid = fid, fsize = column_int64 (f_size r), block_tree = RB_NULL\<rparr>)"
      using filerec_new_ok [OF assms(2) p(2) None] by blast
    then have "recs st p = None \<and> recs st' = (recs st)(p \<mapsto> \<lparr>fd = -1, fd_refs = 0, filename = f_filename r, fileid = fid, fsize = column_int64 (f_size r), block_tree = RB_NULL\<rparr>)"
      using assms(3) None r p by (simp add: find_or_load_def dbfile_load_one_filerec_def)
    then show ?thesis by (metis filerec.select_convs(6))
  qed (use assms(3) in \<open>simp add: find_or_load_def\<close>)
  then show "recs st \<subseteq>\<^sub>m recs st'" "files_inv bs st \<Longrightarrow> files_inv bs st'"
    using files_inv_new by (auto simp: map_le_def)
qed

text \<open>Inserting a block touches only the tree of blocks of its file.\<close>

lemma filerecs_inv_block_tree:
  assumes "filerecs_inv st" "recs st f = Some r"
  shows "filerecs_inv (st\<lparr>recs := (recs st)(f \<mapsto> r\<lparr>block_tree := t\<rparr>)\<rparr>)"
proof -
  have "{(fileid r', g) | g r'. ((recs st)(f \<mapsto> r\<lparr>block_tree := t\<rparr>)) g = Some r'} = {(fileid r', g) | g r'. recs st g = Some r'}"
    using assms(2) by (auto split: if_splits) (metis option.inject)
  moreover have "dom ((recs st)(f \<mapsto> r\<lparr>block_tree := t\<rparr>)) = dom (recs st)" using assms(2) by auto
  ultimately show ?thesis using assms(1) by (simp add: filerecs_inv_def)
qed

lemma insert_hashed_block_files:
  assumes "insert_hashed_block ea room1 room2 digest file loff (tree, st) = Some (ret, tree', st')" "filerecs_inv st"
  shows "filerecs_inv st'" "filerec_find fid st' = filerec_find fid st"
proof -
  have "st' = st \<or> (\<exists>e. insert_block_into_filerec file e st = Some st')"
    using assms(1) by (auto simp: insert_hashed_block_def Let_def split: option.splits prod.splits if_splits Option.bind_splits)
  moreover have "filerecs_inv st' \<and> filerec_by_fileid st' = filerec_by_fileid st" if "insert_block_into_filerec file e st = Some st'" for e
    using that filerecs_inv_block_tree [OF assms(2)] by (auto simp: insert_block_into_filerec_def split: Option.bind_splits)
  ultimately show "filerecs_inv st'" "filerec_find fid st' = filerec_find fid st" using assms(2) by (auto simp: filerec_find_def)
qed

lemma no_block_there:
  assumes "files_inv bs st" "recs st f = Some r" "\<forall>b. b \<in># bs \<longrightarrow> b_file b = f \<longrightarrow> b_loff b \<noteq> loff"
  shows "find_filerec_block r loff = None"
proof (rule ccontr)
  assume "find_filerec_block r loff \<noteq> None"
  then obtain b where b: "rb_search (\<lambda>x. word_cmp loff (b_loff x)) (block_tree r) = Some b" by (auto simp: find_filerec_block_def)
  have "rb_index b_loff word_cmp (block_tree r)" "set (rb_inorder (block_tree r)) = {b. b \<in># bs \<and> b_file b = f}"
    using assms(1,2) by (auto simp: files_inv_def)
  with by_loff.find_SomeD [OF b] assms(3) show False by auto
qed


text \<open>What the tree holds of a row: digest, file and offset.\<close>

definition block_key :: "file_block \<Rightarrow> digest \<times> fptr \<times> u64" where
  "block_key b = (b_parent b, b_file b, b_loff b)"

definition row_key :: "filerecs \<Rightarrow> block_row \<Rightarrow> digest \<times> fptr \<times> u64" where
  "row_key st b = (br_digest b, the (filerec_find (br_fileid b) st), column_int64 (br_loff b))"

definition rows_new :: "filerecs \<Rightarrow> file_block multiset \<Rightarrow> block_row list \<Rightarrow> bool" where
  "rows_new st bs rows \<longleftrightarrow> (\<forall>row \<in> set rows. \<forall>b. b \<in># bs \<longrightarrow> filerec_find (br_fileid row) st = Some (b_file b) \<longrightarrow>
     b_loff b \<noteq> column_int64 (br_loff row))"

lemma rows_new_load:
  assumes "rows_new st bs rows" "files_inv bs st" "filerecs_inv st" "filerecs_inv st'" "recs st \<subseteq>\<^sub>m recs st'"
  shows "rows_new st' bs rows"
  unfolding rows_new_def
proof (intro ballI allI impI)
  fix row b assume row: "row \<in> set rows" "b \<in># bs" "filerec_find (br_fileid row) st' = Some (b_file b)"
  obtain r where r: "recs st (b_file b) = Some r" using assms(2) row(2) by (auto simp: files_inv_def)
  then have "recs st' (b_file b) = Some r" using assms(5) by (metis domI map_le_def)
  then have "fileid r = br_fileid row" using filerec_find_Some [OF assms(4), of "br_fileid row" "b_file b"] row(3) by simp
  then have "filerec_find (br_fileid row) st = Some (b_file b)" using filerec_find_Some [OF assms(3)] r by blast
  then show "b_loff b \<noteq> column_int64 (br_loff row)" using assms(1) row by (auto simp: rows_new_def)
qed

lemma rows_new_insert:
  assumes "rows_new st bs (row # rows)" "filerecs_inv st" "filerec_find (br_fileid row) st = Some f"
    and "distinct (map (\<lambda>b. (br_fileid b, br_loff b)) (row # rows))" "br_loff ` set (row # rows) \<subseteq> range bind_int64"
  shows "rows_new st (add_mset \<lparr>b_addr = a, b_parent = br_digest row, b_file = f, b_loff = column_int64 (br_loff row)\<rparr> bs) rows"
  unfolding rows_new_def
proof (intro ballI allI impI)
  fix row' b assume r: "row' \<in> set rows" "filerec_find (br_fileid row') st = Some (b_file b)"
    "b \<in># add_mset \<lparr>b_addr = a, b_parent = br_digest row, b_file = f, b_loff = column_int64 (br_loff row)\<rparr> bs"
  show "b_loff b \<noteq> column_int64 (br_loff row')"
  proof (cases "b \<in># bs")
    case True
    then show ?thesis using assms(1) r by (auto simp: rows_new_def)
  next
    case False
    then have b: "b_file b = f" "b_loff b = column_int64 (br_loff row)" using r(3) by auto
    then have "br_fileid row' = br_fileid row" using filerec_find_inj [OF assms(2)] assms(3) r(2) by auto
    moreover have "(br_fileid row', br_loff row') \<in> (\<lambda>b. (br_fileid b, br_loff b)) ` set rows" using r(1) by simp
    ultimately have "br_loff row' \<noteq> br_loff row" using assms(4) by auto
    then show ?thesis using column_inj [of "br_loff row" "br_loff row'"] assms(5) r(1) b(2) by auto
  qed
qed

lemma block_hashes_loop_ok:
  assumes mem: "mem_ok mem" and addr: "\<forall>t. addr t \<noteq> None"
  shows "hash_inv (tree, st) \<Longrightarrow> filerecs_inv st \<Longrightarrow> size (tree_blocks tree) + length rows < 2 ^ 64 \<Longrightarrow>
    \<forall>b \<in> set rows. br_fileid b \<in> f_id ` set (files db) \<Longrightarrow> distinct (map (\<lambda>b. (br_fileid b, br_loff b)) rows) \<Longrightarrow>
    br_loff ` set rows \<subseteq> range bind_int64 \<Longrightarrow> rows_new st (tree_blocks tree) rows \<Longrightarrow>
    \<exists>tree' st'. block_hashes_loop mem addr True (\<lambda>_. 0) db rows (tree, st) = Some (0, tree', st') \<and> hash_inv (tree', st') \<and>
      filerecs_inv st' \<and> keeps_files st st' \<and> (\<forall>b \<in> set rows. filerec_find (br_fileid b) st' \<noteq> None) \<and>
      image_mset block_key (tree_blocks tree') = image_mset block_key (tree_blocks tree) + image_mset (row_key st') (mset rows)"
proof (induction rows arbitrary: tree st)
  case Nil
  then show ?case by (simp add: keeps_files_def)
next
  case (Cons row rows)
  obtain f st1 where f: "find_or_load mem 0 (br_fileid row) db st = Some (0, Some f, st1)" "filerecs_inv st1" "keeps_files st st1"
      "filerec_find (br_fileid row) st1 = Some f"
    using find_or_load_ok [OF mem Cons.prems(2), of "br_fileid row" db] Cons.prems(4) by auto
  note lf = find_or_load_files [OF mem Cons.prems(2) f(1)]
  have h1: "hash_inv (tree, st1)" using Cons.prems(1) lf(2) by (simp add: hash_inv_def)
  have new1: "rows_new st1 (tree_blocks tree) (row # rows)"
    using rows_new_load [OF Cons.prems(7) _ Cons.prems(2) f(2) lf(1)] Cons.prems(1) by (simp add: hash_inv_def)
  obtain a where a: "addr tree = Some a" using addr by auto
  obtain r where r: "recs st1 f = Some r" using filerec_find_Some [OF f(2)] f(4) by blast
  have "find_filerec_block r (column_int64 (br_loff row)) = None"
    by (rule no_block_there [OF _ r]) (use h1 new1 f(4) in \<open>auto simp: hash_inv_def rows_new_def\<close>)
  then obtain tree2 st2 where i: "insert_hashed_block (Some a) True True (br_digest row) f (column_int64 (br_loff row)) (tree, st1) = Some (0, tree2, st2)"
      "hash_inv (tree2, st2)" "tree_blocks tree2 = add_mset \<lparr>b_addr = a, b_parent = br_digest row, b_file = f, b_loff = column_int64 (br_loff row)\<rparr> (tree_blocks tree)"
    using insert_hashed_block_ok [OF h1 _ r, of "column_int64 (br_loff row)" a "br_digest row"] Cons.prems(3) by auto
  note fi = insert_hashed_block_files [OF i(1) f(2)]
  have "rows_new st1 (tree_blocks tree2) rows"
    unfolding i(3) by (rule rows_new_insert [OF new1 f(2,4) Cons.prems(5,6)])
  then have new2: "rows_new st2 (tree_blocks tree2) rows" by (simp add: rows_new_def fi(2))
  from Cons.IH [OF i(2) fi(1) _ _ _ _ new2] Cons.prems(3-6) i(3) obtain tree' st' where
    l: "block_hashes_loop mem addr True (\<lambda>_. 0) db rows (tree2, st2) = Some (0, tree', st')" "hash_inv (tree', st')" "filerecs_inv st'"
      "keeps_files st2 st'" "\<forall>b \<in> set rows. filerec_find (br_fileid b) st' \<noteq> None"
      "image_mset block_key (tree_blocks tree') = image_mset block_key (tree_blocks tree2) + image_mset (row_key st') (mset rows)" by auto
  have k: "keeps_files st1 st'" using l(4) by (simp add: keeps_files_def fi(2))
  then have fr: "filerec_find (br_fileid row) st' = Some f" using f(4) by (simp add: keeps_files_def)
  have "block_hashes_loop mem addr True (\<lambda>_. 0) db (row # rows) (tree, st) = Some (0, tree', st')" using f(1) a i(1) l(1) by simp
  moreover have "image_mset block_key (tree_blocks tree') = image_mset block_key (tree_blocks tree) + image_mset (row_key st') (mset (row # rows))"
    using l(6) i(3) fr by (simp add: block_key_def row_key_def)
  ultimately show ?case using l(2,3,5) fr keeps_files_trans [OF f(3) k] by auto
qed


lemma batch_dups_filter: "\<exists>P. batch_dups key past now rows = filter P rows"
  unfolding batch_dups_def Let_def by blast

lemma joined_past_distinct:
  assumes "db_inv db"
  shows "distinct (map (\<lambda>(b, r). (br_fileid b, br_loff b)) (blocks_with_files db))"
  unfolding blocks_with_files_def by (rule joined_distinct) (use assms in \<open>auto simp: db_inv_def\<close>)

lemma dup_blocks_distinct:
  assumes "db_inv db"
  shows "distinct (map (\<lambda>b. (br_fileid b, br_loff b)) (get_duplicate_blocks seq db))"
proof -
  obtain P where P: "get_duplicate_blocks seq db = map fst (filter P (blocks_with_files db))"
    unfolding get_duplicate_blocks_def using batch_dups_filter by metis
  have "distinct (map (\<lambda>(b, r). (br_fileid b, br_loff b)) (filter P (blocks_with_files db)))"
    using joined_past_distinct [OF assms] by (rule distinct_map_filter)
  then show ?thesis unfolding P by (simp add: comp_def case_prod_unfold)
qed

lemma dup_blocks_in: "b \<in> set (get_duplicate_blocks seq db) \<Longrightarrow> b \<in> set (blocks db) \<and> br_fileid b \<in> f_id ` set (files db)"
proof -
  assume "b \<in> set (get_duplicate_blocks seq db)"
  then obtain r where "(b, r) \<in> set (blocks_with_files db)" by (auto simp: get_duplicate_blocks_def batch_dups_iff)
  then show ?thesis by (auto simp: blocks_with_files_def)
qed

lemma dup_block_mate:
  assumes "db_inv db" "b \<in> set (get_duplicate_blocks seq db)"
  shows "\<exists>b' \<in> set (get_duplicate_blocks seq db). (br_fileid b', br_loff b') \<noteq> (br_fileid b, br_loff b) \<and> br_digest b' = br_digest b"
proof -
  let ?past = "\<lambda>(b, r). f_dedupe_seq r \<le> uint seq" and ?now = "\<lambda>(b, r). f_dedupe_seq r = uint seq"
  let ?key = "\<lambda>(b, r). br_digest b" and ?J = "blocks_with_files db"
  obtain x where x: "x \<in> set (batch_dups ?key ?past ?now ?J)" "b = fst x" using assms(2) by (auto simp: get_duplicate_blocks_def)
  have j: "x \<in> set ?J" "\<exists>y \<in> set ?J. ?now y \<and> ?key y = ?key x" "1 < length (filter (\<lambda>z. ?past z \<and> ?key z = ?key x) ?J)"
    using x(1) unfolding batch_dups_iff by blast+
  from two_of_filter [OF j(3) joined_past_distinct [OF assms(1)] j(1)] obtain y where
    y: "y \<in> set ?J" "?past y" "?key y = ?key x" "(\<lambda>(b, r). (br_fileid b, br_loff b)) y \<noteq> (\<lambda>(b, r). (br_fileid b, br_loff b)) x" by blast
  have "y \<in> set (batch_dups ?key ?past ?now ?J)" unfolding batch_dups_iff y(3) using y(1,2) j(2,3) by blast
  then have "fst y \<in> set (get_duplicate_blocks seq db)" by (simp add: get_duplicate_blocks_def)
  then show ?thesis using y(3,4) x(2) by (cases x; cases y) auto
qed

lemma loaded_lists_long:
  assumes "tree_inv tree" "filerecs_inv st" "db_inv db" "in_64_bits db" "\<forall>b \<in> set (get_duplicate_blocks seq db). filerec_find (br_fileid b) st \<noteq> None"
    and eq: "image_mset block_key (tree_blocks tree) = image_mset (row_key st) (mset (get_duplicate_blocks seq db))"
    and d: "d \<in> set (rb_inorder (ht_root tree))"
  shows "1 < length (dl_list d)"
proof -
  have set_eq: "block_key ` set_mset (tree_blocks tree) = row_key st ` set (get_duplicate_blocks seq db)"
    using arg_cong [OF eq, of set_mset] by simp
  obtain b where b: "b \<in> set (dl_list d)" using assms(1) d by (fastforce simp: tree_inv_def neq_Nil_conv)
  have bp: "b_parent b = dl_hash d" "b \<in># tree_blocks tree" using assms(1) d b by (auto simp: tree_inv_def dups_inv_def tree_blocks_member)
  then obtain row where row: "row \<in> set (get_duplicate_blocks seq db)" "block_key b = row_key st row" using set_eq by blast
  obtain row' where row': "row' \<in> set (get_duplicate_blocks seq db)" "(br_fileid row', br_loff row') \<noteq> (br_fileid row, br_loff row)"
      "br_digest row' = br_digest row"
    using dup_block_mate [OF assms(3) row(1)] by blast
  then obtain b' where b': "b' \<in># tree_blocks tree" "block_key b' = row_key st row'" using set_eq by (metis (no_types, lifting) image_iff)
  have "b' \<noteq> b"
  proof
    assume "b' = b"
    then have k: "row_key st row' = row_key st row" using row(2) b'(2) by simp
    obtain f f' where f: "filerec_find (br_fileid row) st = Some f" "filerec_find (br_fileid row') st = Some f'"
      using assms(5) row(1) row'(1) by blast
    then have "f' = f" using k by (simp add: row_key_def)
    then have "br_fileid row' = br_fileid row" using filerec_find_inj [OF assms(2) f(2)] f(1) by simp
    moreover have "br_loff row' = br_loff row"
      using k column_inj in_64_bits_blocks [OF assms(4)] dup_blocks_in row(1) row'(1) by (simp add: row_key_def)
    ultimately show False using row'(2) by simp
  qed
  obtain d' where d': "find_block_list tree (b_parent b') = Some d'" "b' \<in> set (dl_list d')"
    using tree_block_unique [OF assms(1) b'(1)] by blast
  have "b_parent b' = dl_hash d" using b'(2) row(2) row'(3) bp(1) by (simp add: block_key_def row_key_def)
  then have "d' = d" using d' d assms(1) by_hash.find_unique [of "ht_root tree" d] by (simp add: tree_inv_def find_block_list_def)
  then have "card {b, b'} \<le> card (set (dl_list d))" using b d'(2) by (intro card_mono) auto
  then have "card {b, b'} \<le> length (dl_list d)" using card_length [of "dl_list d"] by (rule order.trans)
  then show ?thesis using \<open>b' \<noteq> b\<close> by simp
qed

lemma load_block_hashes_ok:
  assumes "mem_ok mem" "\<forall>t. addr t \<noteq> None" "hash_inv (init_hash_tree, st)" "filerecs_inv st" "db_inv db" "in_64_bits db"
    and "length (get_duplicate_blocks seq db) < 2 ^ 64"
  shows "\<exists>tree' st'. dbfile_load_block_hashes mem addr True (\<lambda>_. 0) 0 seq db (init_hash_tree, st) = Some (0, tree', st') \<and> hash_inv (tree', st') \<and>
    filerecs_inv st' \<and> (\<forall>b \<in> set (get_duplicate_blocks seq db). filerec_find (br_fileid b) st' \<noteq> None) \<and>
    image_mset block_key (tree_blocks tree') = image_mset (row_key st') (mset (get_duplicate_blocks seq db)) \<and>
    (\<forall>d \<in> set (rb_inorder (ht_root tree')). 1 < length (dl_list d) \<and>
      (\<forall>h \<in> set (rb_inorder (dl_files_root d)). sorted_wrt (\<lambda>a b. b_loff a \<le> b_loff b) (h_blocks h)))"
proof -
  have empty: "tree_blocks init_hash_tree = {#}" by (simp add: init_hash_tree_def root_blocks_def)
  have sz: "size (tree_blocks init_hash_tree) + length (get_duplicate_blocks seq db) < 2 ^ 64" using assms(7) empty by simp
  have infiles: "\<forall>b \<in> set (get_duplicate_blocks seq db). br_fileid b \<in> f_id ` set (files db)" using dup_blocks_in by blast
  have in64: "br_loff ` set (get_duplicate_blocks seq db) \<subseteq> range bind_int64"
    using dup_blocks_in in_64_bits_blocks [OF assms(6)] by blast
  have new: "rows_new st (tree_blocks init_hash_tree) (get_duplicate_blocks seq db)" by (simp add: rows_new_def empty)
  obtain tree st' where l: "block_hashes_loop mem addr True (\<lambda>_. 0) db (get_duplicate_blocks seq db) (init_hash_tree, st) = Some (0, tree, st')"
      "hash_inv (tree, st')" "filerecs_inv st'" "\<forall>b \<in> set (get_duplicate_blocks seq db). filerec_find (br_fileid b) st' \<noteq> None"
      "image_mset block_key (tree_blocks tree) = image_mset (row_key st') (mset (get_duplicate_blocks seq db))"
    using block_hashes_loop_ok [OF assms(1-4) sz infiles dup_blocks_distinct [OF assms(5)] in64 new] empty by auto
  have s: "tree_inv (sort_file_hash_heads tree)" "hash_inv (sort_file_hash_heads tree, st')"
    using l(2) sort_file_hash_heads_inv by (auto simp: hash_inv_def)
  have "\<forall>d \<in> set (rb_inorder (ht_root (sort_file_hash_heads tree))). 1 < length (dl_list d)"
    using loaded_lists_long [OF s(1) l(3) assms(5,6) l(4)] l(5) by simp
  with sort_file_hash_heads_sorted show ?thesis using l s(2) by (simp add: dbfile_load_block_hashes_def)
qed

section \<open>What the queries ask for\<close>

lemma two_in_filter: "x \<in> set xs \<Longrightarrow> y \<in> set xs \<Longrightarrow> P x \<Longrightarrow> P y \<Longrightarrow> x \<noteq> y \<Longrightarrow> 1 < length (filter P xs)"
proof -
  assume "x \<in> set xs" "y \<in> set xs" "P x" "P y" and ne: "x \<noteq> y"
  then have "card {x, y} \<le> card (set (filter P xs))" by (intro card_mono) auto
  also have "\<dots> \<le> length (filter P xs)" by (rule card_length)
  finally show ?thesis using ne by simp
qed

lemma batch_dups_two:
  assumes "distinct (map f rows)"
  shows "x \<in> set (batch_dups key past now rows) \<longleftrightarrow> x \<in> set rows \<and> past x \<and> (\<exists>y \<in> set rows. now y \<and> key y = key x) \<and>
     (\<exists>y \<in> set rows. past y \<and> key y = key x \<and> f y \<noteq> f x)"
proof -
  have "1 < length (filter (\<lambda>z. past z \<and> key z = key x) rows) \<longleftrightarrow> (\<exists>y \<in> set rows. past y \<and> key y = key x \<and> f y \<noteq> f x)"
    if "x \<in> set rows" "past x"
    using two_of_filter [OF _ assms that(1), of "\<lambda>z. past z \<and> key z = key x"] that two_in_filter [of x rows _ "\<lambda>z. past z \<and> key z = key x"]
    by blast
  then show ?thesis unfolding batch_dups_iff by blast
qed

text \<open>
  The specification of the three queries: what belongs to a file of this batch or an earlier one, has
  a duplicate elsewhere among those, and has one in this batch.
\<close>

definition file_dups :: "u32 \<Rightarrow> database \<Rightarrow> file_row set" where
  "file_dups seq db =
     (let old = {r \<in> set (files db). f_dedupe_seq r \<le> uint seq \<and> not_inlined_row r \<and> f_digest r \<noteq> None};
          same = (\<lambda>r r'. f_digest r' = f_digest r \<and> f_size r' = f_size r) in
      {r \<in> old. (\<exists>r' \<in> old. same r r' \<and> f_id r' \<noteq> f_id r) \<and> (\<exists>r' \<in> old. same r r' \<and> f_dedupe_seq r' = uint seq)})"

definition extent_dups :: "u32 \<Rightarrow> database \<Rightarrow> extent_row set" where
  "extent_dups seq db =
     (let old = {e \<in> set (extents db). \<exists>r \<in> set (files db). f_id r = er_fileid e \<and> f_dedupe_seq r \<le> uint seq};
          new = {e \<in> set (extents db). \<exists>r \<in> set (files db). f_id r = er_fileid e \<and> f_dedupe_seq r = uint seq};
          same = (\<lambda>e e'. er_digest e' = er_digest e \<and> er_len e' = er_len e) in
      {e \<in> old. (\<exists>e' \<in> old. same e e' \<and> (er_fileid e', er_loff e') \<noteq> (er_fileid e, er_loff e)) \<and> (\<exists>e' \<in> new. same e e')})"

definition block_dups :: "u32 \<Rightarrow> database \<Rightarrow> block_row set" where
  "block_dups seq db =
     (let old = {b \<in> set (blocks db). \<exists>r \<in> set (files db). f_id r = br_fileid b \<and> f_dedupe_seq r \<le> uint seq};
          new = {b \<in> set (blocks db). \<exists>r \<in> set (files db). f_id r = br_fileid b \<and> f_dedupe_seq r = uint seq} in
      {b \<in> old. (\<exists>b' \<in> old. br_digest b' = br_digest b \<and> (br_fileid b', br_loff b') \<noteq> (br_fileid b, br_loff b)) \<and>
         (\<exists>b' \<in> new. br_digest b' = br_digest b)})"

lemma get_duplicate_files_spec:
  assumes "db_inv db"
  shows "set (get_duplicate_files seq db) = file_dups seq db"
proof -
  have d: "distinct (map f_id (files db))" using assms by (simp add: db_inv_def)
  show ?thesis unfolding set_eq_iff get_duplicate_files_def batch_dups_two [OF d] file_dups_def Let_def by fastforce
qed

lemma in_map_fst: "x \<in> set (map fst xs) \<longleftrightarrow> (\<exists>y. (x, y) \<in> set xs)"
  by force

lemma joined_extents: "(e, r) \<in> set (extents_with_files db) \<longleftrightarrow> e \<in> set (extents db) \<and> r \<in> set (files db) \<and> f_id r = er_fileid e"
  by (auto simp: extents_with_files_def)

lemma joined_blocks: "(b, r) \<in> set (blocks_with_files db) \<longleftrightarrow> b \<in> set (blocks db) \<and> r \<in> set (files db) \<and> f_id r = br_fileid b"
  by (auto simp: blocks_with_files_def)

lemma joined_extents_distinct:
  assumes "db_inv db"
  shows "distinct (map (\<lambda>(e, r). (er_fileid e, er_loff e, er_len e)) (extents_with_files db))"
  unfolding extents_with_files_def by (rule joined_distinct) (use assms in \<open>auto simp: db_inv_def\<close>)

lemma get_duplicate_blocks_spec:
  assumes "db_inv db"
  shows "set (get_duplicate_blocks seq db) = block_dups seq db"
proof -
  have "b \<in> set (get_duplicate_blocks seq db) \<longleftrightarrow> b \<in> block_dups seq db" for b
  proof -
    have "b \<in> set (get_duplicate_blocks seq db) \<longleftrightarrow> (\<exists>r. (b, r) \<in> set (batch_dups (\<lambda>(b, r). br_digest b)
        (\<lambda>(b, r). f_dedupe_seq r \<le> uint seq) (\<lambda>(b, r). f_dedupe_seq r = uint seq) (blocks_with_files db)))"
      unfolding get_duplicate_blocks_def by (rule in_map_fst)
    then show ?thesis unfolding batch_dups_two [OF joined_past_distinct [OF assms]] block_dups_def Let_def
      by (simp add: Bex_def split_paired_Ex joined_blocks del: prod.inject) blast
  qed
  then show ?thesis by blast
qed

lemma get_duplicate_extents_spec:
  assumes "db_inv db"
  shows "set (get_duplicate_extents seq db) = extent_dups seq db"
proof -
  have "e \<in> set (get_duplicate_extents seq db) \<longleftrightarrow> e \<in> extent_dups seq db" for e
  proof -
    have "e \<in> set (get_duplicate_extents seq db) \<longleftrightarrow> (\<exists>r. (e, r) \<in> set (batch_dups (\<lambda>(e, r). (er_digest e, er_len e))
        (\<lambda>(e, r). f_dedupe_seq r \<le> uint seq) (\<lambda>(e, r). f_dedupe_seq r = uint seq) (extents_with_files db)))"
      unfolding get_duplicate_extents_def by (rule in_map_fst)
    then show ?thesis unfolding batch_dups_two [OF joined_extents_distinct [OF assms]] extent_dups_def Let_def
      by (simp add: Bex_def split_paired_Ex joined_extents) blast
  qed
  then show ?thesis by blast
qed


section \<open>The properties of loading\<close>

definition first_free :: "filerecs \<Rightarrow> fptr option" where
  "first_free st = Some (LEAST p. recs st p = None)"

lemma first_free_ok: "mem_ok first_free"
  unfolding mem_ok_def first_free_def
proof (intro allI impI)
  fix st assume "finite (dom (recs st))"
  then obtain p where "p \<notin> dom (recs st)" using ex_new_if_finite [OF infinite_UNIV_nat] by blast
  then have "recs st (LEAST p. recs st p = None) = None" by (intro LeastI [of "\<lambda>p. recs st p = None" p]) auto
  then show "\<exists>p. Some (LEAST p. recs st p = None) = Some p \<and> recs st p = None" by blast
qed

text \<open>Two files with the same content, scanned in the first batch.\<close>

definition example_scan :: "int \<Rightarrow> database \<Rightarrow> database" where
  "example_scan fid db =
     (let db = snd (dbfile_store_extent_hashes (\<lambda>_. 0) fid [\<lparr>ec_loff = 0, ec_poff = 8, ec_len = 4096, ec_digest = [5]\<rparr>] db);
          db = snd (dbfile_store_block_hashes (\<lambda>_. 0) fid [\<lparr>bc_loff = 0, bc_digest = [6]\<rparr>] db) in
      snd (dbfile_update_scanned_file 0 fid [7] 0 db))"

definition example_files :: database where
  "example_files = snd (dbfile_store_file_info 0 2 (example_db_file\<lparr>df_filename := ''/b'', df_ino := 8\<rparr>)
     (snd (dbfile_store_file_info 0 1 example_db_file create_tables)))"

definition example_db :: database where
  "example_db = example_scan 2 (example_scan 1 example_files)"

lemma example_scan_reachable:
  assumes "db_reachable db"
  shows "db_reachable (example_scan fid db)"
proof -
  define db1 where "db1 = snd (dbfile_store_extent_hashes (\<lambda>_. 0) fid [\<lparr>ec_loff = 0, ec_poff = 8, ec_len = 4096, ec_digest = [5]\<rparr>] db)"
  define db2 where "db2 = snd (dbfile_store_block_hashes (\<lambda>_. 0) fid [\<lparr>bc_loff = 0, bc_digest = [6]\<rparr>] db1)"
  have "db_reachable db1" unfolding db1_def by (rule db_reachable_step [OF assms db_step.store_extents])
  then have "db_reachable db2" unfolding db2_def by (rule db_reachable_step [OF _ db_step.store_blocks])
  then have "db_reachable (snd (dbfile_update_scanned_file 0 fid [7] 0 db2))" by (rule db_reachable_step [OF _ db_step.update_scanned])
  then show ?thesis by (simp add: example_scan_def Let_def db1_def db2_def)
qed

lemma example_files_reachable: "db_reachable example_files"
proof -
  define db where "db = snd (dbfile_store_file_info 0 1 example_db_file create_tables)"
  have ids: "f_id ` set (files create_tables) = {}" "f_id ` set (files db) = {1}"
    by (simp_all add: create_tables_def db_def dbfile_store_file_info_def write_file_def Let_def)
  have "db_reachable db"
    unfolding db_def by (rule db_reachable_step [OF db_reachable_create]) (rule db_step.store_file, simp add: ids)
  then show ?thesis
    unfolding example_files_def db_def [symmetric] by (rule db_reachable_step) (rule db_step.store_file, simp add: ids)
qed

lemma example_db_reachable: "db_reachable example_db"
  unfolding example_db_def by (intro example_scan_reachable example_files_reachable)

lemma example_files_rows:
  "example_files = \<lparr>files = [\<lparr>f_id = 1, f_filename = ''/a'', f_ino = 7, f_subvol = 0, f_size = 3, f_mtime = 9, f_dedupe_seq = 1, f_digest = None, f_flags = None\<rparr>,
     \<lparr>f_id = 2, f_filename = ''/b'', f_ino = 8, f_subvol = 0, f_size = 3, f_mtime = 9, f_dedupe_seq = 1, f_digest = None, f_flags = None\<rparr>],
     blocks = [], extents = [], config = []\<rparr>"
  by (simp add: example_files_def create_tables_def dbfile_store_file_info_def write_file_def delete_files_def example_db_file_def bind_int64_def Let_def)

lemma example_scan_eq:
  assumes "fid \<in> f_id ` set (files db)" "fid \<notin> br_fileid ` set (blocks db)" "fid \<notin> er_fileid ` set (extents db)"
  shows "example_scan fid db = db\<lparr>files := map (\<lambda>r. if f_id r = fid then r\<lparr>f_digest := Some [7], f_flags := Some 0\<rparr> else r) (files db),
    blocks := blocks db @ [\<lparr>br_digest = [6], br_fileid = fid, br_loff = 0\<rparr>],
    extents := extents db @ [\<lparr>er_digest = [5], er_fileid = fid, er_loff = 0, er_poff = 8, er_len = 4096\<rparr>]\<rparr>"
proof -
  have "insert_extent_row \<lparr>er_digest = [5], er_fileid = fid, er_loff = 0, er_poff = 8, er_len = 4096\<rparr> db =
      Some (db\<lparr>extents := extents db @ [\<lparr>er_digest = [5], er_fileid = fid, er_loff = 0, er_poff = 8, er_len = 4096\<rparr>]\<rparr>)"
    using assms by (force simp: insert_extent_row_def)
  moreover have "insert_block \<lparr>br_digest = [6], br_fileid = fid, br_loff = 0\<rparr> d = Some (d\<lparr>blocks := blocks d @ [\<lparr>br_digest = [6], br_fileid = fid, br_loff = 0\<rparr>]\<rparr>)"
    if "files d = files db" "blocks d = blocks db" for d using assms that by (force simp: insert_block_def)
  ultimately show ?thesis by (simp add: example_scan_def Let_def bind_int64_def dbfile_update_scanned_file_def)
qed

lemma example_rows:
  "files example_db = [\<lparr>f_id = 1, f_filename = ''/a'', f_ino = 7, f_subvol = 0, f_size = 3, f_mtime = 9, f_dedupe_seq = 1, f_digest = Some [7], f_flags = Some 0\<rparr>,
     \<lparr>f_id = 2, f_filename = ''/b'', f_ino = 8, f_subvol = 0, f_size = 3, f_mtime = 9, f_dedupe_seq = 1, f_digest = Some [7], f_flags = Some 0\<rparr>]"
  "extents example_db = [\<lparr>er_digest = [5], er_fileid = 1, er_loff = 0, er_poff = 8, er_len = 4096\<rparr>, \<lparr>er_digest = [5], er_fileid = 2, er_loff = 0, er_poff = 8, er_len = 4096\<rparr>]"
  "blocks example_db = [\<lparr>br_digest = [6], br_fileid = 1, br_loff = 0\<rparr>, \<lparr>br_digest = [6], br_fileid = 2, br_loff = 0\<rparr>]"
  by (simp_all add: example_db_def example_scan_eq example_files_rows)

lemma example_lengths:
  "length (get_duplicate_files 1 example_db) = 2" "length (get_duplicate_extents 1 example_db) = 2" "length (get_duplicate_blocks 1 example_db) = 2"
  by (simp_all add: get_duplicate_files_def get_duplicate_extents_def get_duplicate_blocks_def extents_with_files_def blocks_with_files_def
      batch_dups_def example_rows not_inlined_row_def)

text \<open>
  C20. From any hash file the program can have written, \<open>dbfile_load_same_files\<close> fills the results tree
  with exactly the whole files with a digest, other than inlined ones, that have a duplicate of that kind in
  this batch or before and one in this batch, when the statement and the allocations succeed,
  grouped by size and digest, each under the file record that was made for its id; no group holds a
  single file.
\<close>

theorem load_same_files_correct:
  assumes "mem_ok mem" "filerecs_inv st" "db_reachable db" "length (get_duplicate_files seq db) < 2 ^ 31"
  shows "\<exists>st' res'. dbfile_load_same_files mem True 0 seq db st init_results_tree = Some (0, st', res') \<and> filerecs_inv st' \<and> res_inv res' \<and>
    (\<forall>r \<in> file_dups seq db. filerec_find (f_id r) st' \<noteq> None) \<and>
    res_extents res' = (\<Union>r \<in> file_dups seq db. group_of_row st' r) \<and> (\<forall>g. card (res_extents res' `` {g}) \<noteq> 1)"
  using load_same_files_ok [OF assms(1,2) db_reachable_ok(1) [OF assms(3)] assms(4)]
  unfolding get_duplicate_files_spec [OF db_reachable_ok(1) [OF assms(3)]] .

theorem load_same_files_correct_witness:
  "\<exists>st' res'. dbfile_load_same_files first_free True 0 1 example_db no_filerecs init_results_tree = Some (0, st', res') \<and> filerecs_inv st' \<and> res_inv res' \<and>
    (\<forall>r \<in> file_dups 1 example_db. filerec_find (f_id r) st' \<noteq> None) \<and>
    res_extents res' = (\<Union>r \<in> file_dups 1 example_db. group_of_row st' r) \<and> (\<forall>g. card (res_extents res' `` {g}) \<noteq> 1)"
  by (rule load_same_files_correct [OF first_free_ok no_filerecs_inv example_db_reachable]) (simp add: example_lengths)

text \<open>
  C5. \<open>dbfile_load_extent_hashes\<close> fills the results tree with exactly the extents of earlier files and
  of this batch that have a duplicate of the same length, one of them in this batch, when the
  statements and the allocations succeed; no group of the tree has a single extent, which the dedupe
  phase would pass over.
\<close>

theorem load_extent_hashes_correct:
  assumes "mem_ok mem" "filerecs_inv st" "db_reachable db" "length (get_duplicate_extents seq db) < 2 ^ 31"
  shows "\<exists>st' res'. dbfile_load_extent_hashes mem True (\<lambda>_. 0) 0 seq db st init_results_tree = Some (0, st', res') \<and> filerecs_inv st' \<and> res_inv res' \<and>
    (\<forall>e \<in> extent_dups seq db. filerec_find (er_fileid e) st' \<noteq> None) \<and>
    res_extents res' = (\<Union>e \<in> extent_dups seq db. group_of_extent st' e) \<and> (\<forall>g. card (res_extents res' `` {g}) \<noteq> 1)"
  using load_extent_hashes_ok [OF assms(1,2) db_reachable_ok [OF assms(3)] assms(4)]
  unfolding get_duplicate_extents_spec [OF db_reachable_ok(1) [OF assms(3)]] .

theorem load_extent_hashes_correct_witness:
  "\<exists>st' res'. dbfile_load_extent_hashes first_free True (\<lambda>_. 0) 0 1 example_db no_filerecs init_results_tree = Some (0, st', res') \<and> filerecs_inv st' \<and> res_inv res' \<and>
    (\<forall>e \<in> extent_dups 1 example_db. filerec_find (er_fileid e) st' \<noteq> None) \<and>
    res_extents res' = (\<Union>e \<in> extent_dups 1 example_db. group_of_extent st' e) \<and> (\<forall>g. card (res_extents res' `` {g}) \<noteq> 1)"
  by (rule load_extent_hashes_correct [OF first_free_ok no_filerecs_inv example_db_reachable]) (simp add: example_lengths)

text \<open>
  C19. \<open>dbfile_load_block_hashes\<close> fills an empty hash tree with exactly the blocks of earlier files and
  of this batch that have a duplicate, one of them in this batch; the invariant of the hash tree
  and of the file records holds, every list of the tree has two blocks at least, and the blocks
  of a file in it are in the order of their offsets, as the search in extents needs them.
\<close>

theorem load_block_hashes_correct:
  assumes "mem_ok mem" "\<forall>t. addr t \<noteq> None" "hash_inv (init_hash_tree, st)" "filerecs_inv st" "db_reachable db"
    and "length (get_duplicate_blocks seq db) < 2 ^ 64"
  shows "\<exists>tree' st'. dbfile_load_block_hashes mem addr True (\<lambda>_. 0) 0 seq db (init_hash_tree, st) = Some (0, tree', st') \<and> hash_inv (tree', st') \<and>
    filerecs_inv st' \<and> (\<forall>b \<in> block_dups seq db. filerec_find (br_fileid b) st' \<noteq> None) \<and>
    block_key ` set_mset (tree_blocks tree') = row_key st' ` block_dups seq db \<and>
    (\<forall>d \<in> set (rb_inorder (ht_root tree')). 1 < length (dl_list d) \<and>
      (\<forall>h \<in> set (rb_inorder (dl_files_root d)). sorted_wrt (\<lambda>a b. b_loff a \<le> b_loff b) (h_blocks h)))"
proof -
  obtain tree' st' where l: "dbfile_load_block_hashes mem addr True (\<lambda>_. 0) 0 seq db (init_hash_tree, st) = Some (0, tree', st')" "hash_inv (tree', st')"
      "filerecs_inv st'" "image_mset block_key (tree_blocks tree') = image_mset (row_key st') (mset (get_duplicate_blocks seq db))"
      "\<forall>b \<in> set (get_duplicate_blocks seq db). filerec_find (br_fileid b) st' \<noteq> None" "\<forall>d \<in> set (rb_inorder (ht_root tree')). 1 < length (dl_list d) \<and>
        (\<forall>h \<in> set (rb_inorder (dl_files_root d)). sorted_wrt (\<lambda>a b. b_loff a \<le> b_loff b) (h_blocks h))"
    using load_block_hashes_ok [OF assms(1-4) db_reachable_ok [OF assms(5)] assms(6)] by blast
  have "block_key ` set_mset (tree_blocks tree') = row_key st' ` set (get_duplicate_blocks seq db)"
    using arg_cong [OF l(4), of set_mset] by simp
  then show ?thesis using l(1-3,5,6) unfolding get_duplicate_blocks_spec [OF db_reachable_ok(1) [OF assms(5)]] by blast
qed

theorem load_block_hashes_correct_witness:
  "\<exists>tree' st'. dbfile_load_block_hashes first_free (\<lambda>t. Some 5) True (\<lambda>_. 0) 0 1 example_db (init_hash_tree, no_filerecs) = Some (0, tree', st') \<and>
    hash_inv (tree', st') \<and> filerecs_inv st' \<and> (\<forall>b \<in> block_dups 1 example_db. filerec_find (br_fileid b) st' \<noteq> None) \<and>
    block_key ` set_mset (tree_blocks tree') = row_key st' ` block_dups 1 example_db \<and>
    (\<forall>d \<in> set (rb_inorder (ht_root tree')). 1 < length (dl_list d) \<and>
      (\<forall>h \<in> set (rb_inorder (dl_files_root d)). sorted_wrt (\<lambda>a b. b_loff a \<le> b_loff b) (h_blocks h)))"
proof (rule load_block_hashes_correct [OF first_free_ok _ _ no_filerecs_inv example_db_reachable])
  show "hash_inv (init_hash_tree, no_filerecs)" by (rule hash_inv_init) (simp add: no_filerecs_def)
qed (simp_all add: example_lengths)

end
