(* ===== verification/ScanFiles.thy ===== *)
theory ScanFiles
  imports Dbfile
begin

text \<open>
  Finding the files to hash, the first half of \<open>file_scan.c\<close> and \<open>btrfs-util.c\<close>: which paths are taken
  (\<open>check_file\<close>), the walk through a directory, and the update of the hash file that comes before a
  file is queued for hashing.

  The system and the libraries are the record \<open>scan_env\<close>: what the calls would answer. A call that
  fails with \<open>errno\<close> is an \<open>Inl\<close>. A directory is the list of what \<open>readdir\<close> returns until its end, \<open>None\<close> for
  an error. \<open>env_rowid\<close> is the id \<open>sqlite\<close> picks for a new row; the codes of the statements are those of
  \<open>Dbfile\<close>. What the process keeps is the record \<open>scan_state\<close>: the hash file with the state a rollback
  goes back to, the mutex, the locked file system, the static variables of \<open>__scan_file\<close>, and the
  queue of the pool of threads. Taking the mutex a second time never returns, which is \<open>None\<close>, as is
  an abort and a NULL pointer that is followed. \<open>env_task_room\<close> and \<open>env_name_room\<close> say whether the \<open>malloc\<close> and the
  \<open>strdup\<close> of a queue entry get memory, which the code does not check; \<open>env_in_memory\<close> that there is no
  \<open>--hashfile\<close>. Messages are left out.
\<close>

section \<open>Model\<close>

unbundle bit_operations_syntax

type_synonym uuid = "u8 list"

record statx =
  stx_mask :: u32
  stx_mode :: "16 word"
  stx_ino :: u64
  stx_size :: u64
  stx_mtime_sec :: u64
  stx_mtime_nsec :: u32
  stx_dev_major :: u32
  stx_dev_minor :: u32

datatype dtype = DT_UNKNOWN | DT_FIFO | DT_CHR | DT_DIR | DT_BLK | DT_REG | DT_LNK | DT_SOCK

record dirent =
  d_name :: string
  d_type :: dtype

record locked_fs =
  lf_uuid :: uuid
  lf_dev :: u64
  lf_is_btrfs :: bool

record file_to_scan =
  fs_path :: "string option"
  fs_fileid :: int
  fs_filesize :: u64
  fs_position :: u64

record scan_env =
  env_exclude :: "string list"
  env_fnmatch :: "string \<Rightarrow> string \<Rightarrow> bool"
  env_open :: "string \<Rightarrow> int + int"
  env_statfs :: "string \<Rightarrow> int + u64"
  env_fs_info :: "int \<Rightarrow> int + uuid"
  env_ino_lookup :: "int \<Rightarrow> int + u64"
  env_statx :: "string \<Rightarrow> int \<times> statx"
  env_statx_at :: "string \<Rightarrow> string \<Rightarrow> int \<times> statx"
  env_lstat :: "string \<Rightarrow> int"
  env_mount_source :: "u64 \<Rightarrow> string option option"
  env_blkid_uuid :: "string \<Rightarrow> string option"
  env_uuid_parse :: "string \<Rightarrow> uuid option"
  env_uuid_junk :: string
  env_opendir :: "string \<Rightarrow> dirent option list option"
  env_realpath :: "string \<Rightarrow> string option"
  env_recurse_dirs :: bool
  env_batch_size :: u32
  env_blocksize :: u32
  env_dedupe_seq :: u32
  env_config_rc :: int
  env_describe_rc :: "string \<Rightarrow> int"
  env_rename_rc :: "string \<Rightarrow> int"
  env_remove_rc :: "string \<Rightarrow> int \<times> int"
  env_store_rc :: "string \<Rightarrow> int"
  env_rowid :: "database \<Rightarrow> int"
  env_push :: "string \<Rightarrow> bool"
  env_in_memory :: bool
  env_task_room :: "string \<Rightarrow> bool"
  env_name_room :: "string \<Rightarrow> bool"

record scan_state =
  ss_db :: database
  ss_saved :: "database option"
  ss_mutex :: bool
  ss_fs :: locked_fs
  ss_seq :: u32
  ss_counter :: u32
  ss_position :: u64
  ss_queue :: "file_to_scan list"

subsection \<open>Which file system\<close>

definition BTRFS_SUPER_MAGIC :: u64 where
  "BTRFS_SUPER_MAGIC = 0x9123683E"

definition XFS_SB_MAGIC :: u64 where
  "XFS_SB_MAGIC = 0x58465342"

text \<open>The code of a failed \<open>statfs\<close> is not 0 either, so the callers take it for true.\<close>

definition is_btrfs :: "scan_env \<Rightarrow> string \<Rightarrow> int" where
  "is_btrfs env path = (case env_statfs env path of Inl errno \<Rightarrow> errno | Inr f_type \<Rightarrow> if f_type = BTRFS_SUPER_MAGIC then 1 else 0)"

definition is_fs_supported :: "scan_env \<Rightarrow> string \<Rightarrow> bool" where
  "is_fs_supported env path = (case env_statfs env path of Inl errno \<Rightarrow> False | Inr f_type \<Rightarrow> f_type = BTRFS_SUPER_MAGIC \<or> f_type = XFS_SB_MAGIC)"

definition lookup_btrfs_subvol :: "scan_env \<Rightarrow> int \<Rightarrow> u64 \<Rightarrow> int \<times> u64" where
  "lookup_btrfs_subvol env fd subvol = (case env_ino_lookup env fd of Inl errno \<Rightarrow> (errno, subvol) | Inr treeid \<Rightarrow> (0, treeid))"

definition btrfs_get_fsuuid :: "scan_env \<Rightarrow> int \<Rightarrow> uuid \<Rightarrow> int \<times> uuid" where
  "btrfs_get_fsuuid env fd u = (case env_fs_info env fd of Inl errno \<Rightarrow> (errno, u) | Inr metadata_uuid \<Rightarrow> (0, metadata_uuid))"

text \<open>\<open>makedev\<close> of the C library.\<close>

definition stx_to_dev :: "statx \<Rightarrow> u64" where
  "stx_to_dev st =
     (let major = ucast (stx_dev_major st); minor = ucast (stx_dev_minor st) in
      push_bit 8 (major AND 0xfff) OR push_bit 32 (major AND 0xfffff000) OR (minor AND 0xff) OR push_bit 12 (minor AND 0xffffff00))"

definition extract_first_device :: "string option \<Rightarrow> string option" where
  "extract_first_device fs_source = map_option (takeWhile (\<lambda>c. c \<noteq> CHR '':'')) fs_source"

definition null_uuid :: uuid where
  "null_uuid = replicate 16 0"

definition uuid_is_null :: "uuid \<Rightarrow> bool" where
  "uuid_is_null u \<longleftrightarrow> list_all (\<lambda>b. b = 0) u"

text \<open>A uuid that cannot be parsed leaves \<open>*uuid\<close> as it was.\<close>

definition get_uuid :: "scan_env \<Rightarrow> string \<Rightarrow> uuid \<Rightarrow> int \<times> uuid" where
  "get_uuid env path u = (case env_open env path of
       Inl errno \<Rightarrow> (1, u)
     | Inr fd \<Rightarrow>
         if is_btrfs env path \<noteq> 0 then (let (ret, u) = btrfs_get_fsuuid env fd u in if ret \<noteq> 0 then (1, u) else (0, u))
         else let (ret, st) = env_statx env path in
           if ret \<noteq> 0 then (1, u)
           else if stx_dev_major st = 0 then (1, u)
           else case env_mount_source env (stx_to_dev st) of
             None \<Rightarrow> (1, u)
           | Some fs_source \<Rightarrow> (case extract_first_device fs_source of
               None \<Rightarrow> (1, u)
             | Some first_device \<Rightarrow> (case env_blkid_uuid env first_device of
                 None \<Rightarrow> (1, u)
               | Some uuid_found \<Rightarrow> (0, case env_uuid_parse env uuid_found of None \<Rightarrow> u | Some u' \<Rightarrow> u'))))"

subsection \<open>Which paths\<close>

definition S_ISREG :: "16 word \<Rightarrow> bool" where "S_ISREG m \<longleftrightarrow> m AND 0xf000 = 0x8000"
definition S_ISDIR :: "16 word \<Rightarrow> bool" where "S_ISDIR m \<longleftrightarrow> m AND 0xf000 = 0x4000"

text \<open>\<open>exclude_head\<close> grows at its head; a relative pattern is taken below the current directory.\<close>

definition add_exclude_pattern :: "bool \<Rightarrow> string \<Rightarrow> string \<Rightarrow> string list \<Rightarrow> int \<times> string list" where
  "add_exclude_pattern room cwd pattern head =
     (if \<not> room then (1, head)
      else if pattern \<noteq> [] \<and> hd pattern = CHR ''/'' then (0, pattern # head)
      else if length cwd + length pattern > 4096 then (1, head)
      else (0, (cwd @ ''/'' @ pattern) # head))"

definition is_excluded :: "scan_env \<Rightarrow> string \<Rightarrow> bool" where
  "is_excluded env name \<longleftrightarrow> list_ex (\<lambda>pattern. env_fnmatch env pattern name) (env_exclude env)"

text \<open>The checks of \<open>check_file\<close> on the file system, after the look into the hash file; the result is the answer and the locked file system.\<close>

definition check_lock :: "scan_env \<Rightarrow> string \<Rightarrow> statx \<Rightarrow> locked_fs \<Rightarrow> bool \<times> locked_fs" where
  "check_lock env path st fs =
     (if uuid_is_null (lf_uuid fs) then
        (let (ret, u) = get_uuid env path (lf_uuid fs) in
         if ret \<noteq> 0 then (False, fs\<lparr>lf_uuid := u\<rparr>)
         else (True, \<lparr>lf_uuid = u, lf_dev = stx_to_dev st, lf_is_btrfs = (is_btrfs env path \<noteq> 0)\<rparr>))
      else if lf_dev fs = 0 then
        (let (ret, u) = get_uuid env path null_uuid in
         if ret \<noteq> 0 then (False, fs)
         else if u \<noteq> lf_uuid fs then (False, fs)
         else (True, fs\<lparr>lf_dev := stx_to_dev st, lf_is_btrfs := (is_btrfs env path \<noteq> 0)\<rparr>))
      else if \<not> lf_is_btrfs fs then (lf_dev fs = stx_to_dev st, fs)
      else let (ret, u) = get_uuid env path null_uuid in
        if ret \<noteq> 0 then (False, fs) else (u = lf_uuid fs, fs))"

definition check_locked_fs :: "scan_env \<Rightarrow> database \<Rightarrow> string \<Rightarrow> statx \<Rightarrow> locked_fs \<Rightarrow> bool \<times> locked_fs" where
  "check_locked_fs env db path st fs =
     (if uuid_is_null (lf_uuid fs) \<and> env_config_rc env \<noteq> 0 then (True, fs)
      else let u = cfg_fs_uuid (dbfile_get_config (env_uuid_parse env) (env_uuid_junk env) (env_blocksize env) db) in
      check_lock env path st (if uuid_is_null (lf_uuid fs) \<and> \<not> uuid_is_null u then fs\<lparr>lf_uuid := u\<rparr> else fs))"

definition check_file :: "scan_env \<Rightarrow> database \<Rightarrow> string \<Rightarrow> statx \<Rightarrow> bool \<Rightarrow> locked_fs \<Rightarrow> bool \<times> locked_fs" where
  "check_file env db path st parent_checked fs =
     (if is_excluded env path then (False, fs)
      else if \<not> S_ISREG (stx_mode st) \<and> \<not> S_ISDIR (stx_mode st) then (False, fs)
      else if S_ISREG (stx_mode st) \<and> stx_size st = 0 then (False, fs)
      else if S_ISREG (stx_mode st) \<and> parent_checked then (True, fs)
      else check_locked_fs env db path st fs)"

definition get_dirent_type :: "scan_env \<Rightarrow> dirent \<Rightarrow> string \<Rightarrow> dtype" where
  "get_dirent_type env entry path =
     (if d_type entry \<noteq> DT_UNKNOWN then d_type entry
      else let (ret, st) = env_statx_at env path (d_name entry) in
        if ret \<noteq> 0 \<or> stx_mask st AND 0x7ff = 0 then DT_UNKNOWN
        else let fmt = stx_mode st AND 0xf000 in
          if fmt = 0x8000 then DT_REG else if fmt = 0x4000 then DT_DIR else if fmt = 0x6000 then DT_BLK
          else if fmt = 0x2000 then DT_CHR else if fmt = 0x1000 then DT_FIFO else if fmt = 0xa000 then DT_LNK
          else if fmt = 0xc000 then DT_SOCK else DT_UNKNOWN)"

subsection \<open>One file\<close>

definition timestamp_to_nano :: "statx \<Rightarrow> u64" where
  "timestamp_to_nano st = stx_mtime_sec st * 1000000000 + ucast (stx_mtime_nsec st)"

definition is_file_renamed :: "scan_env \<Rightarrow> string \<Rightarrow> string \<Rightarrow> bool" where
  "is_file_renamed env path_in_db path \<longleftrightarrow> \<not> (path_in_db = [] \<or> path_in_db = path) \<and> env_lstat env path_in_db \<noteq> 0"

definition dbfile_lock :: "scan_state \<Rightarrow> scan_state option" where
  "dbfile_lock s = (if ss_mutex s then None else Some (s\<lparr>ss_mutex := True\<rparr>))"

definition dbfile_unlock :: "scan_state \<Rightarrow> scan_state" where
  "dbfile_unlock s = s\<lparr>ss_mutex := False\<rparr>"

text \<open>A transaction inside another is refused by \<open>sqlite\<close>, and the code ignores that.\<close>

definition begin_trans :: "scan_state \<Rightarrow> scan_state" where
  "begin_trans s = (case ss_saved s of None \<Rightarrow> s\<lparr>ss_saved := Some (ss_db s)\<rparr> | Some _ \<Rightarrow> s)"

definition abort_trans :: "scan_state \<Rightarrow> scan_state" where
  "abort_trans s = (case ss_saved s of None \<Rightarrow> s | Some db \<Rightarrow> s\<lparr>ss_db := db, ss_saved := None\<rparr>)"

definition commit_trans :: "scan_state \<Rightarrow> scan_state" where
  "commit_trans s = s\<lparr>ss_saved := None\<rparr>"

definition next_batch :: "scan_env \<Rightarrow> scan_state \<Rightarrow> scan_state" where
  "next_batch env s =
     (if env_batch_size env = 0 then s
      else if ss_counter s + 1 \<ge> env_batch_size env then s\<lparr>ss_seq := ss_seq s + 1, ss_counter := 0\<rparr>
      else s\<lparr>ss_counter := ss_counter s + 1\<rparr>)"

text \<open>
  \<open>dbfile_describe_file\<close> as the scan calls it: a hash file in memory has no log, so the mutex is taken
  around the statement.
\<close>

definition describe_file_locked :: "scan_env \<Rightarrow> string \<Rightarrow> u64 \<Rightarrow> u64 \<Rightarrow> db_file \<Rightarrow> scan_state \<Rightarrow> (int \<times> db_file \<times> scan_state) option" where
  "describe_file_locked env path ino subvol dbfile s = do {
     s \<leftarrow> (if env_in_memory env then dbfile_lock s else Some s);
     let (ret, dbfile) = dbfile_describe_file (env_describe_rc env path) ino subvol (ss_db s) dbfile;
     Some (ret, dbfile, if env_in_memory env then dbfile_unlock s else s)
   }"

text \<open>
  The queue: without memory for the entry its first field is written through NULL, and without memory
  for the name the entry has none. Then the transaction of \<open>__scan_file\<close>; \<open>dbfile\<close> has its new contents already.
\<close>

definition queue_file :: "scan_env \<Rightarrow> string \<Rightarrow> int \<Rightarrow> u64 \<Rightarrow> scan_state \<Rightarrow> (int \<times> scan_state) option" where
  "queue_file env path fid sz s =
     (if \<not> env_task_room env path then None
      else let s = s\<lparr>ss_position := ss_position s + 1\<rparr>;
               entry = \<lparr>fs_path = (if env_name_room env path then Some path else None), fs_fileid = fid, fs_filesize = sz, fs_position = ss_position s\<rparr> in
        if \<not> env_push env path then Some (1, s)
        else Some (0, s\<lparr>ss_queue := ss_queue s @ [entry]\<rparr>))"

definition rename_row :: "scan_env \<Rightarrow> string \<Rightarrow> bool \<Rightarrow> db_file \<Rightarrow> database \<Rightarrow> int \<times> database" where
  "rename_row env path renamed dbfile db =
     (if renamed then dbfile_rename_file (env_rename_rc env path) (df_id dbfile) path db else (0, db))"

definition drop_old_hashes :: "scan_env \<Rightarrow> string \<Rightarrow> db_file \<Rightarrow> database \<Rightarrow> database" where
  "drop_old_hashes env path dbfile db =
     (if df_mtime dbfile \<noteq> 0 \<or> df_size dbfile \<noteq> 0
      then snd (dbfile_remove_hashes (fst (env_remove_rc env path)) (snd (env_remove_rc env path)) (df_id dbfile) db) else db)"

definition store_file :: "scan_env \<Rightarrow> string \<Rightarrow> bool \<Rightarrow> db_file \<Rightarrow> scan_state \<Rightarrow> (int \<times> scan_state) option" where
  "store_file env path renamed dbfile s = do {
     s \<leftarrow> dbfile_lock s;
     let s = begin_trans s;
     let (ret, db) = rename_row env path renamed dbfile (ss_db s);
     let s = s\<lparr>ss_db := db\<rparr>;
     if ret \<noteq> 0 then Some (0, s)
     else do {
       let s = s\<lparr>ss_db := drop_old_hashes env path dbfile (ss_db s)\<rparr>;
       let (fid, db) = dbfile_store_file_info (env_store_rc env path) (env_rowid env (ss_db s)) dbfile (ss_db s);
       let s = s\<lparr>ss_db := db\<rparr>;
       if fid = 0 then Some (0, dbfile_unlock (abort_trans s))
       else queue_file env path fid (df_size dbfile) (dbfile_unlock (commit_trans s))
     }
   }"

text \<open>\<open>Inl\<close>: the file is skipped.\<close>

definition file_subvol :: "scan_env \<Rightarrow> string \<Rightarrow> locked_fs \<Rightarrow> unit + u64" where
  "file_subvol env path fs =
     (if \<not> lf_is_btrfs fs then Inr 0
      else case env_open env path of
        Inl errno \<Rightarrow> Inl ()
      | Inr fd \<Rightarrow> (let (ret, subvol) = lookup_btrfs_subvol env fd 0 in if ret \<noteq> 0 then Inl () else Inr subvol))"

definition scan_file_st :: "scan_env \<Rightarrow> string \<Rightarrow> statx \<Rightarrow> scan_state \<Rightarrow> (int \<times> scan_state) option" where
  "scan_file_st env path st s = do {
     let s = (if ss_seq s = 0 then s\<lparr>ss_seq := env_dedupe_seq env + 1\<rparr> else s);
     abort_on (\<not> S_ISREG (stx_mode st));
     case file_subvol env path (ss_fs s) of
       Inl _ \<Rightarrow> Some (0, s)
     | Inr subvol \<Rightarrow> do {
         (ret, dbfile, s) \<leftarrow> describe_file_locked env path (stx_ino st) subvol
           \<lparr>df_id = 0, df_filename = [], df_ino = 0, df_subvol = subvol, df_size = 0, df_mtime = 0, df_dedupe_seq = 0\<rparr> s;
         if ret \<noteq> 0 then Some (0, s)
         else do {
           let renamed = is_file_renamed env (df_filename dbfile) path;
           if df_mtime dbfile = timestamp_to_nano st \<and> df_size dbfile = stx_size st \<and> \<not> renamed then Some (0, s)
           else do {
             let s = next_batch env s;
             store_file env path renamed (dbfile\<lparr>df_ino := stx_ino st, df_size := stx_size st, df_filename := take 4096 path,
               df_mtime := timestamp_to_nano st, df_dedupe_seq := ss_seq s\<rparr>) s
           }
         }
       }
   }"

subsection \<open>The walk\<close>

definition child_path :: "string \<Rightarrow> string \<Rightarrow> string" where
  "child_path path name = (if path = ''/'' then ''/'' @ name else path @ ''/'' @ name)"

text \<open>
  The body of the loop of \<open>walk_dir\<close> up to the call on the entry: it is passed over, the name is
  too long (an abort), or it is to be scanned, as a regular file or as a directory. \<open>PATH_MAX\<close> is
  4096. \<open>readdir\<close> does not return an empty name, which is passed over here with the two names that
  every directory has. The test of \<open>stx_mask\<close> in \<open>walk_dir\<close> cannot fail, since it is an \<open>or\<close> with a constant.
\<close>

datatype visit = Skip scan_state | TooLong | Visit bool string statx scan_state

definition check_entry :: "scan_env \<Rightarrow> string \<Rightarrow> dirent \<Rightarrow> scan_state \<Rightarrow> visit" where
  "check_entry env path entry s =
     (if d_name entry \<in> {'''', ''.'', ''..''} then Skip s
      else let d_type = get_dirent_type env entry path in
      if d_type \<noteq> DT_REG \<and> \<not> (env_recurse_dirs env \<and> d_type = DT_DIR) then Skip s
      else if length path + length (d_name entry) > 4096 then TooLong
      else let child = child_path path (d_name entry); (ret, st) = env_statx env child in
      if ret \<noteq> 0 then Skip s
      else let (ok, fs) = check_file env (ss_db s) child st True (ss_fs s); s = s\<lparr>ss_fs := fs\<rparr> in
      if \<not> ok then Skip s else Visit (d_type = DT_REG) child st s)"

lemma check_entry_Visit:
  assumes "check_entry env path entry s = Visit reg child st s'"
  shows "d_name entry \<noteq> []" "length path + length (d_name entry) \<le> 4096" "child = child_path path (d_name entry)"
    "reg \<longleftrightarrow> get_dirent_type env entry path = DT_REG" "env_statx env child = (0, st)"
    "\<exists>fs. check_file env (ss_db s) child st True (ss_fs s) = (True, fs) \<and> s' = s\<lparr>ss_fs := fs\<rparr>"
  using assms unfolding check_entry_def Let_def by (auto split: if_splits prod.splits)

lemma child_path_longer:
  "name \<noteq> [] \<Longrightarrow> length path + length name \<le> 4096 \<Longrightarrow> 4098 - length (child_path path name) < 4098 - length path"
  by (auto simp: child_path_def neq_Nil_conv)

lemma visit_longer: "check_entry env path entry s = Visit reg child st s' \<Longrightarrow> 4098 - length child < 4098 - length path"
  using child_path_longer check_entry_Visit(1,2,3) by metis

text \<open>The check of the length makes the recursion end: a path only grows.\<close>

function walk_dir :: "scan_env \<Rightarrow> string \<Rightarrow> scan_state \<Rightarrow> (int \<times> scan_state) option"
  and walk_entries :: "scan_env \<Rightarrow> string \<Rightarrow> dirent option list \<Rightarrow> scan_state \<Rightarrow> (int \<times> scan_state) option" where
  "walk_dir env path s = (case env_opendir env path of
       None \<Rightarrow> Some (0, s)
     | Some entries \<Rightarrow> walk_entries env path entries s)"
| "walk_entries env path [] s = Some (0, s)"
| "walk_entries env path (None # entries) s = Some (0, s)"
| "walk_entries env path (Some entry # entries) s = (case check_entry env path entry s of
       Skip s \<Rightarrow> walk_entries env path entries s
     | TooLong \<Rightarrow> None
     | Visit reg child st s \<Rightarrow> (case (if reg then scan_file_st env child st s else walk_dir env child s) of
         None \<Rightarrow> None
       | Some (ret, s) \<Rightarrow> if ret \<noteq> 0 then Some (ret, s) else walk_entries env path entries s))"
  by pat_completeness auto

termination
proof (relation "inv_image (less_than <*lex*> less_than <*lex*> less_than)
    (\<lambda>x. case x of Inl (env, path, s) \<Rightarrow> (4098 - length path, 1, 0) | Inr (env, path, entries, s) \<Rightarrow> (4098 - length path, 0, length entries))",
    goal_cases)
  case 1
  show ?case by (intro wf_inv_image wf_lex_prod wf_less_than)
qed (auto dest: visit_longer)

definition scan_file :: "scan_env \<Rightarrow> string \<Rightarrow> scan_state \<Rightarrow> (int \<times> scan_state) option" where
  "scan_file env in_path s = (case env_realpath env in_path of
       None \<Rightarrow> Some (0, s)
     | Some path \<Rightarrow>
         let (ret, st) = env_statx env path in
         if ret \<noteq> 0 \<or> stx_mask st AND 0x7ff = 0 then Some (0, s)
         else let (ok, fs) = check_file env (ss_db s) path st False (ss_fs s); s = s\<lparr>ss_fs := fs\<rparr> in
         if \<not> ok then Some (0, s)
         else if S_ISREG (stx_mode st) then scan_file_st env path st s
         else walk_dir env path s)"

section \<open>One file system\<close>

text \<open>
  What the code takes for granted of the file systems it supports: the ioctl of btrfs sets \<open>errno\<close> when it
  fails and reports a uuid that is not null otherwise, and the uuid \<open>libblkid\<close> finds for the device of a path on XFS is a text \<open>uuid_parse\<close> takes, and not null
  either. Of other file systems, whose \<open>UUID\<close> tag may be no such text at all, nothing is assumed;
  \<open>get_uuid\<close> ignores that \<open>uuid_parse\<close> fails, and reports success with a null uuid there.
\<close>

definition uuids_ok :: "scan_env \<Rightarrow> bool" where
  "uuids_ok env \<longleftrightarrow> (\<forall>fd. env_fs_info env fd \<noteq> Inl 0) \<and> (\<forall>fd u. env_fs_info env fd = Inr u \<longrightarrow> \<not> uuid_is_null u) \<and>
     (\<forall>p st src t. env_statfs env p = Inr XFS_SB_MAGIC \<and> env_statx env p = (0, st) \<and> env_mount_source env (stx_to_dev st) = Some (Some src) \<and>
        env_blkid_uuid env (takeWhile (\<lambda>c. c \<noteq> CHR '':'') src) = Some t \<longrightarrow> (\<exists>u. env_uuid_parse env t = Some u \<and> \<not> uuid_is_null u))"

lemma found_uuid_not_null:
  assumes "uuids_ok env" "is_fs_supported env p" "get_uuid env p u0 = (0, u)"
  shows "\<not> uuid_is_null u"
proof (cases "is_btrfs env p = 0")
  case True
  then have x: "env_statfs env p = Inr XFS_SB_MAGIC"
    using assms(2) by (auto simp: is_btrfs_def is_fs_supported_def split: sum.splits if_splits)
  obtain st src t where d: "env_statx env p = (0, st)" "env_mount_source env (stx_to_dev st) = Some (Some src)"
      "env_blkid_uuid env (takeWhile (\<lambda>c. c \<noteq> CHR '':'') src) = Some t" "u = (case env_uuid_parse env t of None \<Rightarrow> u0 | Some u' \<Rightarrow> u')"
    using assms(3) True
    by (auto simp: get_uuid_def extract_first_device_def Let_def split: sum.splits prod.splits if_splits option.splits)
  then show ?thesis using assms(1) x unfolding uuids_ok_def by (metis option.simps(5))
next
  case False
  then obtain fd where "env_fs_info env fd = Inr u"
    using assms(1,3) by (auto simp: uuids_ok_def get_uuid_def btrfs_get_fsuuid_def Let_def split: sum.splits prod.splits if_splits)
  then show ?thesis using assms(1) unfolding uuids_ok_def by blast
qed

text \<open>On the locked file system: a path with its uuid, or, outside btrfs, on the device of such a path.\<close>

definition on_fs :: "scan_env \<Rightarrow> string \<Rightarrow> statx \<Rightarrow> uuid \<Rightarrow> bool" where
  "on_fs env path st u \<longleftrightarrow> get_uuid env path null_uuid = (0, u) \<or>
     (\<exists>p st'. env_statx env p = (0, st') \<and> is_btrfs env p = 0 \<and> get_uuid env p null_uuid = (0, u) \<and> stx_to_dev st' = stx_to_dev st)"

text \<open>The lock is either open, or on the uuid of the hash file, or on a path that was seen.\<close>

definition lock_inv :: "scan_env \<Rightarrow> locked_fs \<Rightarrow> bool" where
  "lock_inv env fs \<longleftrightarrow> (uuid_is_null (lf_uuid fs) \<longrightarrow> lf_uuid fs = null_uuid \<and> lf_dev fs = 0) \<and>
     (lf_dev fs \<noteq> 0 \<longrightarrow> (\<exists>p st. env_statx env p = (0, st) \<and> lf_dev fs = stx_to_dev st \<and> lf_is_btrfs fs = (is_btrfs env p \<noteq> 0) \<and>
        get_uuid env p null_uuid = (0, lf_uuid fs)))"

lemma get_uuid_fails: "get_uuid env p u = (ret, u') \<Longrightarrow> ret \<noteq> 0 \<Longrightarrow> u' = u"
  by (auto simp: get_uuid_def btrfs_get_fsuuid_def Let_def split: sum.splits prod.splits if_splits option.splits)

lemma open_lock_inv: "lock_inv env \<lparr>lf_uuid = null_uuid, lf_dev = 0, lf_is_btrfs = b\<rparr>"
  by (simp add: lock_inv_def)

lemma lock_inv_adopt:
  "lock_inv env fs \<Longrightarrow> uuid_is_null (lf_uuid fs) \<Longrightarrow> \<not> uuid_is_null u \<Longrightarrow> lock_inv env (fs\<lparr>lf_uuid := u\<rparr>)"
  by (simp add: lock_inv_def)

lemma lock_inv_found:
  assumes "uuids_ok env" "is_fs_supported env p" "env_statx env p = (0, st)" "get_uuid env p null_uuid = (0, u)"
  shows "lock_inv env \<lparr>lf_uuid = u, lf_dev = stx_to_dev st, lf_is_btrfs = (is_btrfs env p \<noteq> 0)\<rparr>"
proof -
  have "\<not> uuid_is_null u" using found_uuid_not_null [OF assms(1,2,4)] .
  then show ?thesis unfolding lock_inv_def using assms(3,4) by auto
qed

lemma check_locked_fs_cases:
  assumes "lock_inv env fs" "env_config_rc env = 0"
  shows "\<exists>fs1. lock_inv env fs1 \<and> (\<not> uuid_is_null (lf_uuid fs) \<longrightarrow> fs1 = fs) \<and> check_locked_fs env db path st fs = check_lock env path st fs1"
  using assms lock_inv_adopt [OF assms(1)] by (auto simp: check_locked_fs_def Let_def)

lemma check_lock_ok:
  assumes w: "uuids_ok env" "is_fs_supported env path" and inv: "lock_inv env fs" and st: "env_statx env path = (0, st)"
    and c: "check_lock env path st fs = (ok, fs')"
  shows "lock_inv env fs' \<and> (\<not> uuid_is_null (lf_uuid fs) \<longrightarrow> lf_uuid fs' = lf_uuid fs) \<and>
    (if ok then on_fs env path st (lf_uuid fs')
     else get_uuid env path null_uuid \<noteq> (0, lf_uuid fs') \<or> \<not> lf_is_btrfs fs' \<and> lf_dev fs' \<notin> {0, stx_to_dev st})"
proof -
  obtain ret u where g: "get_uuid env path null_uuid = (ret, u)" by (cases "get_uuid env path null_uuid")
  consider "uuid_is_null (lf_uuid fs)" | "\<not> uuid_is_null (lf_uuid fs)" "lf_dev fs = 0"
    | "\<not> uuid_is_null (lf_uuid fs)" "lf_dev fs \<noteq> 0" by blast
  then show ?thesis
  proof cases
    case 1
    then have n: "lf_uuid fs = null_uuid" using inv by (simp add: lock_inv_def)
    show ?thesis
    proof (cases "ret = 0")
      case True
      then show ?thesis using c 1 n g lock_inv_found [OF w st] by (auto simp: check_lock_def on_fs_def)
    next
      case False
      then have "u = null_uuid" using get_uuid_fails [OF g] by simp
      then have "\<not> ok \<and> fs' = fs\<lparr>lf_uuid := null_uuid\<rparr>" using c 1 n g False by (auto simp: check_lock_def)
      moreover have "fs\<lparr>lf_uuid := null_uuid\<rparr> = fs" using n by (cases fs) simp
      ultimately show ?thesis using inv n g False by auto
    qed
  next
    case 2
    have upd: "fs\<lparr>lf_dev := d, lf_is_btrfs := b\<rparr> = \<lparr>lf_uuid = lf_uuid fs, lf_dev = d, lf_is_btrfs = b\<rparr>" for d b by (cases fs) simp
    show ?thesis using c 2 g inv lock_inv_found [OF w st] by (auto simp: check_lock_def upd on_fs_def split: if_splits)
  next
    case 3
    obtain p st' where p: "env_statx env p = (0, st')" "lf_dev fs = stx_to_dev st'" "lf_is_btrfs fs = (is_btrfs env p \<noteq> 0)"
        "get_uuid env p null_uuid = (0, lf_uuid fs)"
      using inv 3(2) unfolding lock_inv_def by blast
    have "on_fs env path st (lf_uuid fs)" if "\<not> lf_is_btrfs fs" "lf_dev fs = stx_to_dev st"
      unfolding on_fs_def using p that by auto
    then show ?thesis using c 3 g inv by (auto simp: check_lock_def on_fs_def split: if_splits)
  qed
qed

lemma check_locked_fs_ok:
  assumes "uuids_ok env" "is_fs_supported env path" "lock_inv env fs" "env_statx env path = (0, st)" "env_config_rc env = 0"
    and "check_locked_fs env db path st fs = (ok, fs')"
  shows "lock_inv env fs' \<and> (\<not> uuid_is_null (lf_uuid fs) \<longrightarrow> lf_uuid fs' = lf_uuid fs) \<and>
    (if ok then on_fs env path st (lf_uuid fs')
     else get_uuid env path null_uuid \<noteq> (0, lf_uuid fs') \<or> \<not> lf_is_btrfs fs' \<and> lf_dev fs' \<notin> {0, stx_to_dev st})"
proof -
  obtain fs1 where fs1: "lock_inv env fs1" "\<not> uuid_is_null (lf_uuid fs) \<longrightarrow> fs1 = fs" "check_lock env path st fs1 = (ok, fs')"
    using check_locked_fs_cases [OF assms(3,5)] assms(6) by metis
  from check_lock_ok [OF assms(1,2) fs1(1) assms(4) fs1(3)] fs1(2) show ?thesis by auto
qed

lemma check_file_Some:
  assumes "check_file env db path st pc fs = (True, fs')"
  shows "\<not> is_excluded env path" "S_ISREG (stx_mode st) \<or> S_ISDIR (stx_mode st)" "S_ISREG (stx_mode st) \<Longrightarrow> stx_size st \<noteq> 0"
  using assms by (auto simp: check_file_def split: if_splits)

section \<open>One file\<close>

text \<open>
  What the walk relies on: renaming a row works, \<open>sqlite\<close> picks a fresh id that is not 0, there is memory
  for a queue entry, and no path is longer than the system allows.
\<close>

definition scan_env_ok :: "scan_env \<Rightarrow> bool" where
  "scan_env_ok env \<longleftrightarrow> (\<forall>path. env_rename_rc env path = 0 \<and> env_task_room env path \<and> env_name_room env path) \<and>
     (\<forall>db. env_rowid env db \<noteq> 0 \<and> env_rowid env db \<notin> f_id ` set (files db)) \<and>
     (\<forall>path entries e. env_opendir env path = Some entries \<longrightarrow> Some e \<in> set entries \<longrightarrow> length path + length (d_name e) \<le> 4096)"

text \<open>A file in the queue was looked at, is a regular file that is not empty, and is not excluded.\<close>

definition queued_ok :: "scan_env \<Rightarrow> file_to_scan \<Rightarrow> bool" where
  "queued_ok env q \<longleftrightarrow> (\<exists>path st. fs_path q = Some path \<and> \<not> is_excluded env path \<and>
     env_statx env path = (0, st) \<and> S_ISREG (stx_mode st) \<and> stx_size st \<noteq> 0 \<and> fs_filesize q = stx_size st)"

definition scan_inv :: "scan_env \<Rightarrow> scan_state \<Rightarrow> bool" where
  "scan_inv env s \<longleftrightarrow> \<not> ss_mutex s \<and> ss_saved s = None \<and> db_reachable (ss_db s) \<and> (\<forall>q \<in> set (ss_queue s). queued_ok env q)"

lemmas reachable_ops = db_reachable_step [OF _ db_step.rename_file] db_reachable_step [OF _ db_step.remove_hashes]
  db_reachable_step [OF _ db_step.store_file]

lemma scan_inv_upd [simp]:
  "scan_inv env (s\<lparr>ss_fs := fs\<rparr>) = scan_inv env s" "scan_inv env (s\<lparr>ss_seq := x\<rparr>) = scan_inv env s"
  "scan_inv env (s\<lparr>ss_counter := c\<rparr>) = scan_inv env s" "scan_inv env (s\<lparr>ss_position := p\<rparr>) = scan_inv env s"
  "scan_inv env (next_batch env' s) = scan_inv env s"
  by (simp_all add: scan_inv_def next_batch_def)

text \<open>What \<open>store_file\<close> does, in one equation.\<close>

definition stored_db :: "scan_env \<Rightarrow> string \<Rightarrow> bool \<Rightarrow> db_file \<Rightarrow> database \<Rightarrow> database" where
  "stored_db env path renamed dbfile db = drop_old_hashes env path dbfile (snd (rename_row env path renamed dbfile db))"

lemma stored_db_reachable: "db_reachable db \<Longrightarrow> db_reachable (stored_db env path renamed dbfile db)"
  by (simp add: stored_db_def drop_old_hashes_def rename_row_def reachable_ops(1,2))

lemma store_file_eq:
  assumes "scan_env_ok env" "scan_inv env s"
  shows "store_file env path renamed dbfile s =
    (let db = stored_db env path renamed dbfile (ss_db s) in
     if env_store_rc env path \<noteq> 0 then Some (0, s)
     else queue_file env path (env_rowid env db) (df_size dbfile) (s\<lparr>ss_db := write_file (env_rowid env db) dbfile db\<rparr>))"
proof -
  have r: "env_rename_rc env path = 0" "\<And>db. env_rowid env db \<noteq> 0" using assms(1) by (simp_all add: scan_env_ok_def)
  have rn: "rename_row env path renamed dbfile db = (0, snd (rename_row env path renamed dbfile db))" for db
    using r(1) by (simp add: rename_row_def dbfile_rename_file_def Let_def)
  obtain db fs sq c p qu where s: "s = \<lparr>ss_db = db, ss_saved = None, ss_mutex = False, ss_fs = fs, ss_seq = sq, ss_counter = c,
      ss_position = p, ss_queue = qu\<rparr>"
    using assms(2) by (cases s) (auto simp: scan_inv_def)
  define db1 where "db1 = snd (rename_row env path renamed dbfile db)"
  have e: "rename_row env path renamed dbfile db = (0, db1)" unfolding db1_def by (rule rn)
  show ?thesis unfolding s
    by (simp add: store_file_def dbfile_lock_def begin_trans_def e stored_db_def abort_trans_def commit_trans_def dbfile_unlock_def
        dbfile_store_file_info_def r(2) Let_def)
qed

lemma describe_free: "\<not> ss_mutex s \<Longrightarrow>
  describe_file_locked env path ino subvol dbfile s =
    (let (ret, dbfile) = dbfile_describe_file (env_describe_rc env path) ino subvol (ss_db s) dbfile in Some (ret, dbfile, s))"
  by (cases s) (simp add: describe_file_locked_def dbfile_lock_def dbfile_unlock_def split_beta Let_def)

lemma queue_file_ok:
  assumes "scan_env_ok env" "scan_inv env s"
    and "queued_ok env \<lparr>fs_path = Some path, fs_fileid = fid, fs_filesize = sz, fs_position = ss_position s + 1\<rparr>"
  shows "\<exists>ret s'. queue_file env path fid sz s = Some (ret, s') \<and> scan_inv env s'"
  using assms by (auto simp: queue_file_def Let_def scan_inv_def scan_env_ok_def)

lemma store_file_ok:
  assumes env: "scan_env_ok env" and inv: "scan_inv env s"
    and q: "\<And>fid pos. queued_ok env \<lparr>fs_path = Some path, fs_fileid = fid, fs_filesize = df_size dbfile, fs_position = pos\<rparr>"
  shows "\<exists>ret s'. store_file env path renamed dbfile s = Some (ret, s') \<and> scan_inv env s'"
proof (cases "env_store_rc env path = 0")
  case True
  define db where "db = stored_db env path renamed dbfile (ss_db s)"
  have r: "db_reachable db" unfolding db_def using inv by (intro stored_db_reachable) (simp add: scan_inv_def)
  have "env_rowid env db \<notin> f_id ` set (files db)" using env by (simp add: scan_env_ok_def)
  from reachable_ops(3) [OF r this, of 0 dbfile] have "db_reachable (write_file (env_rowid env db) dbfile db)"
    by (simp add: dbfile_store_file_info_def)
  then have "scan_inv env (s\<lparr>ss_db := write_file (env_rowid env db) dbfile db\<rparr>)" using inv by (simp add: scan_inv_def)
  from queue_file_ok [OF env this q] show ?thesis unfolding store_file_eq [OF env inv] Let_def db_def [symmetric] using True by simp
qed (use inv in \<open>simp add: store_file_eq [OF env inv] Let_def\<close>)

lemma scan_file_st_ok:
  assumes env: "scan_env_ok env" and inv: "scan_inv env s" and f: "\<not> is_excluded env path" "env_statx env path = (0, st)" "S_ISREG (stx_mode st)"
    "stx_size st \<noteq> 0"
  shows "\<exists>ret s'. scan_file_st env path st s = Some (ret, s') \<and> scan_inv env s'"
proof -
  have q: "queued_ok env \<lparr>fs_path = Some path, fs_fileid = fid, fs_filesize = stx_size st, fs_position = pos\<rparr>" for fid pos
    using f by (simp add: queued_ok_def)
  define s1 where "s1 = (if ss_seq s = 0 then s\<lparr>ss_seq := env_dedupe_seq env + 1\<rparr> else s)"
  have i1: "scan_inv env s1" using inv by (simp add: s1_def)
  have st: "\<exists>ret s'. store_file env path renamed (dbfile\<lparr>df_ino := stx_ino st, df_size := stx_size st, df_filename := take 4096 path,
      df_mtime := timestamp_to_nano st, df_dedupe_seq := ss_seq (next_batch env s1)\<rparr>) (next_batch env s1) = Some (ret, s') \<and> scan_inv env s'" for renamed dbfile
    by (rule store_file_ok [OF env]) (use i1 q in simp_all)
  show ?thesis unfolding scan_file_st_def s1_def [symmetric] Let_def
    using f(3) i1 st describe_free [of s1] by (auto simp: scan_inv_def Let_def split: sum.split prod.split)
qed

section \<open>The walk\<close>

definition dirs_ok :: "scan_env \<Rightarrow> string \<Rightarrow> dirent option list \<Rightarrow> bool" where
  "dirs_ok env path entries \<longleftrightarrow> (\<forall>e. Some e \<in> set entries \<longrightarrow> length path + length (d_name e) \<le> 4096 \<and>
     (\<forall>st. get_dirent_type env e path = DT_REG \<longrightarrow> env_statx env (child_path path (d_name e)) = (0, st) \<longrightarrow> S_ISREG (stx_mode st)))"

lemma dirs_ok_Cons: "dirs_ok env path (x # xs) \<Longrightarrow> dirs_ok env path xs"
  by (auto simp: dirs_ok_def)

lemma check_entry_ok:
  assumes "check_entry env path entry s = v" "scan_inv env s" "length path + length (d_name entry) \<le> 4096"
  shows "case v of Skip s' \<Rightarrow> scan_inv env s' | TooLong \<Rightarrow> False | Visit reg child st s' \<Rightarrow> scan_inv env s'"
  using assms unfolding check_entry_def Let_def by (auto split: if_splits prod.splits)

lemma visit_file_ok:
  assumes "scan_env_ok env" "check_entry env path entry s = Visit True child st s'" "scan_inv env s'" "dirs_ok env path (Some entry # entries)"
  shows "\<exists>ret s''. scan_file_st env child st s' = Some (ret, s'') \<and> scan_inv env s''"
proof -
  note v = check_entry_Visit [OF assms(2)]
  obtain fs where c: "check_file env (ss_db s) child st True (ss_fs s) = (True, fs)" using v(6) by blast
  have "S_ISREG (stx_mode st)" using assms(4) v(3-5) by (auto simp: dirs_ok_def)
  then show ?thesis using scan_file_st_ok [OF assms(1,3) check_file_Some(1) [OF c] v(5)] check_file_Some(3) [OF c] by blast
qed

lemma walk_ok:
  "scan_env_ok env \<Longrightarrow> \<forall>p es. env_opendir env p = Some es \<longrightarrow> dirs_ok env p es \<Longrightarrow> scan_inv env s \<Longrightarrow>
    \<exists>ret s'. walk_dir env path s = Some (ret, s') \<and> scan_inv env s'"
  "scan_env_ok env \<Longrightarrow> \<forall>p es. env_opendir env p = Some es \<longrightarrow> dirs_ok env p es \<Longrightarrow> scan_inv env s \<Longrightarrow> dirs_ok env path entries \<Longrightarrow>
    \<exists>ret s'. walk_entries env path entries s = Some (ret, s') \<and> scan_inv env s'"
proof (induction env path s and env path entries s rule: walk_dir_walk_entries.induct)
  case (1 env path s)
  then show ?case by (cases "env_opendir env path") auto
next
  case (4 env path entry entries s)
  note pr = 4(4-7)
  have rest: "dirs_ok env path entries" using dirs_ok_Cons [OF pr(4)] .
  have len: "length path + length (d_name entry) \<le> 4096" using pr(4) by (auto simp: dirs_ok_def)
  show ?case
  proof (cases "check_entry env path entry s")
    case (Skip s1)
    then show ?thesis using 4(1) [OF Skip pr(1,2) _ rest] check_entry_ok [OF Skip pr(3) len] by simp
  next
    case TooLong
    then show ?thesis using check_entry_ok [OF TooLong pr(3) len] by simp
  next
    case (Visit reg child st s1)
    have i1: "scan_inv env s1" using check_entry_ok [OF Visit pr(3) len] by simp
    have "\<exists>ret s2. (if reg then scan_file_st env child st s1 else walk_dir env child s1) = Some (ret, s2) \<and> scan_inv env s2"
      using visit_file_ok [OF pr(1) _ i1 pr(4)] 4(2) [OF Visit _ pr(1,2) i1] Visit by (cases reg) auto
    then obtain ret s2 where v: "(if reg then scan_file_st env child st s1 else walk_dir env child s1) = Some (ret, s2)" "scan_inv env s2"
      by blast
    show ?thesis
    proof (cases "ret = 0")
      case True
      then show ?thesis using 4(3) [OF Visit v(1) refl _ pr(1,2) v(2) rest] Visit v(1) by (simp del: if_split)
    qed (use Visit v in \<open>simp del: if_split\<close>)
  qed
qed auto

section \<open>What is stored\<close>

text \<open>The hash file agrees with what \<open>statx\<close> said of a path.\<close>

definition up_to_date :: "scan_env \<Rightarrow> string \<Rightarrow> statx \<Rightarrow> u64 \<Rightarrow> database \<Rightarrow> bool" where
  "up_to_date env path st subvol db \<longleftrightarrow> (\<exists>r \<in> set (files db). f_ino r = bind_int64 (stx_ino st) \<and> f_subvol r = bind_int64 subvol \<and>
     column_int64 (f_mtime r) = timestamp_to_nano st \<and> column_int64 (f_size r) = stx_size st \<and> \<not> is_file_renamed env (f_filename r) path)"

definition seq_started :: "scan_env \<Rightarrow> scan_state \<Rightarrow> scan_state" where
  "seq_started env s = (if ss_seq s = 0 then s\<lparr>ss_seq := env_dedupe_seq env + 1\<rparr> else s)"

lemma seq_started_simps [simp]:
  "ss_db (seq_started env s) = ss_db s" "ss_fs (seq_started env s) = ss_fs s" "ss_queue (seq_started env s) = ss_queue s"
  "ss_position (seq_started env s) = ss_position s" "scan_inv env' (seq_started env s) = scan_inv env' s"
  by (simp_all add: seq_started_def)

lemma next_batch_simps [simp]:
  "ss_db (next_batch env s) = ss_db s" "ss_queue (next_batch env s) = ss_queue s" "ss_position (next_batch env s) = ss_position s"
  "ss_fs (next_batch env s) = ss_fs s"
  by (simp_all add: next_batch_def)

lemma unique_row:
  assumes "db_inv db" "r \<in> set (files db)" "r' \<in> set (files db)" "f_ino r = f_ino r'" "f_subvol r = f_subvol r'"
  shows "r = r'"
proof -
  have "distinct (map (\<lambda>r. (f_ino r, f_subvol r)) (files db))" using assms(1) by (simp add: db_inv_def)
  then show ?thesis using assms(2-5) by (auto simp: distinct_map inj_on_def)
qed

lemma scan_file_st_eq:
  assumes "scan_inv env s" "S_ISREG (stx_mode st)" "file_subvol env path (ss_fs s) = Inr subvol" "env_describe_rc env path = 0" "stx_size st \<noteq> 0"
  shows "up_to_date env path st subvol (ss_db s) \<Longrightarrow> scan_file_st env path st s = Some (0, seq_started env s)"
    "\<not> up_to_date env path st subvol (ss_db s) \<Longrightarrow> \<exists>renamed dbfile. df_subvol dbfile = subvol \<and>
      scan_file_st env path st s = store_file env path renamed (dbfile\<lparr>df_ino := stx_ino st, df_size := stx_size st, df_filename := take 4096 path,
        df_mtime := timestamp_to_nano st, df_dedupe_seq := ss_seq (next_batch env (seq_started env s))\<rparr>) (next_batch env (seq_started env s))"
proof -
  have di: "db_inv (ss_db s)" and mu: "\<not> ss_mutex (seq_started env s)" using assms(1) db_reachable_ok by (simp_all add: scan_inv_def seq_started_def)
  define d0 where "d0 = \<lparr>df_id = 0, df_filename = [], df_ino = 0, df_subvol = subvol, df_size = 0, df_mtime = 0, df_dedupe_seq = 0\<rparr>"
  obtain dbfile where d: "dbfile_describe_file 0 (stx_ino st) subvol (ss_db s) d0 = (0, dbfile)"
    by (cases "List.find (\<lambda>r. f_ino r = bind_int64 (stx_ino st) \<and> f_subvol r = bind_int64 subvol) (files (ss_db s))") (auto simp: dbfile_describe_file_def)
  have sv: "df_subvol dbfile = subvol" using d by (auto simp: dbfile_describe_file_def d0_def split: option.splits)
  define old where "old \<longleftrightarrow> df_mtime dbfile = timestamp_to_nano st \<and> df_size dbfile = stx_size st \<and> \<not> is_file_renamed env (df_filename dbfile) path"
  have eq: "scan_file_st env path st s = (if old then Some (0, seq_started env s) else store_file env path (is_file_renamed env (df_filename dbfile) path)
      (dbfile\<lparr>df_ino := stx_ino st, df_size := stx_size st, df_filename := take 4096 path,
        df_mtime := timestamp_to_nano st, df_dedupe_seq := ss_seq (next_batch env (seq_started env s))\<rparr>) (next_batch env (seq_started env s)))"
    unfolding scan_file_st_def seq_started_def [symmetric] Let_def using assms(2-4) mu
    by (simp add: describe_free d [unfolded d0_def] old_def)
  have "old \<longleftrightarrow> up_to_date env path st subvol (ss_db s)"
  proof (cases "List.find (\<lambda>r. f_ino r = bind_int64 (stx_ino st) \<and> f_subvol r = bind_int64 subvol) (files (ss_db s))")
    case None
    then have "dbfile = d0" using d by (simp add: dbfile_describe_file_def)
    then have "\<not> old" using assms(5) by (auto simp: old_def d0_def)
    then show ?thesis using None by (auto simp: up_to_date_def find_None_iff)
  next
    case (Some r)
    then have r: "r \<in> set (files (ss_db s))" "f_ino r = bind_int64 (stx_ino st)" "f_subvol r = bind_int64 subvol"
      by (auto simp: find_Some_iff)
    have "old \<longleftrightarrow> column_int64 (f_mtime r) = timestamp_to_nano st \<and> column_int64 (f_size r) = stx_size st \<and> \<not> is_file_renamed env (f_filename r) path"
      using d Some by (auto simp: dbfile_describe_file_def old_def)
    then show ?thesis using r unique_row [OF di r(1)] unfolding up_to_date_def by metis
  qed
  then show "up_to_date env path st subvol (ss_db s) \<Longrightarrow> scan_file_st env path st s = Some (0, seq_started env s)"
    "\<not> up_to_date env path st subvol (ss_db s) \<Longrightarrow> \<exists>renamed dbfile. df_subvol dbfile = subvol \<and>
      scan_file_st env path st s = store_file env path renamed (dbfile\<lparr>df_ino := stx_ino st, df_size := stx_size st, df_filename := take 4096 path,
        df_mtime := timestamp_to_nano st, df_dedupe_seq := ss_seq (next_batch env (seq_started env s))\<rparr>) (next_batch env (seq_started env s))"
    using eq sv by auto
qed

lemma write_file_row:
  assumes "db_inv db" "rowid \<notin> f_id ` set (files db)"
  shows "\<lparr>f_id = rowid, f_filename = df_filename f, f_ino = bind_int64 (df_ino f), f_subvol = bind_int64 (df_subvol f),
      f_size = bind_int64 (df_size f), f_mtime = bind_int64 (df_mtime f), f_dedupe_seq = sint (df_dedupe_seq f),
      f_digest = None, f_flags = None\<rparr> \<in> set (files (write_file rowid f db))"
    and "rowid \<notin> br_fileid ` set (blocks (write_file rowid f db))" "rowid \<notin> er_fileid ` set (extents (write_file rowid f db))"
  using assms by (auto simp: write_file_def delete_files_def Let_def db_inv_def)

lemma scan_file_st_stores:
  assumes env: "scan_env_ok env" and inv: "scan_inv env s"
    and f: "\<not> is_excluded env path" "env_statx env path = (0, st)" "S_ISREG (stx_mode st)" "stx_size st \<noteq> 0" "length path \<le> 4096"
    and sv: "file_subvol env path (ss_fs s) = Inr subvol"
    and rc: "env_describe_rc env path = 0" "env_store_rc env path = 0" "env_push env path"
    and old: "\<not> up_to_date env path st subvol (ss_db s)"
  shows "\<exists>s' r. scan_file_st env path st s = Some (0, s') \<and> scan_inv env s' \<and> r \<in> set (files (ss_db s')) \<and>
    f_filename r = path \<and> f_ino r = bind_int64 (stx_ino st) \<and> f_subvol r = bind_int64 subvol \<and> f_size r = bind_int64 (stx_size st) \<and>
    f_mtime r = bind_int64 (timestamp_to_nano st) \<and> f_dedupe_seq r = sint (ss_seq s') \<and> f_digest r = None \<and>
    f_id r \<notin> br_fileid ` set (blocks (ss_db s')) \<and> f_id r \<notin> er_fileid ` set (extents (ss_db s')) \<and>
    ss_queue s' = ss_queue s @ [\<lparr>fs_path = Some path, fs_fileid = f_id r, fs_filesize = stx_size st, fs_position = ss_position s'\<rparr>] \<and>
    scan_file_st env path st s' = Some (0, seq_started env s')"
proof -
  obtain renamed d where d: "df_subvol d = subvol"
    "scan_file_st env path st s = store_file env path renamed (d\<lparr>df_ino := stx_ino st, df_size := stx_size st, df_filename := take 4096 path,
        df_mtime := timestamp_to_nano st, df_dedupe_seq := ss_seq (next_batch env (seq_started env s))\<rparr>) (next_batch env (seq_started env s))"
    using scan_file_st_eq(2) [OF inv f(3) sv rc(1) f(4) old] by blast
  define s1 where "s1 = next_batch env (seq_started env s)"
  define df where "df = d\<lparr>df_ino := stx_ino st, df_size := stx_size st, df_filename := take 4096 path, df_mtime := timestamp_to_nano st, df_dedupe_seq := ss_seq s1\<rparr>"
  have i1: "scan_inv env s1" using inv by (simp add: s1_def)
  define db where "db = stored_db env path renamed df (ss_db s1)"
  have "db_reachable db" unfolding db_def using i1 by (intro stored_db_reachable) (simp add: scan_inv_def)
  then have dbi: "db_inv db" by (rule db_reachable_ok)
  have rid: "env_rowid env db \<notin> f_id ` set (files db)" using env by (simp add: scan_env_ok_def)
  have room: "env_task_room env path" "env_name_room env path" using env by (simp_all add: scan_env_ok_def)
  define s' where "s' = snd (the (queue_file env path (env_rowid env db) (df_size df) (s1\<lparr>ss_db := write_file (env_rowid env db) df db\<rparr>)))"
  have run: "scan_file_st env path st s = Some (0, s')"
    unfolding d(2) s1_def [symmetric] df_def [symmetric] store_file_eq [OF env i1] Let_def db_def [symmetric]
    using rc room by (simp add: s'_def queue_file_def Let_def)
  obtain ret s2 where "scan_file_st env path st s = Some (ret, s2)" "scan_inv env s2" using scan_file_st_ok [OF env inv f(1-4)] by blast
  then have i': "scan_inv env s'" using run by simp
  have db': "ss_db s' = write_file (env_rowid env db) df db" using rc(3) room by (simp add: s'_def queue_file_def Let_def)
  define r where "r = \<lparr>f_id = env_rowid env db, f_filename = df_filename df, f_ino = bind_int64 (df_ino df), f_subvol = bind_int64 (df_subvol df),
    f_size = bind_int64 (df_size df), f_mtime = bind_int64 (df_mtime df), f_dedupe_seq = sint (df_dedupe_seq df), f_digest = None, f_flags = None\<rparr>"
  have r: "r \<in> set (files (ss_db s'))" "f_id r \<notin> br_fileid ` set (blocks (ss_db s'))" "f_id r \<notin> er_fileid ` set (extents (ss_db s'))"
    using write_file_row [OF dbi rid, of df] unfolding db' r_def by simp_all
  have fs: "ss_fs s' = ss_fs s" "ss_seq s' = ss_seq s1" "ss_position s' = ss_position s + 1" "ss_queue s1 = ss_queue s"
    using rc(3) room by (simp_all add: s'_def queue_file_def Let_def s1_def)
  have "up_to_date env path st subvol (ss_db s')"
    unfolding up_to_date_def using r(1) d(1) f(5) by (intro bexI [of _ r]) (simp_all add: r_def df_def is_file_renamed_def)
  then have again: "scan_file_st env path st s' = Some (0, seq_started env s')"
    using scan_file_st_eq(1) [OF i' f(3) _ rc(1) f(4)] sv fs(1) by simp
  have q: "ss_queue s' = ss_queue s @ [\<lparr>fs_path = Some path, fs_fileid = f_id r, fs_filesize = stx_size st, fs_position = ss_position s'\<rparr>]"
    using rc(3) room fs(3) by (simp add: s'_def queue_file_def Let_def r_def df_def s1_def)
  show ?thesis using run i' r q again fs(2) d(1) f(5) by (intro exI [of _ s'] exI [of _ r]) (simp add: r_def df_def)
qed

lemma scan_file_ok:
  assumes env: "scan_env_ok env" "\<forall>p es. env_opendir env p = Some es \<longrightarrow> dirs_ok env p es" and inv: "scan_inv env s"
  shows "\<exists>ret s'. scan_file env in_path s = Some (ret, s') \<and> scan_inv env s'"
proof (cases "env_realpath env in_path")
  case (Some path)
  obtain ret st where x: "env_statx env path = (ret, st)" by (cases "env_statx env path")
  obtain ok fs where c: "check_file env (ss_db s) path st False (ss_fs s) = (ok, fs)" by (cases "check_file env (ss_db s) path st False (ss_fs s)")
  define s1 where "s1 = s\<lparr>ss_fs := fs\<rparr>"
  have i1: "scan_inv env s1" using inv by (simp add: s1_def)
  have reg: "\<exists>ret s'. scan_file_st env path st s1 = Some (ret, s') \<and> scan_inv env s'" if "ret = 0" "ok" "S_ISREG (stx_mode st)"
    by (rule scan_file_st_ok [OF env(1) i1]) (use that c x check_file_Some in \<open>blast | simp\<close>)+
  show ?thesis using Some x c inv i1 reg walk_ok(1) [OF env i1, of path]
    by (auto simp: scan_file_def Let_def s1_def)
qed (use inv in \<open>simp add: scan_file_def\<close>)

section \<open>The properties of the scan\<close>

definition example_stat :: "16 word \<Rightarrow> u64 \<Rightarrow> statx" where
  "example_stat mode sz = \<lparr>stx_mask = 0x7ff, stx_mode = mode, stx_ino = 12, stx_size = sz, stx_mtime_sec = 1, stx_mtime_nsec = 5,
     stx_dev_major = 8, stx_dev_minor = 1\<rparr>"

text \<open>A directory with one file, on XFS.\<close>

definition example_env :: scan_env where
  "example_env = \<lparr>env_exclude = [''*.o''], env_fnmatch = (\<lambda>pattern name. False), env_open = (\<lambda>path. Inr 3), env_statfs = (\<lambda>path. Inr XFS_SB_MAGIC),
     env_fs_info = (\<lambda>fd. Inl 25), env_ino_lookup = (\<lambda>fd. Inl 25),
     env_statx = (\<lambda>path. (0, if path = ''/d'' then example_stat 0x41ed 0 else example_stat 0x81a4 4096)),
     env_statx_at = (\<lambda>dir name. (2, example_stat 0 0)), env_lstat = (\<lambda>path. 0), env_mount_source = (\<lambda>dev. Some (Some ''/dev/sda1'')),
     env_blkid_uuid = (\<lambda>dev. Some ''u''), env_uuid_parse = (\<lambda>text. if text = ''u'' then Some (replicate 16 7) else None), env_uuid_junk = replicate 37 (CHR 0x00),
     env_opendir = (\<lambda>path. if path = ''/d'' then Some [Some \<lparr>d_name = ''.'', d_type = DT_DIR\<rparr>, Some \<lparr>d_name = ''a'', d_type = DT_REG\<rparr>] else None),
     env_realpath = Some, env_recurse_dirs = True, env_batch_size = 2, env_blocksize = 131072, env_dedupe_seq = 0, env_config_rc = 0,
     env_describe_rc = (\<lambda>path. 0), env_rename_rc = (\<lambda>path. 0), env_remove_rc = (\<lambda>path. (0, 0)), env_store_rc = (\<lambda>path. 0),
     env_rowid = (\<lambda>db. 1 + sum_list (map (\<lambda>r. \<bar>f_id r\<bar>) (files db))), env_push = (\<lambda>path. True),
     env_in_memory = True, env_task_room = (\<lambda>path. True), env_name_room = (\<lambda>path. True)\<rparr>"

definition example_scan_state :: scan_state where
  "example_scan_state = \<lparr>ss_db = create_tables, ss_saved = None, ss_mutex = False,
     ss_fs = \<lparr>lf_uuid = null_uuid, lf_dev = 0, lf_is_btrfs = False\<rparr>, ss_seq = 0, ss_counter = 0, ss_position = 0, ss_queue = []\<rparr>"

lemma example_rowid_fresh: "1 + sum_list (map (\<lambda>r. \<bar>f_id r\<bar>) rows) \<noteq> 0 \<and> 1 + sum_list (map (\<lambda>r. \<bar>f_id r\<bar>) rows) \<notin> f_id ` set rows"
proof -
  have "0 \<le> sum_list (map (\<lambda>r. \<bar>f_id r\<bar>) rows) \<and> (\<forall>r \<in> set rows. f_id r \<le> sum_list (map (\<lambda>r. \<bar>f_id r\<bar>) rows))"
  proof (induction rows)
    case (Cons r rows)
    have "f_id x \<le> \<bar>f_id r\<bar> + sum_list (map (\<lambda>r. \<bar>f_id r\<bar>) rows)" if "x \<in> set rows" for x using Cons that by force
    moreover have "f_id r \<le> \<bar>f_id r\<bar>" by simp
    ultimately show ?case using Cons by auto
  qed simp
  then show ?thesis by force
qed

lemma example_env_ok: "scan_env_ok example_env" "\<forall>p es. env_opendir example_env p = Some es \<longrightarrow> dirs_ok example_env p es"
  "scan_inv example_env example_scan_state"
proof -
  show "scan_env_ok example_env" unfolding scan_env_ok_def using example_rowid_fresh by (auto simp: example_env_def)
  have "S_ISREG 0x81a4" by (simp add: S_ISREG_def)
  then show "\<forall>p es. env_opendir example_env p = Some es \<longrightarrow> dirs_ok example_env p es"
    by (auto simp: dirs_ok_def example_env_def example_stat_def get_dirent_type_def child_path_def split: if_splits)
  show "scan_inv example_env example_scan_state" by (simp add: scan_inv_def example_scan_state_def db_reachable_create)
qed

lemma example_uuids: "get_uuid example_env p null_uuid = (0, replicate 16 7)"
  by (simp add: get_uuid_def example_env_def is_btrfs_def XFS_SB_MAGIC_def BTRFS_SUPER_MAGIC_def example_stat_def extract_first_device_def)

lemma example_uuids_ok: "uuids_ok example_env" "is_fs_supported example_env p"
proof -
  have "\<not> uuid_is_null (replicate 16 7)" by (simp add: uuid_is_null_def list_all_iff)
  then show "uuids_ok example_env" unfolding uuids_ok_def by (auto simp: example_env_def)
  show "is_fs_supported example_env p" by (simp add: is_fs_supported_def example_env_def)
qed

text \<open>
  C21. \<open>check_file\<close> keeps a run on one file system, among paths on the file systems the program supports,
  btrfs and XFS. Whether a path is taken or not, a lock that is on a uuid never moves to another. A
  path that is taken after a look at the file system has the uuid the lock is on, or lies on the same
  device as a path that has it where that is not btrfs; a path that is refused there has not that
  uuid, or the lock is on a file system other than btrfs and the device is another one. Excluded here: a
  configuration that cannot be read, which \<open>check_file\<close> answers with true, and regular files whose
  directory was checked, which are taken without a look.
\<close>

theorem check_file_one_fs:
  assumes "uuids_ok env" "is_fs_supported env path" "lock_inv env fs" "env_statx env path = (0, st)" "env_config_rc env = 0"
    and "check_file env db path st parent_checked fs = (ok, fs')"
  shows "lock_inv env fs' \<and> (\<not> uuid_is_null (lf_uuid fs) \<longrightarrow> lf_uuid fs' = lf_uuid fs) \<and>
    (if is_excluded env path \<or> \<not> S_ISREG (stx_mode st) \<and> \<not> S_ISDIR (stx_mode st) \<or> S_ISREG (stx_mode st) \<and> stx_size st = 0 then \<not> ok
     else if S_ISREG (stx_mode st) \<and> parent_checked then ok
     else if ok then on_fs env path st (lf_uuid fs')
     else get_uuid env path null_uuid \<noteq> (0, lf_uuid fs') \<or> \<not> lf_is_btrfs fs' \<and> lf_dev fs' \<notin> {0, stx_to_dev st})"
  using assms(3,6) check_locked_fs_ok [OF assms(1-5), of db ok fs'] by (auto simp: check_file_def split: if_splits)

theorem check_file_one_fs_witness:
  "\<exists>fs'. check_file example_env create_tables ''/d'' (example_stat 0x41ed 0) False \<lparr>lf_uuid = null_uuid, lf_dev = 0, lf_is_btrfs = False\<rparr> = (True, fs') \<and>
     on_fs example_env ''/d'' (example_stat 0x41ed 0) (lf_uuid fs') \<and> lock_inv example_env fs'"
proof -
  let ?fs = "\<lparr>lf_uuid = null_uuid, lf_dev = 0, lf_is_btrfs = False\<rparr>"
  have st: "env_statx example_env ''/d'' = (0, example_stat 0x41ed 0)" "env_config_rc example_env = 0" by (simp_all add: example_env_def)
  have m: "\<not> S_ISREG (stx_mode (example_stat 0x41ed 0))" "S_ISDIR (stx_mode (example_stat 0x41ed 0))"
    by (simp_all add: example_stat_def S_ISREG_def S_ISDIR_def)
  have "cfg_fs_uuid (dbfile_get_config (env_uuid_parse example_env) (env_uuid_junk example_env) (env_blocksize example_env) create_tables) = null_uuid"
    by (simp add: dbfile_get_config_def Let_def get_config_text_def c_string_def create_tables_def example_env_def dbfile_config_defaults_def null_uuid_def)
  moreover have "uuid_is_null null_uuid" by (simp add: uuid_is_null_def null_uuid_def list_all_iff)
  moreover have ex: "\<not> is_excluded example_env ''/d''" by (simp add: is_excluded_def example_env_def)
  ultimately obtain fs' where c: "check_file example_env create_tables ''/d'' (example_stat 0x41ed 0) False ?fs = (True, fs')"
    using m st(2) by (simp add: check_file_def check_locked_fs_def check_lock_def example_uuids)
  from check_file_one_fs [OF example_uuids_ok open_lock_inv st c] m c ex show ?thesis by auto
qed



text \<open>
  C8. A file the hash file does not describe as it is on disk gets exactly one row with its name,
  inode, size, time and the number of the batch, without a digest and without hashes left from
  before, and is queued under the id of that row. Scanning it again right away does nothing.
\<close>

theorem scan_file_st_correct:
  assumes "scan_env_ok env" "scan_inv env s"
    and "\<not> is_excluded env path" "env_statx env path = (0, st)" "S_ISREG (stx_mode st)" "stx_size st \<noteq> 0" "length path \<le> 4096"
    and "file_subvol env path (ss_fs s) = Inr subvol" "env_describe_rc env path = 0" "env_store_rc env path = 0" "env_push env path"
    and "\<not> up_to_date env path st subvol (ss_db s)"
  shows "\<exists>s' r. scan_file_st env path st s = Some (0, s') \<and> scan_inv env s' \<and> r \<in> set (files (ss_db s')) \<and>
    f_filename r = path \<and> f_ino r = bind_int64 (stx_ino st) \<and> f_subvol r = bind_int64 subvol \<and> f_size r = bind_int64 (stx_size st) \<and>
    f_mtime r = bind_int64 (timestamp_to_nano st) \<and> f_dedupe_seq r = sint (ss_seq s') \<and> f_digest r = None \<and>
    f_id r \<notin> br_fileid ` set (blocks (ss_db s')) \<and> f_id r \<notin> er_fileid ` set (extents (ss_db s')) \<and>
    ss_queue s' = ss_queue s @ [\<lparr>fs_path = Some path, fs_fileid = f_id r, fs_filesize = stx_size st, fs_position = ss_position s'\<rparr>] \<and>
    scan_file_st env path st s' = Some (0, seq_started env s')"
  by (rule scan_file_st_stores [OF assms])

theorem scan_file_st_correct_witness:
  "\<exists>s' r. scan_file_st example_env ''/d/a'' (example_stat 0x81a4 4096) example_scan_state = Some (0, s') \<and> r \<in> set (files (ss_db s')) \<and>
    f_filename r = ''/d/a'' \<and> length (ss_queue s') = 1"
proof -
  have "S_ISREG (stx_mode (example_stat 0x81a4 4096))" "stx_size (example_stat 0x81a4 4096) \<noteq> 0"
    by (simp_all add: example_stat_def S_ISREG_def)
  moreover have "\<not> is_excluded example_env ''/d/a''" "env_statx example_env ''/d/a'' = (0, example_stat 0x81a4 4096)"
    "env_describe_rc example_env ''/d/a'' = 0" "env_store_rc example_env ''/d/a'' = 0" "env_push example_env ''/d/a''"
    by (simp_all add: is_excluded_def example_env_def)
  moreover have "file_subvol example_env ''/d/a'' (ss_fs example_scan_state) = Inr 0" "ss_queue example_scan_state = []"
    "\<not> up_to_date example_env ''/d/a'' (example_stat 0x81a4 4096) 0 (ss_db example_scan_state)"
    by (simp_all add: file_subvol_def example_scan_state_def up_to_date_def create_tables_def)
  ultimately show ?thesis
    using scan_file_st_correct [OF example_env_ok(1,3), of "''/d/a''" "example_stat 0x81a4 4096" 0] by force
qed

text \<open>
  When the row of a renamed file cannot be renamed, \<open>__scan_file\<close> returns 0 with the mutex held and the
  transaction open, and the next file that has to be stored waits forever.
\<close>

lemma rename_failure_keeps_mutex:
  assumes "\<not> ss_mutex s" "env_rename_rc env path \<noteq> 0"
  shows "\<exists>s'. store_file env path True dbfile s = Some (0, s') \<and> (\<forall>path' renamed dbfile'. store_file env path' renamed dbfile' s' = None)"
  using assms by (simp add: store_file_def dbfile_lock_def rename_row_def dbfile_rename_file_def begin_trans_def split: option.split)

end
