(* ===== verification/Fdupes.thy ===== *)
theory Fdupes
  imports RunDedupe
begin

text \<open>
  Deduplicating a list of whole files that another program found equal, \<open>fdupes_dedupe\<close> of
  \<open>run_dedupe.c\<close>: the files on the global list are queued against the first of them, in batches of
  one ioctl, and at the end all file records are freed. The state is that of \<open>RunDedupe\<close>, with
  \<open>kern_bytes\<close> for the counter \<open>bytes\<close>, which nothing reads; \<open>err\<close> is what
  \<open>errno\<close> holds after a failed batch.
\<close>

section \<open>Model\<close>

text \<open>\<open>add_file_fdupes\<close> of \<open>file_scan.c\<close>: the code of \<open>statx\<close>, and the mask, the inode and the size it gives.\<close>

definition add_file_fdupes :: "fptr option \<Rightarrow> bool \<Rightarrow> int \<Rightarrow> bool \<Rightarrow> u64 \<Rightarrow> u64 \<Rightarrow> string \<Rightarrow> filerecs \<Rightarrow> filerecs option" where
  "add_file_fdupes new dup ret stats ino sz path st =
     (if ret \<noteq> 0 \<or> \<not> stats then Some st
      else do { (_, st) \<leftarrow> filerec_new new dup path (sint ino) sz st; Some st })"

text \<open>One batch: \<open>Some\<close> is an error, after which the files are still open.\<close>

definition dedupe_batch :: "'w sys \<Rightarrow> int \<Rightarrow> dedupe_ctxt \<Rightarrow> 'w dedupe_state \<Rightarrow> (int option \<times> 'w dedupe_state) option" where
  "dedupe_batch E err c S = do {
     (ret, fsb, c, w) \<leftarrow> dedupe_extents (sys_dedupe E (fd_of (ds_files S) (dc_ioctl_file c))) (fd_of (ds_files S))
       (sys_statfs E) 0 (ds_fs_blocksize S) c (ds_world S);
     let S = S\<lparr>ds_fs_blocksize := fsb, ds_world := w\<rparr>;
     if ret \<noteq> 0 then Some (Some err, S)
     else do {
       (t, st) \<leftarrow> filerec_close_open_list (ds_open S) (ds_files S);
       (kern, log, c) \<leftarrow> process_dedupe_results c (kern_bytes S) (ds_log S);
       Some (None, S\<lparr>ds_open := t, ds_files := st, kern_bytes := kern, ds_log := log\<rparr>)
     }
   }"

text \<open>The loop over the files; an error is a jump to \<open>out\<close>.\<close>

fun fdupes_loop :: "'w sys \<Rightarrow> int \<Rightarrow> fptr list \<Rightarrow> dedupe_ctxt option \<Rightarrow> 'w dedupe_state \<Rightarrow> (int \<times> 'w dedupe_state) option" where
  "fdupes_loop E err [] ctxt S = Some (0, S)"
| "fdupes_loop E err (file # fs) ctxt S = do {
     (ret, t, st) \<leftarrow> filerec_open_once (sys_open E) (token_room E file) file (ds_open S) (ds_files S);
     let S = S\<lparr>ds_open := t, ds_files := st\<rparr>;
     if ret \<noteq> 0 then fdupes_loop E err fs ctxt S
     else case ctxt of
       None \<Rightarrow> do {
         r \<leftarrow> recs (ds_files S) file;
         case new_dedupe_ctxt (ctxt_room E) (same_room E) MAX_DEDUPES_PER_IOCTL 0 (fsize r) file of
           None \<Rightarrow> Some (ENOMEM, S)
         | Some c \<Rightarrow> fdupes_loop E err fs (Some c) S
       }
     | Some c \<Rightarrow> do {
         (rc, c) \<leftarrow> add_extent_to_dedupe (req_room E (file, 0)) c 0 file;
         if rc < 0 then Some (ENOMEM, S)
         else if rc = 0 \<or> fs = [] then do {
           (ret, S) \<leftarrow> dedupe_batch E err c S;
           case ret of Some err \<Rightarrow> Some (err, S) | None \<Rightarrow> fdupes_loop E err fs None S
         }
         else fdupes_loop E err fs (Some c) S
       }
   }"

definition fdupes_dedupe :: "'w sys \<Rightarrow> int \<Rightarrow> 'w dedupe_state \<Rightarrow> (int \<times> 'w dedupe_state) option" where
  "fdupes_dedupe E err S = do {
     (ret, S) \<leftarrow> fdupes_loop E err (filerec_head (ds_files S)) None (S\<lparr>ds_open := RB_NULL\<rparr>);
     (t, st) \<leftarrow> filerec_close_open_list (ds_open S) (ds_files S);
     st \<leftarrow> free_all_filerecs st;
     Some (ret, S\<lparr>ds_open := t, ds_files := st\<rparr>)
   }"

section \<open>Batches of files\<close>

lemma dedupe_batch_ok:
  assumes E: "sys_ok E" and c: "filling n len c" and len: "len < 2 ^ 32" and q: "num_queued c \<noteq> 0"
    and S: "holding st0 S" "ds_fs_blocksize S = 0 \<or> block_size_ok (ds_fs_blocksize S)"
  shows "\<exists>ret S'. dedupe_batch E err c S = Some (ret, S') \<and> holding st0 S' \<and> (ds_fs_blocksize S' = 0 \<or> block_size_ok (ds_fs_blocksize S'))"
proof -
  obtain ret fsb' c' w' where
    d: "dedupe_extents (sys_dedupe E (fd_of (ds_files S) (dc_ioctl_file c))) (fd_of (ds_files S)) (sys_statfs E) 0 (ds_fs_blocksize S) c (ds_world S) =
        Some (ret, fsb', c', w')" "fsb' = 0 \<or> block_size_ok fsb'"
      "ret = 0 \<longrightarrow> (\<forall>kern log. \<exists>kern' log' c''. process_dedupe_results c' kern log = Some (kern', log', c''))"
    using ioctl_batch_ok [OF E c len q S(2)] by blast
  have fi: "fd_inv st0" using S(1) by (simp add: holding_def)
  show ?thesis
  proof (cases "ret = 0")
    case True
    then obtain kern' log' c'' where p: "process_dedupe_results c' (kern_bytes S) (ds_log S) = Some (kern', log', c'')" using d(3) by blast
    define S' where "S' = S\<lparr>ds_fs_blocksize := fsb', ds_world := w', ds_open := RB_NULL, ds_files := st0, kern_bytes := kern', ds_log := log'\<rparr>"
    have "dedupe_batch E err c S = Some (None, S')" using d(1) True p close_holding [OF S(1)] by (simp add: dedupe_batch_def S'_def)
    moreover have "holding st0 S'" using holding_start [OF fi, of S'] by (simp add: S'_def)
    ultimately show ?thesis using d(2) by (simp add: S'_def)
  next
    case False
    then have "dedupe_batch E err c S = Some (Some err, S\<lparr>ds_fs_blocksize := fsb', ds_world := w'\<rparr>)" using d(1) by (simp add: dedupe_batch_def)
    moreover have "holding st0 (S\<lparr>ds_fs_blocksize := fsb', ds_world := w'\<rparr>)" using S(1) by (rule holding_same) (simp add: same_but_def)
    ultimately show ?thesis using d(2) by simp
  qed
qed

text \<open>The context being filled: its length is the size of its first file, and there is room for one more.\<close>

definition fdupes_ctxt :: "dedupe_ctxt option \<Rightarrow> bool" where
  "fdupes_ctxt ctxt \<longleftrightarrow> (\<forall>c. ctxt = Some c \<longrightarrow> filling 120 (dc_len c) c \<and> 0 < dc_len c \<and> dc_len c < 2 ^ 32 \<and> length (queued c) + 1 < 120)"

definition sizes_ok :: "filerecs \<Rightarrow> bool" where
  "sizes_ok st \<longleftrightarrow> (\<forall>f r. recs st f = Some r \<longrightarrow> 0 < fsize r \<and> fsize r < 2 ^ 32)"

lemma holding_sizes: "holding st0 S \<Longrightarrow> sizes_ok st0 \<Longrightarrow> recs (ds_files S) f = Some r \<Longrightarrow> 0 < fsize r \<and> fsize r < 2 ^ 32"
  by (auto simp: holding_def held_def sizes_ok_def split: option.splits if_splits)

lemma fdupes_loop_ok:
  assumes E: "sys_ok E" and st0: "sizes_ok st0"
  shows "set fs \<subseteq> dom (recs st0) \<Longrightarrow> holding st0 S \<Longrightarrow> ds_fs_blocksize S = 0 \<or> block_size_ok (ds_fs_blocksize S) \<Longrightarrow> fdupes_ctxt ctxt \<Longrightarrow>
    \<exists>ret S'. fdupes_loop E err fs ctxt S = Some (ret, S') \<and> holding st0 S' \<and> (ds_fs_blocksize S' = 0 \<or> block_size_ok (ds_fs_blocksize S'))"
proof (induction fs arbitrary: ctxt S)
  case (Cons f fs)
  have so: "sys_open_ok (sys_open E)" using E by (simp add: sys_ok_def)
  have f: "f \<in> dom (recs st0)" and fs: "set fs \<subseteq> dom (recs st0)" using Cons.prems(1) by simp_all
  obtain ret t st where o: "filerec_open_once (sys_open E) (token_room E f) f (ds_open S) (ds_files S) = Some (ret, t, st)"
      "holding st0 (S\<lparr>ds_open := t, ds_files := st\<rparr>)"
    using open_holding [OF Cons.prems(2) so f, of "token_room E f"] by blast
  define S1 where "S1 = S\<lparr>ds_open := t, ds_files := st\<rparr>"
  have h: "holding st0 S1" "ds_fs_blocksize S1 = 0 \<or> block_size_ok (ds_fs_blocksize S1)" using o(2) Cons.prems(3) by (simp_all add: S1_def)
  note IH = Cons.IH [OF fs]
  show ?case
  proof (cases "ret = 0")
    case False
    then show ?thesis using IH [OF h Cons.prems(4)] o(1) by (simp add: S1_def)
  next
    case ret: True
    show ?thesis
    proof (cases ctxt)
      case None
      obtain r where r: "recs (ds_files S1) f = Some r" using holding_recs [OF h(1) f] by blast
      note sz = holding_sizes [OF h(1) st0 r]
      show ?thesis
      proof (cases "new_dedupe_ctxt (ctxt_room E) (same_room E) MAX_DEDUPES_PER_IOCTL 0 (fsize r) f")
        case n: None
        then show ?thesis using o(1) ret None r h by (simp add: S1_def)
      next
        case (Some c)
        then have "ctxt_room E \<and> same_room E" by (auto simp: new_dedupe_ctxt_def Let_def split: if_splits)
        moreover obtain c0 where "new_dedupe_ctxt True True (of_nat 120) 0 (fsize r) f = Some c0" "filling 120 (fsize r) c0" "queued c0 = []"
          using new_ctxt_filling [of 120 0 "fsize r" f] by auto
        ultimately have "filling 120 (fsize r) c" "queued c = []" using Some by (simp_all add: MAX_DEDUPES_PER_IOCTL_def)
        then have "fdupes_ctxt (Some c)" using sz by (simp add: fdupes_ctxt_def filling_def)
        from IH [OF h this] show ?thesis using o(1) ret None r Some by (simp add: S1_def)
      qed
    next
      case (Some c)
      then have c: "filling 120 (dc_len c) c" "0 < dc_len c" "dc_len c < 2 ^ 32" "length (queued c) + 1 < 120"
        using Cons.prems(4) by (simp_all add: fdupes_ctxt_def)
      show ?thesis
      proof (cases "req_room E (f, 0)")
        case False
        then show ?thesis using o(1) ret Some add_no_room [OF c(1,4), of 0 f] h by (simp add: S1_def)
      next
        case True
        obtain c' where a: "add_extent_to_dedupe True c 0 f = Some (int (120 - 2 - length (queued c)), c')" "filling 120 (dc_len c) c'"
            "length (queued c') = length (queued c) + 1"
          using add_filling [OF c(1,2,4)] by blast
        have len: "dc_len c' = dc_len c" using a(2) by (simp add: filling_def)
        have nq: "num_queued c' \<noteq> 0" using a(2,3) c(4) unat_u32_of_nat [of "length (queued c')"] by (auto simp: filling_def)
        show ?thesis
        proof (cases "120 - 2 - length (queued c) = 0 \<or> fs = []")
          case batch: True
          obtain rc S2 where b: "dedupe_batch E err c' S1 = Some (rc, S2)" "holding st0 S2"
              "ds_fs_blocksize S2 = 0 \<or> block_size_ok (ds_fs_blocksize S2)"
            using dedupe_batch_ok [OF E a(2) c(3) nq h, of err] by blast
          have "fdupes_loop E err (f # fs) ctxt S = (case rc of Some e \<Rightarrow> Some (e, S2) | None \<Rightarrow> fdupes_loop E err fs None S2)"
            using o(1) ret Some True a(1) batch b(1) by (auto simp: S1_def)
          then show ?thesis using IH [OF b(2,3), of None] b(2,3) by (cases rc) (simp_all add: fdupes_ctxt_def)
        next
          case more: False
          then have "fdupes_ctxt (Some c')" using a(2,3) c len by (simp add: fdupes_ctxt_def)
          from IH [OF h this] show ?thesis using o(1) ret Some True a(1) more by (simp add: S1_def)
        qed
      qed
    qed
  qed
qed simp

text \<open>
  When the last file cannot be opened, the loop ends and what was queued before it is dropped: no
  ioctl is made.
\<close>

lemma fdupes_last_unopened:
  assumes "filerec_open_once (sys_open E) (token_room E f) f (ds_open S) (ds_files S) = Some (ret, t, st)" "ret \<noteq> 0"
  shows "fdupes_loop E err [f] (Some c) S = Some (0, S\<lparr>ds_open := t, ds_files := st\<rparr>)"
  using assms by simp

section \<open>The property of \<open>fdupes\<close> mode\<close>

lemma fdupes_dedupe_ok:
  assumes "sys_ok E" "filerecs_inv (ds_files S)" "fd_inv (ds_files S)" "sizes_ok (ds_files S)"
    and "ds_fs_blocksize S = 0 \<or> block_size_ok (ds_fs_blocksize S)"
  shows "\<exists>ret S'. fdupes_dedupe E err S = Some (ret, S') \<and> ds_open S' = RB_NULL \<and>
    ds_files S' = no_filerecs\<lparr>open_fds := open_fds (ds_files S)\<rparr> \<and>
    (ds_fs_blocksize S' = 0 \<or> block_size_ok (ds_fs_blocksize S'))"
proof -
  have h: "holding (ds_files S) (S\<lparr>ds_open := RB_NULL\<rparr>)" by (rule holding_start [OF assms(3)]) simp_all
  have "set (filerec_head (ds_files S)) \<subseteq> dom (recs (ds_files S))" using assms(2) by (simp add: filerecs_inv_def)
  then obtain ret S' where "fdupes_loop E err (filerec_head (ds_files S)) None (S\<lparr>ds_open := RB_NULL\<rparr>) = Some (ret, S')" and h': "holding (ds_files S) S'"
      and fsb: "ds_fs_blocksize S' = 0 \<or> block_size_ok (ds_fs_blocksize S')"
    using fdupes_loop_ok [OF assms(1,4) _ h, of "filerec_head (ds_files S)" None err] assms(5) by (auto simp: fdupes_ctxt_def)
  then show ?thesis using fsb close_holding [OF h'] free_all_filerecs_ok [OF assms(2)] by (simp add: fdupes_dedupe_def)
qed

text \<open>
  C23. \<open>fdupes_dedupe\<close> ends for any list of files that are not empty and smaller than 4 GiB, with a kernel that
  keeps its contract (an \<open>ioctl\<close> that succeeds advances all destinations without an error alike),
  whichever of the files cannot be opened and whichever batch fails: every descriptor it opened is closed again, and no file record is left.
\<close>

theorem fdupes_dedupe_correct:
  assumes "sys_ok E" "filerecs_inv (ds_files S)" "fd_inv (ds_files S)" "sizes_ok (ds_files S)"
    and "ds_fs_blocksize S = 0 \<or> block_size_ok (ds_fs_blocksize S)"
  shows "\<exists>ret S'. fdupes_dedupe E err S = Some (ret, S') \<and> ds_open S' = RB_NULL \<and>
    ds_files S' = no_filerecs\<lparr>open_fds := open_fds (ds_files S)\<rparr>"
  using fdupes_dedupe_ok [OF assms] by blast

theorem fdupes_dedupe_correct_witness:
  "\<exists>st ret S'. dom (recs st) = {64} \<and> fdupes_dedupe example_sys 5 ((example_state init_results_tree)\<lparr>ds_files := st\<rparr>) = Some (ret, S') \<and>
     ds_files S' = no_filerecs"
proof -
  have none: "filerec_find 1 no_filerecs = None" "recs no_filerecs 64 = None" "open_fds no_filerecs = {}"
    by (simp_all add: no_filerecs_def filerec_find_def)
  obtain st where st: "filerecs_inv st" "recs st = (recs no_filerecs)(64 \<mapsto> \<lparr>fd = -1, fd_refs = 0, filename = ''a'', fileid = 1, fsize = 4096, block_tree = RB_NULL\<rparr>)"
      "open_fds st = {}"
    using filerec_new_ok [OF no_filerecs_inv none(2,1), of "''a''" 4096] none(3) by auto
  have r: "recs st f = (if f = 64 then Some \<lparr>fd = -1, fd_refs = 0, filename = ''a'', fileid = 1, fsize = 4096, block_tree = RB_NULL\<rparr> else None)" for f
    unfolding st(2) by (simp add: no_filerecs_def)
  let ?S = "(example_state init_results_tree)\<lparr>ds_files := st\<rparr>"
  have "fd_inv (ds_files ?S)" "sizes_ok (ds_files ?S)" "filerecs_inv (ds_files ?S)" "ds_fs_blocksize ?S = 0"
    using r st(1) by (auto simp: fd_inv_def sizes_ok_def split: if_splits)
  from fdupes_dedupe_correct [OF example_sys_ok(1) this(3,1,2), of 5] this(4) st(3) obtain ret S' where
    f: "fdupes_dedupe example_sys 5 ?S = Some (ret, S')" "ds_files S' = no_filerecs\<lparr>open_fds := {}\<rparr>" by auto
  moreover have "dom (recs st) = {64}" using r by (auto simp: dom_def)
  moreover have "no_filerecs\<lparr>open_fds := {}\<rparr> = no_filerecs" by (simp add: no_filerecs_def)
  ultimately show ?thesis by metis
qed

end
