(* ===== verification/Pipeline.thy ===== *)
theory Pipeline
  imports DbLoad
begin

text \<open>
  The scan of a file together with the hash file and the load: what \<open>csum_whole_file\<close> asks of the
  database (\<open>FileScan\<close>) is carried out on the tables of \<open>Dbfile\<close>, and \<open>DbLoad\<close> finds the duplicates
  among what was stored.
\<close>

section \<open>Running the calls of a scan\<close>

text \<open>A call on the database and the state a rollback goes back to.\<close>

fun run_db_op :: "scan_db_op \<Rightarrow> database \<times> database \<Rightarrow> database \<times> database" where
  "run_db_op scan_db_op.dbfile_begin_trans (db, saved) = (db, db)"
| "run_db_op (scan_db_op.dbfile_store_block_hashes fid hs) (db, saved) = (snd (dbfile_store_block_hashes (\<lambda>_. 0) fid hs db), saved)"
| "run_db_op (scan_db_op.dbfile_store_extent_hashes fid hs) (db, saved) = (snd (dbfile_store_extent_hashes (\<lambda>_. 0) fid hs db), saved)"
| "run_db_op (scan_db_op.dbfile_update_scanned_file fid digest flags) (db, saved) = (snd (dbfile_update_scanned_file 0 fid digest flags db), saved)"
| "run_db_op scan_db_op.dbfile_abort_trans (db, saved) = (saved, saved)"
| "run_db_op scan_db_op.dbfile_commit_trans (db, saved) = (db, db)"

definition run_db_ops :: "scan_db_op list \<Rightarrow> database \<Rightarrow> database" where
  "run_db_ops ops db = fst (fold run_db_op ops (db, db))"

lemma run_db_op_step: "db_step s (run_db_op op s)"
  by (cases s; cases op) (auto intro: db_step.intros)

lemma run_db_ops_reachable: "db_reachable db \<Longrightarrow> db_reachable (run_db_ops ops db)"
proof -
  assume "db_reachable db"
  then obtain saved where "db_step\<^sup>*\<^sup>* (create_tables, create_tables) (db, saved)" by (auto simp: db_reachable_def)
  then have "db_step\<^sup>*\<^sup>* (create_tables, create_tables) (db, db)" using db_step.begin_trans by (rule rtranclp.rtrancl_into_rtrancl)
  then have "db_step\<^sup>*\<^sup>* (create_tables, create_tables) (fold run_db_op ops (db, db))"
  proof (induction ops rule: rev_induct)
    case (snoc op ops)
    then show ?case using run_db_op_step by (metis fold_append comp_apply fold.simps(1,2) id_apply rtranclp.rtrancl_into_rtrancl)
  qed simp
  then show ?thesis unfolding run_db_ops_def db_reachable_def by (metis prod.collapse)
qed

section \<open>The rows of a file\<close>

lemma blocks_distinct:
  assumes "length d < 2 ^ 64" "0 < blocksize opts"
  shows "distinct (map bc_loff (file_blocks X opts d))"
proof (cases "do_block_hash opts")
  case True
  let ?bs = "unat (blocksize opts)"
  let ?n = "length d div ?bs + (if length d mod ?bs = 0 then 0 else 1)"
  have bs: "0 < ?bs" using assms(2) by (simp add: unat_gt_0 word_gt_0)
  have lt: "i * ?bs < 2 ^ 64" if "i < ?n" for i
  proof -
    have "i \<le> length d div ?bs" using that by (simp split: if_splits)
    then have "i * ?bs \<le> length d" by (metis div_times_less_eq_dividend mult_le_mono1 order_trans)
    then show ?thesis using assms(1) by simp
  qed
  have "inj_on (\<lambda>i. (of_nat (i * ?bs) :: u64)) {0..<?n}"
  proof (rule inj_onI)
    fix i j assume ij: "i \<in> {0..<?n}" "j \<in> {0..<?n}" "(of_nat (i * ?bs) :: u64) = of_nat (j * ?bs)"
    then have "i * ?bs = j * ?bs" using lt [of i] lt [of j] unat_of_nat_u64 [of "i * ?bs"] unat_of_nat_u64 [of "j * ?bs"] by simp
    then show "i = j" using bs by simp
  qed
  then show ?thesis using True by (simp add: file_blocks_def blocks_upto_def block_at_def comp_def distinct_map)
qed (simp add: file_blocks_def)

lemma extents_distinct:
  assumes "map_fits fm n"
  shows "distinct (map ec_loff (file_extents X opts fm d))"
proof (cases "only_whole_files opts")
  case False
  have ok: "\<forall>e \<in> set (fm_extents fm). 0 < fe_length e \<and> ext_stop e < 2 ^ 64" "sorted_wrt (\<lambda>a b. ext_stop a \<le> ext_start b) (fm_extents fm)"
    using assms by (simp_all add: map_fits_def fiemap_ok_def)
  have "inj_on (\<lambda>i. fe_logical (fm_extents fm ! i)) {0..<length (fm_extents fm)}"
  proof (rule linorder_inj_onI')
    fix i j assume ij: "i \<in> {0..<length (fm_extents fm)}" "j \<in> {0..<length (fm_extents fm)}" "i < j"
    have "ext_stop (fm_extents fm ! i) \<le> ext_start (fm_extents fm ! j)" using ok(2) ij by (auto simp: sorted_wrt_iff_nth_less)
    moreover have "0 < unat (fe_length (fm_extents fm ! i))" using ok(1) ij by (simp add: unat_gt_0 word_gt_0)
    ultimately show "fe_logical (fm_extents fm ! i) \<noteq> fe_logical (fm_extents fm ! j)" by (auto simp: ext_stop_def ext_start_def)
  qed
  then show ?thesis using False by (simp add: file_extents_def stored_def comp_def distinct_map)
qed (simp add: file_extents_def)

text \<open>A file that can be hashed: its contents do not change, its map fits, and the buffer has room for a block.\<close>

definition hashable :: "'s scan_sys \<Rightarrow> scan_options \<Rightarrow> fiemap \<Rightarrow> u8 list \<Rightarrow> buffer \<Rightarrow> bool" where
  "hashable E opts fm d b \<longleftrightarrow> xxh3_ok (scan_xxh E) \<and> realloc_ok E \<and> pread_ok (pread E) d \<and> d \<noteq> [] \<and> length d < 2 ^ 64 \<and>
     \<not> skip_zeroes opts \<and> 0 < blocksize opts \<and> unat (blocksize opts) \<le> unat (buf_size b) \<and>
     length (buf b) = unat (buf_size b) \<and> unat (buf_size b) < 2 ^ 31 \<and> map_fits fm (length d) \<and> csum_room E \<and> map_room E"

text \<open>The hash file after a file with contents \<open>d\<close> was hashed.\<close>

definition hashed_db :: "'s scan_sys \<Rightarrow> scan_options \<Rightarrow> fiemap \<Rightarrow> u8 list \<Rightarrow> int \<Rightarrow> database \<Rightarrow> database" where
  "hashed_db E opts fm d fid db = db\<lparr>
     files := map (\<lambda>r. if f_id r = fid then r\<lparr>f_digest := Some (checksum_block (scan_xxh E) d), f_flags := Some 0\<rparr> else r) (files db),
     blocks := blocks db @ block_rows fid (file_blocks (scan_xxh E) opts d),
     extents := extents db @ extent_rows fid (file_extents (scan_xxh E) opts fm d)\<rparr>"

definition unhashed :: "int \<Rightarrow> database \<Rightarrow> bool" where
  "unhashed fid db \<longleftrightarrow> fid \<in> f_id ` set (files db) \<and> fid \<notin> br_fileid ` set (blocks db) \<and> fid \<notin> er_fileid ` set (extents db)"

lemma hash_file_ok:
  assumes h: "hashable E opts fm d b" and u: "unhashed fid db" and m: "map_reply (fiemap_count_extents count_reply) = (0, fm)"
  shows "\<exists>ops. csum_whole_file E opts (\<lambda>_. 0) count_reply map_reply True True fid (of_nat (length d)) b = Some ops \<and>
    run_db_ops ops db = hashed_db E opts fm d fid db"
proof -
  note hh = h [unfolded hashable_def]
  let ?bl = "file_blocks (scan_xxh E) opts d" and ?ex = "file_extents (scan_xxh E) opts fm d"
  let ?ops = "scan_db_op.dbfile_begin_trans # (if ?bl = [] then [] else [scan_db_op.dbfile_store_block_hashes fid ?bl]) @
     (if ?ex = [] then [] else [scan_db_op.dbfile_store_extent_hashes fid ?ex]) @
     [scan_db_op.dbfile_update_scanned_file fid (checksum_block (scan_xxh E) d) 0, scan_db_op.dbfile_commit_trans]"
  have "unat (of_nat (length d) :: u64) = length d" using hh by (intro unat_of_nat_u64) simp
  then have "csum_whole_file E opts (\<lambda>_. 0) count_reply map_reply True True fid (of_nat (length d)) b = Some ?ops"
    by (intro csum_whole_file_ok) (use hh m in auto)
  moreover have "run_db_ops ?ops db = hashed_db E opts fm d fid db"
  proof -
    define db1 where "db1 = db\<lparr>blocks := blocks db @ block_rows fid ?bl\<rparr>"
    define db2 where "db2 = db1\<lparr>extents := extents db1 @ extent_rows fid ?ex\<rparr>"
    have nb: "\<forall>x \<in> set (blocks db). br_fileid x \<noteq> fid" and ne: "\<forall>x \<in> set (extents db1). er_fileid x \<noteq> fid"
      using u unfolding unhashed_def db1_def by (simp_all, blast+)
    have fs: "fid \<in> f_id ` set (files db)" "fid \<in> f_id ` set (files db1)" using u by (simp_all add: unhashed_def db1_def)
    have d1: "dbfile_store_block_hashes (\<lambda>_. 0) fid ?bl db = (0, db1)" unfolding db1_def
      by (rule store_blocks_ok [OF fs(1)]) (use nb hh blocks_distinct in auto)
    have d2: "dbfile_store_extent_hashes (\<lambda>_. 0) fid ?ex db1 = (0, db2)" unfolding db2_def
      by (rule store_extents_ok [OF fs(2)]) (use ne extents_distinct [of fm "length d"] hh in auto)
    have e1: "?bl = [] \<Longrightarrow> db1 = db" by (simp add: db1_def block_rows_def)
    have e2: "?ex = [] \<Longrightarrow> db2 = db1" by (simp add: db2_def extent_rows_def)
    have "run_db_ops ?ops db = snd (dbfile_update_scanned_file 0 fid (checksum_block (scan_xxh E) d) 0 db2)"
      using e1 e2 d1 d2 by (cases "?bl = []"; cases "?ex = []") (simp_all add: run_db_ops_def)
    then show ?thesis by (simp add: dbfile_update_scanned_file_def hashed_db_def db1_def db2_def)
  qed
  ultimately show ?thesis by blast
qed

section \<open>Hashing, storing and loading\<close>

lemma hashed_files:
  "r \<in> set (files db) \<Longrightarrow> f_id r = fid \<Longrightarrow>
    r\<lparr>f_digest := Some (checksum_block (scan_xxh E) d), f_flags := Some 0\<rparr> \<in> set (files (hashed_db E opts fm d fid db))"
  "r \<in> set (files db) \<Longrightarrow> f_id r \<noteq> fid \<Longrightarrow> r \<in> set (files (hashed_db E opts fm d fid db))"
  by (force simp: hashed_db_def)+

lemma hashed_other: "unhashed k db \<Longrightarrow> k \<noteq> fid \<Longrightarrow> unhashed k (hashed_db E opts fm d fid db)"
proof -
  assume u: "unhashed k db" and k: "k \<noteq> fid"
  have "k \<notin> br_fileid ` set (block_rows fid hs)" "k \<notin> er_fileid ` set (extent_rows fid es)" for hs es
    using k by (auto simp: block_rows_def extent_rows_def)
  moreover have "map f_id (files (hashed_db E opts fm d fid db)) = map f_id (files db)" by (simp add: hashed_db_def comp_def)
  then have "f_id ` set (files (hashed_db E opts fm d fid db)) = f_id ` set (files db)" by (metis list.set_map)
  moreover have "blocks (hashed_db E opts fm d fid db) = blocks db @ block_rows fid (file_blocks (scan_xxh E) opts d)"
    "extents (hashed_db E opts fm d fid db) = extents db @ extent_rows fid (file_extents (scan_xxh E) opts fm d)" by (simp_all add: hashed_db_def)
  ultimately show ?thesis using u unfolding unhashed_def by (simp add: image_Un)
qed

lemma in_file_dups:
  assumes "r \<in> set (files db)" "r' \<in> set (files db)" "f_id r \<noteq> f_id r'" "f_digest r = Some dig" "f_digest r' = Some dig" "f_size r = f_size r'"
    and "f_flags r = Some 0" "f_flags r' = Some 0" "f_dedupe_seq r \<le> uint seq" "f_dedupe_seq r' = uint seq"
  shows "r \<in> file_dups seq db" "r' \<in> file_dups seq db"
  using assms by (auto simp: file_dups_def Let_def not_inlined_row_def intro!: bexI [of _ r] bexI [of _ r'])

lemma dup_files_length: "length (get_duplicate_files seq db) \<le> length (files db)"
  unfolding get_duplicate_files_def batch_dups_def Let_def by (rule length_filter_le)

lemma group_member:
  "filerec_find (f_id r) st \<noteq> None \<Longrightarrow> f_digest r = Some dig \<Longrightarrow>
    \<exists>f. filerec_find (f_id r) st = Some f \<and> ((column_int64 (f_size r), dig), (f, 0)) \<in> group_of_row st r"
  by (auto simp: group_of_row_def)

text \<open>
  C7. From files to a group: two files with the same contents that are in the hash file, one of them
  in the current batch, are hashed one after the other, whatever short reads there are. Both do not
  change meanwhile and are written to their end, without an inline or unwritten extent, zeroes are not
  skipped, and the calls, statements and allocations of the scan and of the load succeed. Then
  loading the batch puts both of them into the same group of the results tree, under the size and
  the digest of the contents.
\<close>

theorem same_contents_found:
  assumes "hashable E1 opts fm1 d b1" "hashable E2 opts fm2 d b2" "scan_xxh E2 = scan_xxh E1"
    and "replyA (fiemap_count_extents countA) = (0, fm1)" "replyB (fiemap_count_extents countB) = (0, fm2)"
    and "db_reachable db" "unhashed (f_id r1) db" "unhashed (f_id r2) db" "r1 \<in> set (files db)" "r2 \<in> set (files db)" "f_id r1 \<noteq> f_id r2"
    and "f_size r1 = f_size r2" "f_dedupe_seq r1 \<le> uint seq" "f_dedupe_seq r2 = uint seq"
    and "mem_ok mem" "filerecs_inv st" "length (files db) < 2 ^ 31"
  shows "\<exists>ops1 ops2 st' res' f1 f2.
    csum_whole_file E1 opts (\<lambda>_. 0) countA replyA True True (f_id r1) (of_nat (length d)) b1 = Some ops1 \<and>
    csum_whole_file E2 opts (\<lambda>_. 0) countB replyB True True (f_id r2) (of_nat (length d)) b2 = Some ops2 \<and>
    dbfile_load_same_files mem True 0 seq (run_db_ops ops2 (run_db_ops ops1 db)) st init_results_tree = Some (0, st', res') \<and>
    filerec_find (f_id r1) st' = Some f1 \<and> filerec_find (f_id r2) st' = Some f2 \<and>
    {(f1, 0), (f2, 0)} \<subseteq> res_extents res' `` {(column_int64 (f_size r1), checksum_block (scan_xxh E1) d)}"
proof -
  define dig where "dig = checksum_block (scan_xxh E1) d"
  define db1 where "db1 = hashed_db E1 opts fm1 d (f_id r1) db"
  define db2 where "db2 = hashed_db E2 opts fm2 d (f_id r2) db1"
  obtain ops1 where o1: "csum_whole_file E1 opts (\<lambda>_. 0) countA replyA True True (f_id r1) (of_nat (length d)) b1 = Some ops1" "run_db_ops ops1 db = db1"
    using hash_file_ok [OF assms(1,7), where map_reply = replyA and count_reply = countA, OF assms(4)] unfolding db1_def by blast
  have "unhashed (f_id r2) db1" unfolding db1_def by (rule hashed_other [OF assms(8)]) (use assms(11) in simp)
  from hash_file_ok [OF assms(2) this, where map_reply = replyB and count_reply = countB, OF assms(5)] obtain ops2 where
    o2: "csum_whole_file E2 opts (\<lambda>_. 0) countB replyB True True (f_id r2) (of_nat (length d)) b2 = Some ops2" "run_db_ops ops2 db1 = db2"
    unfolding db2_def by blast
  have reach: "db_reachable db2" using run_db_ops_reachable [OF run_db_ops_reachable [OF assms(6)]] o1(2) o2(2) by metis
  define q1 where "q1 = r1\<lparr>f_digest := Some dig, f_flags := Some 0\<rparr>"
  define q2 where "q2 = r2\<lparr>f_digest := Some dig, f_flags := Some 0\<rparr>"
  have "q1 \<in> set (files db1)" unfolding q1_def dig_def db1_def using hashed_files(1) [OF assms(9) refl] .
  then have m1: "q1 \<in> set (files db2)" unfolding db2_def by (rule hashed_files(2)) (use assms(11) in \<open>simp add: q1_def\<close>)
  have "r2 \<in> set (files db1)" unfolding db1_def by (rule hashed_files(2) [OF assms(10)]) (use assms(11) in simp)
  then have m2: "q2 \<in> set (files db2)" unfolding q2_def dig_def db2_def assms(3) [symmetric] by (rule hashed_files(1) [OF _ refl])
  note dups = in_file_dups [OF m1 m2, of dig seq, unfolded q1_def q2_def, simplified, OF assms(11-14), folded q1_def q2_def]
  have len: "length (get_duplicate_files seq db2) < 2 ^ 31"
    using dup_files_length [of seq db2] assms(17) by (simp add: db2_def db1_def hashed_db_def)
  obtain st' res' where l: "dbfile_load_same_files mem True 0 seq db2 st init_results_tree = Some (0, st', res')"
      "\<forall>r \<in> file_dups seq db2. filerec_find (f_id r) st' \<noteq> None" "res_extents res' = (\<Union>r \<in> file_dups seq db2. group_of_row st' r)"
    using load_same_files_ok [OF assms(15,16) db_reachable_ok(1) [OF reach] len] unfolding get_duplicate_files_spec [OF db_reachable_ok(1) [OF reach]] by blast
  obtain f1 where f1: "filerec_find (f_id q1) st' = Some f1" "((column_int64 (f_size q1), dig), (f1, 0)) \<in> group_of_row st' q1"
    using group_member [OF l(2) [rule_format, OF dups(1)], of dig] by (auto simp: q1_def)
  obtain f2 where f2: "filerec_find (f_id q2) st' = Some f2" "((column_int64 (f_size q2), dig), (f2, 0)) \<in> group_of_row st' q2"
    using group_member [OF l(2) [rule_format, OF dups(2)], of dig] by (auto simp: q2_def)
  have "{(f1, 0), (f2, 0)} \<subseteq> res_extents res' `` {(column_int64 (f_size r1), dig)}"
    using f1(2) f2(2) dups assms(12) unfolding l(3) by (auto simp: q1_def q2_def)
  then show ?thesis using o1 o2 l(1) f1(1) f2(1) unfolding dig_def by (auto simp: q1_def q2_def)
qed

lemma example_hashable: "hashable (FileScan.example_scan [1, 2, 3]) example_opts example_map [1, 2, 3] example_buffer"
proof -
  have "map_fits example_map (length [1, 2, 3 :: u8])" using example_map_fits by (simp add: numeral_3_eq_3)
  then show ?thesis unfolding hashable_def using example_xxh3_ok example_pread [of "[1, 2, 3]"]
    by (simp add: FileScan.example_scan_def example_opts_def example_buffer_def)
qed

theorem same_contents_found_witness:
  "\<exists>r1 r2 ops1 ops2 st' res' f1 f2. r1 \<in> set (files example_files) \<and> r2 \<in> set (files example_files) \<and> f_id r1 \<noteq> f_id r2 \<and>
    dbfile_load_same_files first_free True 0 1 (run_db_ops ops2 (run_db_ops ops1 example_files)) no_filerecs init_results_tree = Some (0, st', res') \<and>
    filerec_find (f_id r1) st' = Some f1 \<and> filerec_find (f_id r2) st' = Some f2 \<and>
    {(f1, 0), (f2, 0)} \<subseteq> res_extents res' `` {(3, checksum_block example_xxh3 [1, 2, 3])}"
proof -
  define r1 where "r1 = files example_files ! 0"
  define r2 where "r2 = files example_files ! 1"
  have mem: "r1 \<in> set (files example_files)" "r2 \<in> set (files example_files)" "length (files example_files) < 2 ^ 31"
    by (simp_all add: r1_def r2_def example_files_rows)
  have vals: "f_id r1 \<noteq> f_id r2" "f_size r1 = f_size r2" "f_dedupe_seq r1 \<le> uint (1 :: u32)" "f_dedupe_seq r2 = uint (1 :: u32)" "column_int64 (f_size r1) = 3"
    by (simp_all add: r1_def r2_def example_files_rows column_int64_def)
  have un: "unhashed (f_id r1) example_files" "unhashed (f_id r2) example_files" by (simp_all add: unhashed_def example_files_rows r1_def r2_def)
  have rep: "(\<lambda>n. (0, example_map)) (fiemap_count_extents (0, 1)) = (0, example_map)" by simp
  have x: "scan_xxh (FileScan.example_scan [1, 2, 3]) = example_xxh3" by (simp add: FileScan.example_scan_def)
  from same_contents_found [OF example_hashable example_hashable refl, where replyA = "\<lambda>n. (0, example_map)" and countA = "(0, 1)" and
      replyB = "\<lambda>n. (0, example_map)" and countB = "(0, 1)", OF rep rep example_files_reachable un mem(1,2) vals(1-4) first_free_ok no_filerecs_inv mem(3)]
  obtain ops1 ops2 st' res' f1 f2 where
    "dbfile_load_same_files first_free True 0 1 (run_db_ops ops2 (run_db_ops ops1 example_files)) no_filerecs init_results_tree = Some (0, st', res')"
    "filerec_find (f_id r1) st' = Some f1" "filerec_find (f_id r2) st' = Some f2"
    "{(f1, 0), (f2, 0)} \<subseteq> res_extents res' `` {(3, checksum_block example_xxh3 [1, 2, 3])}"
    unfolding x vals(5) by (elim exE conjE) (rule that)
  with mem(1,2) vals(1) show ?thesis by (intro exI conjI)
qed

end
