(* ===== verification/Options.thy ===== *)
theory Options
  imports ScanFiles
begin

text \<open>
  The command line, \<open>duperemove.c\<close> and \<open>opt.c\<close>: \<open>parse_dedupe_opts\<close> and \<open>parse_options\<close>.

  \<open>getopt_long\<close> is the C library's: the model starts from the options it returns, in their order, each
  with its argument, and from the arguments that are left. \<open>argc\<close> is the number of words on the command
  line, \<open>optind\<close> the index of the first argument that is left. \<open>man\<close> is the status of the manual page
  that replaces the process, or \<open>None\<close> when \<open>execlp\<close> fails and returns. A call of \<open>exit\<close> is \<open>Inl\<close> of its status.
  What the program keeps in global variables is the record \<open>prog\<close>. Messages are left out.
\<close>

section \<open>Model\<close>

record options =
  opt_run_dedupe :: int
  opt_recurse_dirs :: bool
  opt_io_threads :: u32
  opt_cpu_threads :: u32
  opt_skip_zeroes :: bool
  opt_only_whole_files :: bool
  opt_do_block_hash :: bool
  opt_dedupe_same_file :: bool
  opt_batch_size :: u32
  opt_fdupes_mode :: bool
  opt_hashfile :: "string option"

definition default_options :: options where
  "default_options = \<lparr>opt_run_dedupe = 0, opt_recurse_dirs = False, opt_io_threads = 0, opt_cpu_threads = 0, opt_skip_zeroes = False,
     opt_only_whole_files = False, opt_do_block_hash = False, opt_dedupe_same_file = True, opt_batch_size = 1024,
     opt_fdupes_mode = False, opt_hashfile = None\<rparr>"

datatype hashfile_mode = H_READ | H_WRITE | H_UPDATE

record prog =
  pg_options :: options
  pg_blocksize :: u32
  pg_debug :: bool
  pg_verbose :: bool
  pg_quiet :: bool
  pg_human_readable :: bool
  pg_stdin_filelist :: bool
  pg_list_only :: bool
  pg_rm_only :: bool
  pg_use_hashfile :: hashfile_mode
  pg_exclude :: "string list"

definition MIN_BLOCKSIZE :: u32 where "MIN_BLOCKSIZE = 4 * 1024"
definition MAX_BLOCKSIZE :: u32 where "MAX_BLOCKSIZE = 1024 * 1024"
definition DEFAULT_BLOCKSIZE :: u32 where "DEFAULT_BLOCKSIZE = 128 * 1024"

text \<open>The start of the program, with the numbers of threads \<open>get_num_cpus\<close> found.\<close>

definition initial_prog :: "u32 \<Rightarrow> u32 \<Rightarrow> prog" where
  "initial_prog cpu io = \<lparr>pg_options = default_options\<lparr>opt_cpu_threads := cpu, opt_io_threads := io\<rparr>, pg_blocksize = DEFAULT_BLOCKSIZE,
     pg_debug = False, pg_verbose = False, pg_quiet = False, pg_human_readable = False, pg_stdin_filelist = False,
     pg_list_only = False, pg_rm_only = False, pg_use_hashfile = H_UPDATE, pg_exclude = []\<rparr>"

subsection \<open>Options of the dedupe\<close>

text \<open>One token: \<open>strstr(token, "no")\<close> is at the token itself exactly when it starts so.\<close>

definition set_dedupe_opt :: "string \<Rightarrow> options \<Rightarrow> options option" where
  "set_dedupe_opt token opt =
     (let invert = take 2 token = ''no''; token = (if invert then drop 2 token else token) in
      if token = ''same'' then Some (opt\<lparr>opt_dedupe_same_file := \<not> invert\<rparr>)
      else if token = ''partial'' then Some (opt\<lparr>opt_do_block_hash := \<not> invert\<rparr>)
      else if token = ''only_whole_files'' then Some (opt\<lparr>opt_only_whole_files := \<not> invert\<rparr>)
      else None)"

lemma after_comma_shorter: "dropWhile P opts = c # rest \<Longrightarrow> length rest < length opts"
  using length_dropWhile_le [of P opts] by simp

function parse_dedupe_opts :: "string \<Rightarrow> options \<Rightarrow> int \<times> options" where
  "parse_dedupe_opts opts opt =
     (if opts = [] then (0, opt)
      else case set_dedupe_opt (takeWhile (\<lambda>c. c \<noteq> CHR '','') opts) opt of
        None \<Rightarrow> (EINVAL, opt)
      | Some opt \<Rightarrow> (case dropWhile (\<lambda>c. c \<noteq> CHR '','') opts of
            [] \<Rightarrow> (0, opt)
          | _ # next \<Rightarrow> parse_dedupe_opts next opt))"
  by pat_completeness auto
termination
  by (relation "measure (\<lambda>(opts, _). length opts)") (auto dest: after_comma_shorter)

declare parse_dedupe_opts.simps [simp del]

subsection \<open>The command line\<close>

datatype getopt =
    Opt_b string | Opt_d | Opt_D | Opt_r | VERSION_OPTION | DEBUG_OPTION | Opt_v | Opt_h
  | WRITE_HASHES_OPTION string | READ_HASHES_OPTION string | HASHFILE_OPTION string
  | IO_THREADS_OPTION string | CPU_THREADS_OPTION string | SKIP_ZEROES_OPTION | FDUPES_OPTION
  | DEDUPE_OPTS_OPTION string | Opt_L | Opt_R | QUIET_OPTION | Opt_q | EXCLUDE_OPTION string
  | BATCH_SIZE_OPTION string | Opt_B string | HELP_OPTION | Opt_unknown

text \<open>Which of the three options for a hash file were given.\<close>

record hash_flags =
  write_hashes :: bool
  read_hashes :: bool
  update_hashes :: bool

text \<open>\<open>strtoul\<close> with base 10: leading white space, a sign that negates the result, saturation.\<close>

definition isspace :: "char \<Rightarrow> bool" where
  "isspace c \<longleftrightarrow> of_char c \<in> {32 :: nat, 9, 10, 11, 12, 13}"

definition strtoul :: "string \<Rightarrow> u64" where
  "strtoul s = (case dropWhile isspace s of
       CHR ''-'' # t \<Rightarrow> if decimal t \<le> ULLONG_MAX then - of_nat (decimal t) else of_nat ULLONG_MAX
     | CHR ''+'' # t \<Rightarrow> strtoull t
     | t \<Rightarrow> strtoull t)"

text \<open>
  One turn of the loop. \<open>Inl\<close> is an \<open>exit\<close>, \<open>Inr (Some ret, _)\<close> a \<open>return\<close>. \<open>room\<close> tells whether the
  record of a pattern can be allocated; a pattern that cannot be added is only reported.
\<close>

fun parse_option ::
    "int option \<Rightarrow> (string \<Rightarrow> bool) \<Rightarrow> string \<Rightarrow> getopt \<Rightarrow> prog \<times> hash_flags \<Rightarrow> int + int option \<times> prog \<times> hash_flags" where
  "parse_option man room cwd (Opt_b optarg) (p, fl) = (case parse_size (Some optarg) of
          Inl status \<Rightarrow> Inl status
        | Inr sz \<Rightarrow>
            let p = p\<lparr>pg_blocksize := ucast sz\<rparr> in
            if pg_blocksize p < MIN_BLOCKSIZE \<or> pg_blocksize p > MAX_BLOCKSIZE then Inr (Some EINVAL, p, fl) else Inr (None, p, fl))"
| "parse_option man room cwd Opt_d (p, fl) = Inr (None, p\<lparr>pg_options := (pg_options p)\<lparr>opt_run_dedupe := opt_run_dedupe (pg_options p) + 1\<rparr>\<rparr>, fl)"
| "parse_option man room cwd Opt_D (p, fl) = Inr (None, p\<lparr>pg_options := (pg_options p)\<lparr>opt_run_dedupe := opt_run_dedupe (pg_options p) + 1\<rparr>\<rparr>, fl)"
| "parse_option man room cwd Opt_r (p, fl) = Inr (None, p\<lparr>pg_options := (pg_options p)\<lparr>opt_recurse_dirs := True\<rparr>\<rparr>, fl)"
| "parse_option man room cwd VERSION_OPTION (p, fl) = Inl 0"
| "parse_option man room cwd DEBUG_OPTION (p, fl) = Inr (None, p\<lparr>pg_debug := True, pg_verbose := True\<rparr>, fl)"
| "parse_option man room cwd Opt_v (p, fl) = Inr (None, p\<lparr>pg_verbose := True\<rparr>, fl)"
| "parse_option man room cwd Opt_h (p, fl) = Inr (None, p\<lparr>pg_human_readable := True\<rparr>, fl)"
| "parse_option man room cwd (WRITE_HASHES_OPTION optarg) (p, fl) = Inr (None, p\<lparr>pg_options := (pg_options p)\<lparr>opt_hashfile := Some optarg\<rparr>\<rparr>, fl\<lparr>write_hashes := True\<rparr>)"
| "parse_option man room cwd (READ_HASHES_OPTION optarg) (p, fl) = Inr (None, p\<lparr>pg_options := (pg_options p)\<lparr>opt_hashfile := Some optarg\<rparr>\<rparr>, fl\<lparr>read_hashes := True\<rparr>)"
| "parse_option man room cwd (HASHFILE_OPTION optarg) (p, fl) = Inr (None, p\<lparr>pg_options := (pg_options p)\<lparr>opt_hashfile := Some optarg\<rparr>\<rparr>, fl\<lparr>update_hashes := True\<rparr>)"
| "parse_option man room cwd (IO_THREADS_OPTION optarg) (p, fl) = (let p = p\<lparr>pg_options := (pg_options p)\<lparr>opt_io_threads := ucast (strtoul optarg)\<rparr>\<rparr> in
          if opt_io_threads (pg_options p) = 0 then Inr (Some EINVAL, p, fl) else Inr (None, p, fl))"
| "parse_option man room cwd (CPU_THREADS_OPTION optarg) (p, fl) = (let p = p\<lparr>pg_options := (pg_options p)\<lparr>opt_cpu_threads := ucast (strtoul optarg)\<rparr>\<rparr> in
          if opt_cpu_threads (pg_options p) = 0 then Inr (Some EINVAL, p, fl) else Inr (None, p, fl))"
| "parse_option man room cwd SKIP_ZEROES_OPTION (p, fl) = Inr (None, p\<lparr>pg_options := (pg_options p)\<lparr>opt_skip_zeroes := True\<rparr>\<rparr>, fl)"
| "parse_option man room cwd FDUPES_OPTION (p, fl) = Inr (None, p\<lparr>pg_options := (pg_options p)\<lparr>opt_fdupes_mode := True\<rparr>\<rparr>, fl)"
| "parse_option man room cwd (DEDUPE_OPTS_OPTION optarg) (p, fl) = (let (ret, opt) = parse_dedupe_opts optarg (pg_options p); p = p\<lparr>pg_options := opt\<rparr> in
          if ret \<noteq> 0 then Inr (Some EINVAL, p, fl) else Inr (None, p, fl))"
| "parse_option man room cwd Opt_L (p, fl) = Inr (None, p\<lparr>pg_list_only := True\<rparr>, fl)"
| "parse_option man room cwd Opt_R (p, fl) = Inr (None, p\<lparr>pg_rm_only := True\<rparr>, fl)"
| "parse_option man room cwd QUIET_OPTION (p, fl) = Inr (None, p\<lparr>pg_quiet := True\<rparr>, fl)"
| "parse_option man room cwd Opt_q (p, fl) = Inr (None, p\<lparr>pg_quiet := True\<rparr>, fl)"
| "parse_option man room cwd (EXCLUDE_OPTION optarg) (p, fl) = Inr (None, p\<lparr>pg_exclude := snd (add_exclude_pattern (room optarg) cwd optarg (pg_exclude p))\<rparr>, fl)"
| "parse_option man room cwd (BATCH_SIZE_OPTION optarg) (p, fl) = (case parse_size (Some optarg) of
          Inl status \<Rightarrow> Inl status
        | Inr sz \<Rightarrow> Inr (None, p\<lparr>pg_options := (pg_options p)\<lparr>opt_batch_size := ucast sz\<rparr>\<rparr>, fl))"
| "parse_option man room cwd (Opt_B optarg) (p, fl) = (case parse_size (Some optarg) of
          Inl status \<Rightarrow> Inl status
        | Inr sz \<Rightarrow> Inr (None, p\<lparr>pg_options := (pg_options p)\<lparr>opt_batch_size := ucast sz\<rparr>\<rparr>, fl))"
| "parse_option man room cwd HELP_OPTION (p, fl) = (case man of Some status \<Rightarrow> Inl status | None \<Rightarrow> Inr (None, p, fl))"
| "parse_option man room cwd Opt_unknown (p, fl) = Inr (Some 1, p, fl)"

fun parse_loop ::
    "int option \<Rightarrow> (string \<Rightarrow> bool) \<Rightarrow> string \<Rightarrow> getopt list \<Rightarrow> prog \<times> hash_flags \<Rightarrow> int + int option \<times> prog \<times> hash_flags" where
  "parse_loop man room cwd [] s = Inr (None, s)"
| "parse_loop man room cwd (c # cs) s = (case parse_option man room cwd c s of
       Inl status \<Rightarrow> Inl status
     | Inr (Some ret, s) \<Rightarrow> Inr (Some ret, s)
     | Inr (None, s) \<Rightarrow> parse_loop man room cwd cs s)"

text \<open>The patterns for the hash file and what \<open>sqlite\<close> keeps beside it; \<open>snprintf\<close> cuts them at \<open>PATH_MAX + 8\<close>.\<close>

definition exclude_hashfile :: "(string \<Rightarrow> bool) \<Rightarrow> string \<Rightarrow> prog \<Rightarrow> prog" where
  "exclude_hashfile room cwd p = (case opt_hashfile (pg_options p) of
       None \<Rightarrow> p
     | Some hashfile \<Rightarrow> p\<lparr>pg_exclude := fold (\<lambda>pattern head. snd (add_exclude_pattern (room pattern) cwd pattern head))
         [hashfile, take 4104 (hashfile @ ''-wal''), take 4104 (hashfile @ ''-shm'')] (pg_exclude p)\<rparr>)"

text \<open>The checks after the loop; the result is the code to return.\<close>

definition check_options :: "string list \<Rightarrow> hash_flags \<Rightarrow> prog \<Rightarrow> int \<times> bool \<times> prog" where
  "check_options names fl p =
     (if read_hashes fl then (if names \<noteq> [] then (1, False, p) else (0, False, p))
      else if opt_fdupes_mode (pg_options p) then
        (if read_hashes fl \<or> write_hashes fl \<or> update_hashes fl then (1, False, p) else if names \<noteq> [] then (1, False, p) else (0, False, p))
      else
        let p = (if names = [''-''] then p\<lparr>pg_stdin_filelist := True\<rparr> else p) in
        if pg_list_only p \<and> pg_rm_only p then (1, True, p)
        else if (pg_list_only p \<or> pg_rm_only p) \<and> (opt_hashfile (pg_options p) = None \<or> pg_use_hashfile p = H_WRITE) then (1, True, p)
        else if (pg_list_only p \<or> pg_rm_only p) \<and> pg_list_only p \<and> names \<noteq> [] then (1, True, p)
        else if \<not> (opt_fdupes_mode (pg_options p) \<or> pg_list_only p) \<and> names = [] then (1, True, p)
        else (0, True, p))"

definition parse_options ::
    "int option \<Rightarrow> (string \<Rightarrow> bool) \<Rightarrow> string \<Rightarrow> nat \<Rightarrow> getopt list \<Rightarrow> nat \<Rightarrow> string list \<Rightarrow> prog \<Rightarrow> int + int \<times> nat \<times> prog" where
  "parse_options man room cwd argc cs optind names p =
     (case (if argc < 2 then man else None) of
       Some status \<Rightarrow> Inl status
     | None \<Rightarrow> (case parse_loop man room cwd cs (p, \<lparr>write_hashes = False, read_hashes = False, update_hashes = False\<rparr>) of
         Inl status \<Rightarrow> Inl status
       | Inr (Some ret, p, fl) \<Rightarrow> Inr (ret, 0, p)
       | Inr (None, p, fl) \<Rightarrow>
           if opt_only_whole_files (pg_options p) \<and> opt_do_block_hash (pg_options p) then Inr (1, 0, p)
           else if of_bool (write_hashes fl) + of_bool (read_hashes fl) + of_bool (update_hashes fl) > (1 :: nat) then Inr (1, 0, p)
           else
             let p = (if read_hashes fl then p\<lparr>pg_use_hashfile := H_READ\<rparr>
                      else if write_hashes fl then p\<lparr>pg_use_hashfile := H_WRITE\<rparr>
                      else if update_hashes fl then p\<lparr>pg_use_hashfile := H_UPDATE\<rparr> else p);
                 p = exclude_hashfile room cwd p;
                 (ret, indexed, p) = check_options names fl p in
             Inr (ret, if indexed then optind else 0, p)))"

section \<open>What the options promise\<close>

lemma set_dedupe_opt_keeps:
  assumes "set_dedupe_opt token opt = Some opt'"
  shows "opt_io_threads opt' = opt_io_threads opt" "opt_cpu_threads opt' = opt_cpu_threads opt" "opt_hashfile opt' = opt_hashfile opt"
    "opt_fdupes_mode opt' = opt_fdupes_mode opt" "opt_run_dedupe opt' = opt_run_dedupe opt"
  using assms by (auto simp: set_dedupe_opt_def Let_def split: if_splits)

lemma parse_dedupe_opts_step:
  "opts \<noteq> [] \<Longrightarrow> parse_dedupe_opts opts opt =
    (case set_dedupe_opt (takeWhile (\<lambda>c. c \<noteq> CHR '','') opts) opt of
       None \<Rightarrow> (EINVAL, opt)
     | Some opt \<Rightarrow> (case dropWhile (\<lambda>c. c \<noteq> CHR '','') opts of [] \<Rightarrow> (0, opt) | _ # next \<Rightarrow> parse_dedupe_opts next opt))"
  by (simp add: parse_dedupe_opts.simps [of opts])

lemma parse_dedupe_opts_Nil [simp]: "parse_dedupe_opts [] opt = (0, opt)"
  by (simp add: parse_dedupe_opts.simps)

lemma parse_dedupe_opts_keeps:
  "parse_dedupe_opts opts opt = (ret, opt') \<Longrightarrow> opt_io_threads opt' = opt_io_threads opt \<and> opt_cpu_threads opt' = opt_cpu_threads opt \<and>
    opt_hashfile opt' = opt_hashfile opt \<and> opt_fdupes_mode opt' = opt_fdupes_mode opt"
proof (induction opts opt rule: parse_dedupe_opts.induct)
  case (1 opts opt)
  show ?case
  proof (cases "opts = []")
    case False
    note step = parse_dedupe_opts_step [OF False]
    show ?thesis
    proof (cases "set_dedupe_opt (takeWhile (\<lambda>c. c \<noteq> CHR '','') opts) opt")
      case None
      then show ?thesis using "1.prems" step by simp
    next
      case (Some opt1)
      note keeps = set_dedupe_opt_keeps [OF Some]
      show ?thesis
      proof (cases "dropWhile (\<lambda>c. c \<noteq> CHR '','') opts")
        case Nil
        then show ?thesis using "1.prems" step Nil Some keeps by simp
      next
        case (Cons c rest)
        then show ?thesis using "1.IH" [OF False Some Cons] "1.prems" step Cons Some keeps by simp
      qed
    qed
  qed (use "1.prems" in simp)
qed

text \<open>What the loop keeps.\<close>

definition opts_inv :: "prog \<Rightarrow> hash_flags \<Rightarrow> bool" where
  "opts_inv p fl \<longleftrightarrow> MIN_BLOCKSIZE \<le> pg_blocksize p \<and> pg_blocksize p \<le> MAX_BLOCKSIZE \<and>
     opt_io_threads (pg_options p) \<noteq> 0 \<and> opt_cpu_threads (pg_options p) \<noteq> 0 \<and>
     (opt_hashfile (pg_options p) = None \<longleftrightarrow> \<not> write_hashes fl \<and> \<not> read_hashes fl \<and> \<not> update_hashes fl) \<and>
     pg_use_hashfile p = H_UPDATE \<and> \<not> pg_stdin_filelist p"

definition seen :: "getopt list \<Rightarrow> hash_flags \<Rightarrow> hash_flags \<Rightarrow> bool" where
  "seen cs fl fl' \<longleftrightarrow>
     (write_hashes fl' \<longleftrightarrow> write_hashes fl \<or> (\<exists>f. WRITE_HASHES_OPTION f \<in> set cs)) \<and>
     (read_hashes fl' \<longleftrightarrow> read_hashes fl \<or> (\<exists>f. READ_HASHES_OPTION f \<in> set cs)) \<and>
     (update_hashes fl' \<longleftrightarrow> update_hashes fl \<or> (\<exists>f. HASHFILE_OPTION f \<in> set cs))"

lemma parse_option_inv:
  assumes "parse_option man room cwd c (p, fl) = Inr (None, p', fl')" "opts_inv p fl"
  shows "opts_inv p' fl' \<and> seen [c] fl fl'"
proof (cases c)
  case (DEDUPE_OPTS_OPTION optarg)
  obtain ret opt where o: "parse_dedupe_opts optarg (pg_options p) = (ret, opt)" by fastforce
  then show ?thesis using assms parse_dedupe_opts_keeps [OF o] DEDUPE_OPTS_OPTION
    by (auto simp: opts_inv_def seen_def Let_def split: if_splits)
next
  case (Opt_b optarg)
  then show ?thesis using assms by (auto simp: opts_inv_def seen_def Let_def not_less split: if_splits sum.splits)
next
  case (BATCH_SIZE_OPTION optarg)
  then show ?thesis using assms by (auto simp: opts_inv_def seen_def split: sum.splits)
next
  case (Opt_B optarg)
  then show ?thesis using assms by (auto simp: opts_inv_def seen_def split: sum.splits)
qed (use assms in \<open>simp add: Let_def split: if_splits option.splits; clarsimp simp: opts_inv_def seen_def\<close>)+

lemma parse_loop_inv:
  "parse_loop man room cwd cs (p, fl) = Inr (None, p', fl') \<Longrightarrow> opts_inv p fl \<Longrightarrow> opts_inv p' fl' \<and> seen cs fl fl'"
proof (induction cs arbitrary: p fl)
  case (Cons c cs)
  then obtain p1 fl1 where 1: "parse_option man room cwd c (p, fl) = Inr (None, p1, fl1)" "parse_loop man room cwd cs (p1, fl1) = Inr (None, p', fl')"
    by (auto split: sum.splits option.splits)
  with Cons.IH parse_option_inv [OF 1(1) Cons.prems(2)] show ?case by (auto simp: seen_def)
qed (simp add: seen_def)

lemma parse_option_error: "parse_option man room cwd c (p, fl) = Inr (Some ret, s') \<Longrightarrow> ret \<in> {1, EINVAL}"
  by (cases c) (simp add: Let_def split: if_splits option.splits sum.splits prod.splits; clarsimp)+

lemma parse_loop_error: "parse_loop man room cwd cs s = Inr (Some ret, s') \<Longrightarrow> ret \<noteq> 0"
proof (induction cs arbitrary: s)
  case (Cons c cs)
  then show ?case using parse_option_error [of man room cwd c "fst s" "snd s" ret] by (auto split: sum.splits option.splits)
qed simp

lemma initial_inv: "cpu \<noteq> 0 \<Longrightarrow> io \<noteq> 0 \<Longrightarrow> opts_inv (initial_prog cpu io) \<lparr>write_hashes = False, read_hashes = False, update_hashes = False\<rparr>"
  by (simp add: opts_inv_def initial_prog_def default_options_def DEFAULT_BLOCKSIZE_def MIN_BLOCKSIZE_def MAX_BLOCKSIZE_def)

lemma exclude_hashfile_keeps [simp]:
  "pg_options (exclude_hashfile room cwd p) = pg_options p" "pg_blocksize (exclude_hashfile room cwd p) = pg_blocksize p"
  "pg_use_hashfile (exclude_hashfile room cwd p) = pg_use_hashfile p" "pg_list_only (exclude_hashfile room cwd p) = pg_list_only p"
  "pg_rm_only (exclude_hashfile room cwd p) = pg_rm_only p" "pg_stdin_filelist (exclude_hashfile room cwd p) = pg_stdin_filelist p"
  by (simp_all add: exclude_hashfile_def split: option.split)

lemma add_exclude_mono: "set head \<subseteq> set (snd (add_exclude_pattern room cwd pattern head))"
  by (auto simp: add_exclude_pattern_def)

lemma hashfile_excluded:
  assumes "opt_hashfile (pg_options p) = Some (CHR ''/'' # h)" "room (CHR ''/'' # h)"
  shows "CHR ''/'' # h \<in> set (pg_exclude (exclude_hashfile room cwd p))"
proof -
  have "CHR ''/'' # h \<in> set (snd (add_exclude_pattern (room (CHR ''/'' # h)) cwd (CHR ''/'' # h) (pg_exclude p)))"
    using assms(2) by (simp add: add_exclude_pattern_def)
  then show ?thesis using assms(1) add_exclude_mono by (simp add: exclude_hashfile_def) blast
qed

text \<open>The checks after the loop do not touch the options.\<close>

lemma check_options_ok:
  assumes "check_options names fl p = (0, indexed, p')"
  shows "pg_options p' = pg_options p" "pg_blocksize p' = pg_blocksize p" "pg_use_hashfile p' = pg_use_hashfile p" "pg_exclude p' = pg_exclude p"
    "read_hashes fl \<Longrightarrow> names = [] \<and> \<not> indexed"
    "\<not> read_hashes fl \<Longrightarrow> opt_fdupes_mode (pg_options p) \<Longrightarrow> names = [] \<and> \<not> write_hashes fl \<and> \<not> update_hashes fl"
    "\<not> read_hashes fl \<Longrightarrow> \<not> opt_fdupes_mode (pg_options p) \<Longrightarrow> indexed \<and> \<not> (pg_list_only p' \<and> pg_rm_only p') \<and>
       (pg_list_only p' \<or> pg_rm_only p' \<longrightarrow> opt_hashfile (pg_options p) \<noteq> None \<and> pg_use_hashfile p \<noteq> H_WRITE) \<and>
       (names = [] \<longleftrightarrow> pg_list_only p') \<and> (names = [''-''] \<longrightarrow> pg_stdin_filelist p')"
  using assms by (auto simp: check_options_def Let_def split: if_splits)

text \<open>What the rest of the program takes for granted of the options.\<close>

definition options_ok :: "getopt list \<Rightarrow> nat \<Rightarrow> string list \<Rightarrow> nat \<Rightarrow> prog \<Rightarrow> bool" where
  "options_ok cs optind names idx p \<longleftrightarrow>
     4096 \<le> unat (pg_blocksize p) \<and> unat (pg_blocksize p) \<le> 1048576 \<and>
     opt_io_threads (pg_options p) \<noteq> 0 \<and> opt_cpu_threads (pg_options p) \<noteq> 0 \<and>
     \<not> (opt_only_whole_files (pg_options p) \<and> opt_do_block_hash (pg_options p)) \<and>
     ((\<exists>f. READ_HASHES_OPTION f \<in> set cs) \<longrightarrow> \<not> (\<exists>f. WRITE_HASHES_OPTION f \<in> set cs) \<and> \<not> (\<exists>f. HASHFILE_OPTION f \<in> set cs)) \<and>
     ((\<exists>f. WRITE_HASHES_OPTION f \<in> set cs) \<longrightarrow> \<not> (\<exists>f. HASHFILE_OPTION f \<in> set cs)) \<and>
     (pg_use_hashfile p = H_READ \<longleftrightarrow> (\<exists>f. READ_HASHES_OPTION f \<in> set cs)) \<and>
     (pg_use_hashfile p = H_WRITE \<longleftrightarrow> (\<exists>f. WRITE_HASHES_OPTION f \<in> set cs)) \<and>
     (opt_hashfile (pg_options p) \<noteq> None \<and> pg_use_hashfile p = H_UPDATE \<longleftrightarrow> (\<exists>f. HASHFILE_OPTION f \<in> set cs)) \<and>
     (opt_hashfile (pg_options p) = None \<longrightarrow> pg_use_hashfile p = H_UPDATE) \<and>
     (pg_use_hashfile p = H_READ \<longrightarrow> names = []) \<and>
     (pg_use_hashfile p \<noteq> H_READ \<and> opt_fdupes_mode (pg_options p) \<longrightarrow> names = [] \<and> opt_hashfile (pg_options p) = None) \<and>
     (pg_use_hashfile p \<noteq> H_READ \<and> \<not> opt_fdupes_mode (pg_options p) \<longrightarrow>
        idx = optind \<and> \<not> (pg_list_only p \<and> pg_rm_only p) \<and> (names = [] \<longleftrightarrow> pg_list_only p) \<and> (names = [''-''] \<longrightarrow> pg_stdin_filelist p) \<and>
        (pg_list_only p \<or> pg_rm_only p \<longrightarrow> opt_hashfile (pg_options p) \<noteq> None \<and> pg_use_hashfile p = H_UPDATE))"

lemma blocksize_bounds: "MIN_BLOCKSIZE \<le> b \<Longrightarrow> b \<le> MAX_BLOCKSIZE \<Longrightarrow> 4096 \<le> unat b \<and> unat b \<le> 1048576"
  by (simp add: MIN_BLOCKSIZE_def MAX_BLOCKSIZE_def word_le_nat_alt)

text \<open>
  C15. A command line that is accepted leaves options that fit together: the block size is between 4 KiB
  and 1 MiB, no number of threads is 0, block hashing is not combined with whole files only, at most one of
  the three options for a hash file was given and the way it is used is that option's, and outside
  of the mode that only reads a hash file, files are named exactly when they are needed and the modes
  exclude each other. A hash file with an absolute path is on the list of patterns to exclude,
  when there is memory for the pattern.
\<close>

theorem parse_options_correct:
  assumes "parse_options man room cwd argc cs optind names (initial_prog cpu io) = Inr (0, idx, p)" "cpu \<noteq> 0" "io \<noteq> 0"
  shows "options_ok cs optind names idx p \<and>
    (\<forall>h. opt_hashfile (pg_options p) = Some (CHR ''/'' # h) \<and> room (CHR ''/'' # h) \<longrightarrow> CHR ''/'' # h \<in> set (pg_exclude p))"
proof -
  let ?fl0 = "\<lparr>write_hashes = False, read_hashes = False, update_hashes = False\<rparr>"
  obtain p1 fl where l: "parse_loop man room cwd cs (initial_prog cpu io, ?fl0) = Inr (None, p1, fl)"
    using assms(1) by (auto simp: parse_options_def split: option.splits sum.splits dest: parse_loop_error)
  have inv: "opts_inv p1 fl" "seen cs ?fl0 fl" using parse_loop_inv [OF l initial_inv [OF assms(2,3)]] by auto
  define p2 where "p2 = (if read_hashes fl then p1\<lparr>pg_use_hashfile := H_READ\<rparr> else if write_hashes fl then p1\<lparr>pg_use_hashfile := H_WRITE\<rparr>
    else if update_hashes fl then p1\<lparr>pg_use_hashfile := H_UPDATE\<rparr> else p1)"
  obtain ret indexed p3 where c: "check_options names fl (exclude_hashfile room cwd p2) = (ret, indexed, p3)" by (metis prod_cases3)
  have g: "\<not> (opt_only_whole_files (pg_options p1) \<and> opt_do_block_hash (pg_options p1))"
      "of_bool (write_hashes fl) + of_bool (read_hashes fl) + of_bool (update_hashes fl) \<le> (1 :: nat)"
      "ret = 0" "idx = (if indexed then optind else 0)" "p = p3"
    using assms(1) l c by (auto simp: parse_options_def p2_def [symmetric] split: option.splits if_splits)
  note co = check_options_ok [OF c [unfolded g(3)], folded g(5)]
  have o2: "pg_options p2 = pg_options p1" "pg_blocksize p2 = pg_blocksize p1" by (simp_all add: p2_def)
  have u2: "pg_use_hashfile p2 = (if read_hashes fl then H_READ else if write_hashes fl then H_WRITE else H_UPDATE)"
    using inv(1) by (simp add: p2_def opts_inv_def)
  have po: "pg_options p = pg_options p1" "pg_blocksize p = pg_blocksize p1" using co(1,2) o2 by simp_all
  have pu: "pg_use_hashfile p = (if read_hashes fl then H_READ else if write_hashes fl then H_WRITE else H_UPDATE)"
    using co(3) u2 by simp
  have fl: "write_hashes fl \<longleftrightarrow> (\<exists>f. WRITE_HASHES_OPTION f \<in> set cs)" "read_hashes fl \<longleftrightarrow> (\<exists>f. READ_HASHES_OPTION f \<in> set cs)"
      "update_hashes fl \<longleftrightarrow> (\<exists>f. HASHFILE_OPTION f \<in> set cs)"
    using inv(2) by (simp_all add: seen_def)
  have hf: "opt_hashfile (pg_options p1) = None \<longleftrightarrow> \<not> write_hashes fl \<and> \<not> read_hashes fl \<and> \<not> update_hashes fl"
    and th: "opt_io_threads (pg_options p1) \<noteq> 0" "opt_cpu_threads (pg_options p1) \<noteq> 0"
    and bs: "4096 \<le> unat (pg_blocksize p1) \<and> unat (pg_blocksize p1) \<le> 1048576"
    using inv(1) blocksize_bounds by (simp_all add: opts_inv_def)
  have rw: "\<not> (read_hashes fl \<and> write_hashes fl)" "\<not> (read_hashes fl \<and> update_hashes fl)" "\<not> (write_hashes fl \<and> update_hashes fl)"
    using g(2) by (auto split: if_splits)
  have "options_ok cs optind names idx p"
  proof (cases "read_hashes fl")
    case True
    then show ?thesis unfolding options_ok_def po pu fl [symmetric] using co(5) th bs g(1) rw hf by simp
  next
    case False
    show ?thesis
    proof (cases "opt_fdupes_mode (pg_options p1)")
      case True
      then show ?thesis unfolding options_ok_def po pu fl [symmetric]
        using co(6) [OF False] th bs g(1) rw False hf o2(1) by (simp split: if_splits)
    next
      case nf: False
      then show ?thesis unfolding options_ok_def po pu fl [symmetric]
        using co(7) [OF False] th bs g(1,4) rw False hf o2(1) u2 by (simp split: if_splits)
    qed
  qed
  moreover have "CHR ''/'' # h \<in> set (pg_exclude p)" if "opt_hashfile (pg_options p) = Some (CHR ''/'' # h)" "room (CHR ''/'' # h)" for h
    using hashfile_excluded [of p2 h room cwd] that co(1,4) by simp
  ultimately show ?thesis by blast
qed

theorem parse_options_correct_witness:
  "\<exists>p. parse_options None (\<lambda>_. True) ''/'' 5 [Opt_d, Opt_r, HASHFILE_OPTION ''/h''] 4 [''/d''] (initial_prog 2 4) = Inr (0, 4, p) \<and>
     pg_use_hashfile p = H_UPDATE \<and> ''/h'' \<in> set (pg_exclude p)"
proof -
  have "case parse_options None (\<lambda>_. True) ''/'' 5 [Opt_d, Opt_r, HASHFILE_OPTION ''/h''] 4 [''/d''] (initial_prog 2 4) of
      Inl _ \<Rightarrow> False | Inr (ret, idx, p) \<Rightarrow> ret = 0 \<and> idx = 4 \<and> opt_hashfile (pg_options p) = Some ''/h''" by code_simp
  then obtain p where p: "parse_options None (\<lambda>_. True) ''/'' 5 [Opt_d, Opt_r, HASHFILE_OPTION ''/h''] 4 [''/d''] (initial_prog 2 4) = Inr (0, 4, p)"
    "opt_hashfile (pg_options p) = Some ''/h''" by (auto split: sum.splits)
  from parse_options_correct [OF p(1)] have "options_ok [Opt_d, Opt_r, HASHFILE_OPTION ''/h''] 4 [''/d''] 4 p" "''/h'' \<in> set (pg_exclude p)"
    using p(2) by auto
  moreover from this(1) have "pg_use_hashfile p \<noteq> H_READ" "pg_use_hashfile p \<noteq> H_WRITE" by (simp_all add: options_ok_def)
  ultimately show ?thesis using p(1) by (cases "pg_use_hashfile p") auto
qed

text \<open>
  In the mode that only reads a hash file the checks of the other modes are passed over: with \<open>-R\<close>, the
  index of the file list stays 0, so that the names to remove start with the name of the program.
\<close>

lemma read_hashes_unchecked:
  "\<exists>p. parse_options None room cwd 3 [READ_HASHES_OPTION h, Opt_R, FDUPES_OPTION] 4 [] (initial_prog cpu io) = Inr (0, 0, p) \<and>
     pg_rm_only p \<and> opt_fdupes_mode (pg_options p)"
  by (simp add: parse_options_def initial_prog_def default_options_def check_options_def exclude_hashfile_def)

section \<open>The list of dedupe options\<close>

text \<open>What a list of settings looks like on the command line, and what it is meant to do.\<close>

datatype dedupe_opt = Same | Partial | Whole_files

fun opt_name :: "dedupe_opt \<Rightarrow> string" where
  "opt_name Same = ''same''"
| "opt_name Partial = ''partial''"
| "opt_name Whole_files = ''only_whole_files''"

fun apply_opt :: "bool \<times> dedupe_opt \<Rightarrow> options \<Rightarrow> options" where
  "apply_opt (b, Same) opt = opt\<lparr>opt_dedupe_same_file := b\<rparr>"
| "apply_opt (b, Partial) opt = opt\<lparr>opt_do_block_hash := b\<rparr>"
| "apply_opt (b, Whole_files) opt = opt\<lparr>opt_only_whole_files := b\<rparr>"

definition opt_text :: "bool \<times> dedupe_opt \<Rightarrow> string" where
  "opt_text x = (if fst x then [] else ''no'') @ opt_name (snd x)"

fun join_commas :: "string list \<Rightarrow> string" where
  "join_commas [] = []"
| "join_commas [t] = t"
| "join_commas (t # ts) = t @ CHR '','' # join_commas ts"

lemma opt_text_ok: "CHR '','' \<notin> set (opt_text x)" "opt_text x \<noteq> []" "set_dedupe_opt (opt_text x) opt = Some (apply_opt x opt)"
  by (cases x; cases "fst x"; cases "snd x"; simp add: opt_text_def set_dedupe_opt_def)+

lemma parse_last:
  assumes "CHR '','' \<notin> set t" "t \<noteq> []"
  shows "parse_dedupe_opts t opt = (case set_dedupe_opt t opt of None \<Rightarrow> (EINVAL, opt) | Some opt \<Rightarrow> (0, opt))"
proof -
  have "takeWhile (\<lambda>c. c \<noteq> CHR '','') t = t" "dropWhile (\<lambda>c. c \<noteq> CHR '','') t = []" using assms(1) by auto
  then show ?thesis using parse_dedupe_opts_step [OF assms(2), of opt] by (simp only: list.case)
qed

lemma parse_next:
  assumes "CHR '','' \<notin> set t"
  shows "parse_dedupe_opts (t @ CHR '','' # s) opt = (case set_dedupe_opt t opt of None \<Rightarrow> (EINVAL, opt) | Some opt \<Rightarrow> parse_dedupe_opts s opt)"
proof -
  have "takeWhile (\<lambda>c. c \<noteq> CHR '','') (t @ CHR '','' # s) = t" "dropWhile (\<lambda>c. c \<noteq> CHR '','') (t @ CHR '','' # s) = CHR '','' # s"
    using assms by (induction t) auto
  then show ?thesis using parse_dedupe_opts_step [of "t @ CHR '','' # s" opt] by (simp only: list.case) simp
qed

lemma set_dedupe_opt_text: "set_dedupe_opt t opt = Some opt' \<Longrightarrow> \<exists>x. t = opt_text x"
proof -
  assume s: "set_dedupe_opt t opt = Some opt'"
  define invert where "invert \<longleftrightarrow> take 2 t = ''no''"
  define u where "u = (if invert then drop 2 t else t)"
  have "t = (if invert then ''no'' else []) @ u" 
    unfolding u_def invert_def using append_take_drop_id [of 2 t] by (cases "take 2 t = ''no''") (metis, simp)
  moreover obtain d where "u = opt_name d"
    using s opt_name.simps unfolding set_dedupe_opt_def Let_def invert_def [symmetric] u_def [symmetric] by (metis option.distinct(1))
  ultimately have "t = opt_text (\<not> invert, d)" by (simp add: opt_text_def)
  then show ?thesis ..
qed

lemma parse_dedupe_opts_more:
  "xs \<noteq> [] \<Longrightarrow> parse_dedupe_opts (join_commas (map opt_text xs) @ CHR '','' # s) opt = parse_dedupe_opts s (fold apply_opt xs opt)"
proof (induction xs arbitrary: opt)
  case (Cons x xs)
  then show ?case using parse_next [OF opt_text_ok(1) [of x]] opt_text_ok(3) by (cases xs) simp_all
qed simp

lemma parse_dedupe_opts_text: "parse_dedupe_opts (join_commas (map opt_text xs)) opt = (0, fold apply_opt xs opt)"
proof (induction xs arbitrary: opt)
  case (Cons x xs)
  then show ?case using parse_next [OF opt_text_ok(1) [of x]] parse_last [OF opt_text_ok(1,2) [of x]] opt_text_ok(3) by (cases xs) simp_all
qed simp

text \<open>
  C38. Dedupe options that were written out are parsed back: a list of settings, with \<open>no\<close> in front of
  those that are switched off and commas between them, has the effect of the settings one after the other,
  so the last one for each option counts. A list that goes on with a word that is no option gives
  \<open>EINVAL\<close>, with the settings before it in effect.
\<close>

theorem parse_dedupe_opts_roundtrip:
  "parse_dedupe_opts (join_commas (map opt_text xs)) opt = (0, fold apply_opt xs opt) \<and>
   (CHR '','' \<notin> set t \<and> t \<noteq> [] \<and> (\<forall>x. t \<noteq> opt_text x) \<and> xs \<noteq> [] \<longrightarrow>
      parse_dedupe_opts (join_commas (map opt_text xs) @ CHR '','' # t) opt = (EINVAL, fold apply_opt xs opt))"
proof -
  have "parse_dedupe_opts t opt' = (EINVAL, opt')" if "CHR '','' \<notin> set t" "t \<noteq> []" "\<forall>x. t \<noteq> opt_text x" for opt'
    using parse_last [OF that(1,2), of opt'] set_dedupe_opt_text [of t opt'] that(3) by (cases "set_dedupe_opt t opt'") auto
  then show ?thesis using parse_dedupe_opts_text parse_dedupe_opts_more by simp
qed

theorem parse_dedupe_opts_roundtrip_witness:
  "parse_dedupe_opts ''nosame,partial,dups'' default_options =
     (EINVAL, default_options\<lparr>opt_dedupe_same_file := False, opt_do_block_hash := True\<rparr>)"
proof -
  have "''dups'' \<noteq> opt_text x" for x by (cases x; cases "fst x"; cases "snd x"; simp add: opt_text_def)
  then show ?thesis
    using parse_dedupe_opts_roundtrip [of "[(False, Same), (True, Partial)]" default_options "''dups''"] by (simp add: opt_text_def)
qed

end
