(* ===== verification/FileLists.thy ===== *)
theory FileLists
  imports Options Fdupes DbLoad
begin

text \<open>
  The lists of files that the program takes, \<open>duperemove.c\<close>: paths on standard input, one per line,
  paths on the command line, and groups of paths separated by empty lines, as \<open>fdupes\<close> prints them.
  Here are the modes that do nothing else than work on such a list: \<open>process_fdupes\<close>, listing the
  files of a hash file, and removing files from it.

  Standard input is a string. \<open>getline\<close> of the C library returns it line by line with the newlines, and
  what the program does with a line as a C string ends at the first NUL.
\<close>

section \<open>Model\<close>

unbundle bit_operations_syntax

definition NEWLINE :: char where "NEWLINE = CHR 0x0A"

function getlines :: "string \<Rightarrow> string list" where
  "getlines input =
     (if input = [] then []
      else let line = takeWhile (\<lambda>c. c \<noteq> NEWLINE) input in
        case dropWhile (\<lambda>c. c \<noteq> NEWLINE) input of
          [] \<Rightarrow> [line]
        | _ # tail \<Rightarrow> (line @ [NEWLINE]) # getlines tail)"
  by pat_completeness auto
termination
  by (relation "measure length") (auto dest: after_comma_shorter)

declare getlines.simps [simp del]

text \<open>The path in a line: the newline goes, and a path that is too long is passed over.\<close>

definition line_path :: "string \<Rightarrow> string option" where
  "line_path line =
     (let path = (if line \<noteq> [] \<and> last line = NEWLINE then butlast line else line) in
      if length path > 4096 - 1 then None else Some (takeWhile (\<lambda>c. c \<noteq> CHR 0x00) path))"

subsection \<open>Files that are equal\<close>

text \<open>
  \<open>stat\<close> is what \<open>statx\<close> answers, \<open>mem\<close> and \<open>dup\<close> the allocations of a file record, \<open>err\<close> what \<open>errno\<close> holds
  after a failed batch.
\<close>

fun process_fdupes ::
    "'w sys \<Rightarrow> int \<Rightarrow> (string \<Rightarrow> int \<times> statx) \<Rightarrow> (filerecs \<Rightarrow> fptr option) \<Rightarrow> (string \<Rightarrow> bool) \<Rightarrow> string list \<Rightarrow> 'w dedupe_state \<Rightarrow>
     (int \<times> 'w dedupe_state) option" where
  "process_fdupes E err stat mem dup [] S = Some (0, S)"
| "process_fdupes E err stat mem dup (line # lines) S =
     (if line = [NEWLINE] then do {
        (ret, S) \<leftarrow> fdupes_dedupe E err S;
        if ret \<noteq> 0 then Some (ret, S)
        else do {
          st \<leftarrow> free_all_filerecs (ds_files S);
          process_fdupes E err stat mem dup lines (S\<lparr>ds_files := st\<rparr>)
        }
      }
      else case line_path line of
        None \<Rightarrow> process_fdupes E err stat mem dup lines S
      | Some path \<Rightarrow> do {
          let (ret, stx) = stat path;
          st \<leftarrow> add_file_fdupes (mem (ds_files S)) (dup path) ret (stx_mask stx AND 0x7ff \<noteq> 0) (stx_ino stx) (stx_size stx) path (ds_files S);
          process_fdupes E err stat mem dup lines (S\<lparr>ds_files := st\<rparr>)
        })"

subsection \<open>Files of a hash file\<close>

text \<open>What \<open>print_file\<close> is called with; \<open>sqlite\<close> hands the columns over as text.\<close>

definition dbfile_iter_files :: "int \<Rightarrow> database \<Rightarrow> int \<times> (string \<times> int \<times> int) list" where
  "dbfile_iter_files rc db = (if rc \<noteq> 0 then (rc, []) else (0, map (\<lambda>r. (f_filename r, f_ino r, f_subvol r)) (files db)))"

definition list_db_files :: "database option \<Rightarrow> int \<Rightarrow> int \<times> (string \<times> int \<times> int) list" where
  "list_db_files handle rc = (case handle of None \<Rightarrow> (-1, []) | Some db \<Rightarrow> dbfile_iter_files rc db)"

fun rm_db_files_from_stdin :: "(string \<Rightarrow> int) \<Rightarrow> string list \<Rightarrow> database \<Rightarrow> database" where
  "rm_db_files_from_stdin rc [] db = db"
| "rm_db_files_from_stdin rc (line # lines) db = (case line_path line of
       None \<Rightarrow> rm_db_files_from_stdin rc lines db
     | Some path \<Rightarrow> rm_db_files_from_stdin rc lines (snd (Dbfile.dbfile_remove_file (rc path) path db)))"

text \<open>The first \<open>-\<close> reads the input to its end; it is then removed as a name like any other.\<close>

fun rm_db_names :: "(string \<Rightarrow> int) \<Rightarrow> string list \<Rightarrow> string list \<Rightarrow> database \<Rightarrow> database" where
  "rm_db_names rc lines [] db = db"
| "rm_db_names rc lines (name # names) db =
     (let (db, lines) = (if name = ''-'' then (rm_db_files_from_stdin rc lines db, []) else (db, lines)) in
      rm_db_names rc lines names (snd (Dbfile.dbfile_remove_file (rc name) name db)))"

definition rm_db_files :: "(string \<Rightarrow> int) \<Rightarrow> database option \<Rightarrow> string list \<Rightarrow> string list \<Rightarrow> int \<times> database option" where
  "rm_db_files rc handle lines names = (case handle of None \<Rightarrow> (-1, None) | Some db \<Rightarrow> (0, Some (rm_db_names rc lines names db)))"

subsection \<open>Files to scan\<close>

fun add_files_from_stdin :: "scan_env \<Rightarrow> string list \<Rightarrow> scan_state \<Rightarrow> (int \<times> scan_state) option" where
  "add_files_from_stdin env [] s = Some (0, s)"
| "add_files_from_stdin env (line # lines) s = (case line_path line of
       None \<Rightarrow> add_files_from_stdin env lines s
     | Some path \<Rightarrow> do {
         (ret, s) \<leftarrow> scan_file env path s;
         if ret \<noteq> 0 then Some (1, s) else add_files_from_stdin env lines s
       })"

fun scan_files_from_cmdline :: "scan_env \<Rightarrow> string list \<Rightarrow> scan_state \<Rightarrow> (int \<times> scan_state) option" where
  "scan_files_from_cmdline env [] s = Some (0, s)"
| "scan_files_from_cmdline env (name # names) s = do {
     (ret, s) \<leftarrow> scan_file env name s;
     if ret \<noteq> 0 then Some (1, s) else scan_files_from_cmdline env names s
   }"

section \<open>Lines\<close>

text \<open>Nothing of the input is lost, and a newline is only at the end of a line.\<close>

lemma getlines_ok: "concat (getlines input) = input \<and> (\<forall>l \<in> set (getlines input). l \<noteq> [] \<and> NEWLINE \<notin> set (butlast l))"
proof (induction input rule: getlines.induct)
  case (1 input)
  have no: "NEWLINE \<notin> set (takeWhile (\<lambda>c. c \<noteq> NEWLINE) xs)" for xs by (auto dest: set_takeWhileD)
  have split: "takeWhile (\<lambda>c. c \<noteq> NEWLINE) input @ dropWhile (\<lambda>c. c \<noteq> NEWLINE) input = input" by (rule takeWhile_dropWhile_id)
  show ?case
  proof (cases "input = []")
    case False
    show ?thesis
    proof (cases "dropWhile (\<lambda>c. c \<noteq> NEWLINE) input")
      case Nil
      then have l: "takeWhile (\<lambda>c. c \<noteq> NEWLINE) input = input" using split by simp
      then have "getlines input = [input]" using Nil False by (subst getlines.simps) (simp only: Let_def list.case if_False)
      then show ?thesis using False no [of input] l by (auto dest: in_set_butlastD)
    next
      case (Cons c tail)
      then have "c = NEWLINE" using hd_dropWhile [of "\<lambda>c. c \<noteq> NEWLINE" input] by simp
      moreover have "getlines input = (takeWhile (\<lambda>c. c \<noteq> NEWLINE) input @ [NEWLINE]) # getlines tail"
        using Cons False by (subst getlines.simps) (simp only: Let_def list.case if_False)
      ultimately show ?thesis using "1.IH" [OF False refl Cons] split Cons no [of input] by (auto simp: butlast_append)
    qed
  qed (simp add: getlines.simps)
qed

section \<open>Removing files\<close>

lemma delete_files_twice: "delete_files P (delete_files Q db) = delete_files (\<lambda>r. Q r \<or> P r) db"
proof -
  have "f_id ` set (filter (\<lambda>r. Q r \<or> P r) (files db)) =
      f_id ` set (filter Q (files db)) \<union> f_id ` set (filter P (filter (\<lambda>r. \<not> Q r) (files db)))" by auto
  then show ?thesis by (simp add: delete_files_def Let_def conj_commute)
qed

definition paths_of :: "string list \<Rightarrow> string set" where
  "paths_of lines = {p. \<exists>l \<in> set lines. line_path l = Some p}"

lemma delete_no_files: "delete_files (\<lambda>r. False) db = db"
  by (simp add: delete_files_def)

lemma paths_of_simps [simp]:
  "paths_of [] = {}" "line_path l = None \<Longrightarrow> paths_of (l # ls) = paths_of ls"
  "line_path l = Some p \<Longrightarrow> paths_of (l # ls) = insert p (paths_of ls)"
  by (auto simp: paths_of_def)

lemma rm_stdin_ok: "rm_db_files_from_stdin (\<lambda>_. 0) lines db = delete_files (\<lambda>r. f_filename r \<in> paths_of lines) db"
proof (induction lines arbitrary: db)
  case (Cons l lines)
  show ?case
  proof (cases "line_path l")
    case (Some p)
    then show ?thesis using Cons.IH by (simp add: dbfile_remove_file_def delete_files_twice)
  qed (use Cons.IH in simp)
qed (simp add: delete_no_files)

lemma rm_names_ok:
  "rm_db_names (\<lambda>_. 0) lines names db =
     delete_files (\<lambda>r. f_filename r \<in> set names \<or> ''-'' \<in> set names \<and> f_filename r \<in> paths_of lines) db"
proof (induction names arbitrary: lines db)
  case (Cons name names)
  then show ?case
    by (cases "name = ''-''") (auto simp: rm_stdin_ok dbfile_remove_file_def delete_files_twice intro!: arg_cong [of _ _ "\<lambda>P. delete_files P db"])
qed (simp add: delete_no_files)

text \<open>
  C39. \<open>rm_db_files\<close> removes exactly the files that are named, on the command line or, for \<open>-\<close>, on the lines
  of the input, with all their hashes; the rows of all other files, their hashes and the configuration
  stay as they are, in their order, and the constraints of the tables hold.
\<close>

theorem rm_db_files_correct:
  "rm_db_files (\<lambda>_. 0) (Some db) (getlines input) names =
     (0, Some (delete_files (\<lambda>r. f_filename r \<in> set names \<union> (if ''-'' \<in> set names then paths_of (getlines input) else {})) db)) \<and>
   (db_inv db \<longrightarrow> db_inv (the (snd (rm_db_files (\<lambda>_. 0) (Some db) (getlines input) names))))"
proof -
  have "rm_db_files (\<lambda>_. 0) (Some db) (getlines input) names =
     (0, Some (delete_files (\<lambda>r. f_filename r \<in> set names \<union> (if ''-'' \<in> set names then paths_of (getlines input) else {})) db))"
    by (simp add: rm_db_files_def rm_names_ok)
  then show ?thesis using delete_files_inv by simp
qed

theorem rm_db_files_correct_witness:
  "db_inv (the (snd (rm_db_files (\<lambda>_. 0) (Some (snd (dbfile_store_file_info 0 1 example_db_file create_tables))) (getlines ''/a'') [''-'']))) \<and>
   files (the (snd (rm_db_files (\<lambda>_. 0) (Some (snd (dbfile_store_file_info 0 1 example_db_file create_tables))) (getlines ''/a'') [''-'']))) = []"
proof -
  let ?db = "snd (dbfile_store_file_info 0 1 example_db_file create_tables)"
  have "db_inv ?db" using write_file_inv [OF db_inv_create, of 1 example_db_file] by (simp add: dbfile_store_file_info_def create_tables_def)
  moreover have "''/a'' \<in> paths_of (getlines ''/a'')" by (simp add: getlines.simps paths_of_def line_path_def NEWLINE_def)
  then have "files (delete_files (\<lambda>r. f_filename r \<in> set [''-''] \<union> (if ''-'' \<in> set [''-''] then paths_of (getlines ''/a'') else {})) ?db) = []"
    by (simp add: dbfile_store_file_info_def write_file_def Let_def create_tables_def delete_files_def example_db_file_def)
  ultimately show ?thesis using rm_db_files_correct [of ?db "''/a''" "[''-'']"] by (metis option.sel snd_conv)
qed

section \<open>Groups of equal files\<close>

text \<open>
  What the input has to be like: within a group no inode number occurs twice, and no file is empty or
  as large as 4 GiB. \<open>ids\<close> are the inode numbers of the group so far.
\<close>

fun fdupes_input_ok :: "(string \<Rightarrow> int \<times> statx) \<Rightarrow> string list \<Rightarrow> int list \<Rightarrow> bool" where
  "fdupes_input_ok stat [] ids = True"
| "fdupes_input_ok stat (line # lines) ids =
     (if line = [NEWLINE] then fdupes_input_ok stat lines []
      else case line_path line of
        None \<Rightarrow> fdupes_input_ok stat lines ids
      | Some path \<Rightarrow>
          let (ret, stx) = stat path in
          if ret \<noteq> 0 \<or> stx_mask stx AND 0x7ff = 0 then fdupes_input_ok stat lines ids
          else sint (stx_ino stx) \<notin> set ids \<and> 0 < stx_size stx \<and> stx_size stx < 2 ^ 32 \<and>
            fdupes_input_ok stat lines (sint (stx_ino stx) # ids))"

definition fdupes_inv :: "filerecs \<Rightarrow> int list \<Rightarrow> bool" where
  "fdupes_inv st ids \<longleftrightarrow> filerecs_inv st \<and> fd_inv st \<and> sizes_ok st \<and> (\<forall>f r. recs st f = Some r \<longrightarrow> fileid r \<in> set ids)"

lemma no_filerecs_fdupes_inv: "fdupes_inv (no_filerecs\<lparr>open_fds := fds\<rparr>) ids"
  using no_filerecs_inv by (simp add: fdupes_inv_def filerecs_inv_def fd_inv_def sizes_ok_def no_filerecs_def)

text \<open>The allocator gives fresh addresses when it gives any.\<close>

definition fresh_mem :: "(filerecs \<Rightarrow> fptr option) \<Rightarrow> bool" where
  "fresh_mem mem \<longleftrightarrow> (\<forall>st p. mem st = Some p \<longrightarrow> recs st p = None)"

lemma add_file_fdupes_ok:
  assumes inv: "fdupes_inv st ids" and mem: "fresh_mem mem" and new: "sint ino \<notin> set ids" "0 < sz" "sz < 2 ^ 32"
  shows "\<exists>st'. add_file_fdupes (mem st) dup 0 True ino sz path st = Some st' \<and> fdupes_inv st' (sint ino # ids) \<and> open_fds st' = open_fds st"
proof (cases "mem st = None \<or> \<not> dup")
  case True
  then have "filerec_new (mem st) dup path (sint ino) sz st = Some (None, st)"
    by (auto simp: filerec_new_def filerec_alloc_insert_def split: option.split)
  then show ?thesis using inv by (auto simp: add_file_fdupes_def fdupes_inv_def)
next
  case False
  then obtain p where p: "mem st = Some p" "recs st p = None" "dup" using mem by (auto simp: fresh_mem_def)
  have "filerec_find (sint ino) st = None" using filerec_find_None [of st "sint ino"] inv new(1) unfolding fdupes_inv_def by metis
  then obtain st' where st': "filerec_new (Some p) True path (sint ino) sz st = Some (Some p, st')" "filerecs_inv st'"
      "recs st' = (recs st)(p \<mapsto> \<lparr>fd = -1, fd_refs = 0, filename = path, fileid = sint ino, fsize = sz, block_tree = RB_NULL\<rparr>)"
      "open_fds st' = open_fds st"
    using filerec_new_ok [OF _ p(2), of "sint ino" path sz] inv unfolding fdupes_inv_def by blast
  have "fdupes_inv st' (sint ino # ids)"
    using inv st'(2-4) new(2,3) by (auto simp: fdupes_inv_def fd_inv_def sizes_ok_def)
  then show ?thesis using st' p by (simp add: add_file_fdupes_def)
qed

lemma process_fdupes_ok:
  assumes E: "sys_ok E" and mem: "fresh_mem mem"
  shows "fdupes_input_ok stat lines ids \<Longrightarrow> fdupes_inv (ds_files S) ids \<Longrightarrow> ds_fs_blocksize S = 0 \<or> block_size_ok (ds_fs_blocksize S) \<Longrightarrow>
    \<exists>ret S'. process_fdupes E err stat mem dup lines S = Some (ret, S') \<and> open_fds (ds_files S') = open_fds (ds_files S)"
proof (induction lines arbitrary: S ids)
  case (Cons line lines)
  note inv = Cons.prems(2) [unfolded fdupes_inv_def]
  show ?case
  proof (cases "line = [NEWLINE]")
    case True
    obtain ret S1 where d: "fdupes_dedupe E err S = Some (ret, S1)" "ds_files S1 = no_filerecs\<lparr>open_fds := open_fds (ds_files S)\<rparr>"
        "ds_fs_blocksize S1 = 0 \<or> block_size_ok (ds_fs_blocksize S1)"
      using fdupes_dedupe_ok [OF E _ _ _ Cons.prems(3)] inv by blast
    have f: "free_all_filerecs (ds_files S1) = Some (ds_files S1)"
      using free_all_filerecs_ok [of "ds_files S1"] no_filerecs_fdupes_inv [of "open_fds (ds_files S)" "[]"] d(2) by (simp add: fdupes_inv_def)
    have ok: "fdupes_input_ok stat lines []" "fdupes_inv (ds_files (S1\<lparr>ds_files := ds_files S1\<rparr>)) []"
      using Cons.prems(1) True no_filerecs_fdupes_inv d(2) by simp_all
    from Cons.IH [OF this] d(3) have "\<exists>ret' S'. process_fdupes E err stat mem dup lines (S1\<lparr>ds_files := ds_files S1\<rparr>) = Some (ret', S') \<and>
        open_fds (ds_files S') = open_fds (ds_files S)" using d(2) by simp
    then show ?thesis using True d(1,2) f by auto
  next
    case False
    show ?thesis
    proof (cases "line_path line")
      case None
      then show ?thesis using Cons False by simp
    next
      case (Some path)
      obtain rc stx where st: "stat path = (rc, stx)" by fastforce
      show ?thesis
      proof (cases "rc \<noteq> 0 \<or> stx_mask stx AND 0x7ff = 0")
        case True
        then have "add_file_fdupes m d rc (stx_mask stx AND 0x7ff \<noteq> 0) i z path (ds_files S) = Some (ds_files S)" for m d i z
          by (simp add: add_file_fdupes_def)
        moreover have "fdupes_input_ok stat lines ids" using Cons.prems(1) False Some st True by (simp split: if_splits)
        ultimately show ?thesis using Cons.IH [OF _ Cons.prems(2,3)] False Some st by simp
      next
        case ok: False
        then have i: "sint (stx_ino stx) \<notin> set ids" "0 < stx_size stx" "stx_size stx < 2 ^ 32" "fdupes_input_ok stat lines (sint (stx_ino stx) # ids)"
          using Cons.prems(1) False Some st by simp_all
        obtain st' where a: "add_file_fdupes (mem (ds_files S)) (dup path) 0 True (stx_ino stx) (stx_size stx) path (ds_files S) = Some st'"
            "fdupes_inv st' (sint (stx_ino stx) # ids)" "open_fds st' = open_fds (ds_files S)"
          using add_file_fdupes_ok [OF Cons.prems(2) mem i(1-3)] by blast
        from Cons.IH [OF i(4), of "S\<lparr>ds_files := st'\<rparr>"] a(2,3) Cons.prems(3) obtain ret S' where
          "process_fdupes E err stat mem dup lines (S\<lparr>ds_files := st'\<rparr>) = Some (ret, S')" "open_fds (ds_files S') = open_fds (ds_files S)" by auto
        then show ?thesis using False Some st ok a(1) by simp
      qed
    qed
  qed
qed simp

text \<open>
  C16. The \<open>fdupes\<close> mode ends on any input in which no inode number occurs twice in a group and no file is
  empty or as large as 4 GiB: whichever files cannot be looked at or opened, whichever batch fails and
  whatever memory is missing, the process does not abort and no descriptor is left open.
\<close>

theorem process_fdupes_correct:
  assumes "sys_ok E" "fresh_mem mem" "fdupes_input_ok stat (getlines input) []" "ds_files S = no_filerecs"
    and "ds_fs_blocksize S = 0 \<or> block_size_ok (ds_fs_blocksize S)"
  shows "\<exists>ret S'. process_fdupes E err stat mem dup (getlines input) S = Some (ret, S') \<and> open_fds (ds_files S') = {}"
proof -
  have "fdupes_inv (ds_files S) []" using no_filerecs_fdupes_inv [of "{}" "[]"] assms(4) by (simp add: no_filerecs_def)
  from process_fdupes_ok [OF assms(1-3) this assms(5)] assms(4) show ?thesis by (simp add: no_filerecs_def)
qed

text \<open>A file system with two files, and two lines that name them.\<close>

definition two_files :: "string \<Rightarrow> int \<times> statx" where
  "two_files path = (0, \<lparr>stx_mask = 0x7ff, stx_mode = 0x81a4, stx_ino = (if path = ''a'' then 7 else 8), stx_size = 4096, stx_mtime_sec = 0,
     stx_mtime_nsec = 0, stx_dev_major = 0, stx_dev_minor = 0\<rparr>)"

definition two_lines :: string where
  "two_lines = ''a'' @ [NEWLINE] @ ''b'' @ [NEWLINE] @ [NEWLINE]"

lemma two_lines_simps: "getlines two_lines = [''a'' @ [NEWLINE], ''b'' @ [NEWLINE], [NEWLINE]]"
  by (simp add: two_lines_def getlines.simps NEWLINE_def)

text \<open>An allocator with room for two records.\<close>

definition two_slots :: "filerecs \<Rightarrow> fptr option" where
  "two_slots st = (if recs st 64 = None then Some 64 else if recs st 65 = None then Some 65 else None)"

theorem process_fdupes_correct_witness:
  "\<exists>ret S'. process_fdupes example_sys 5 two_files two_slots (\<lambda>_. True) (getlines two_lines)
     ((example_state init_results_tree)\<lparr>ds_files := no_filerecs\<rparr>) = Some (ret, S') \<and> open_fds (ds_files S') = {}"
proof (rule process_fdupes_correct [OF example_sys_ok(1)])
  show "fresh_mem two_slots" by (simp add: fresh_mem_def two_slots_def)
  show "fdupes_input_ok two_files (getlines two_lines) []"
    unfolding two_lines_simps by (simp add: line_path_def two_files_def NEWLINE_def)
qed simp_all

lemma add_file_twice:
  assumes "filerecs_inv st" "filerec_find (sint ino) st \<noteq> None"
  shows "add_file_fdupes (Some p) True 0 True ino sz path st = None"
proof -
  have "rb_add (\<lambda>tmp. cmp_filerecs (fst tmp) (sint ino)) (sint ino, p) (filerec_by_fileid st) = None"
    using by_fileid.add_dup [of "filerec_by_fileid st" "(sint ino, p)"] assms
    by (simp add: filerecs_inv_def fileid_inv_def filerec_find_def)
  then show ?thesis by (simp add: add_file_fdupes_def filerec_new_def filerec_alloc_insert_def insert_filerec_def)
qed

lemma add_file_more:
  assumes "mem_ok mem" "filerecs_inv st" "filerec_find i st \<noteq> None" "add_file_fdupes (mem st) d rc stats ino sz path st = Some st'"
  shows "filerecs_inv st' \<and> filerec_find i st' \<noteq> None"
proof (cases "rc \<noteq> 0 \<or> \<not> stats \<or> \<not> d")
  case True
  then have "st' = st" using assms(4) by (auto simp: add_file_fdupes_def filerec_new_def filerec_alloc_insert_def split: option.splits if_splits)
  then show ?thesis using assms(2,3) by simp
next
  case False
  obtain p where p: "mem st = Some p" using mem_okE [OF assms(1,2)] .
  have none: "filerec_find (sint ino) st = None" using add_file_twice [OF assms(2), of ino p sz path] assms(4) p False by (cases "filerec_find (sint ino) st") auto
  from new_file_ok [OF assms(1,2) none, of path sz] show ?thesis
    using assms(3,4) False by (auto simp: add_file_fdupes_def keeps_files_def)
qed

lemma same_inode_later:
  assumes "mem_ok mem" "lb \<noteq> [NEWLINE]" "line_path lb = Some pb" "stat pb = (0, sb)" "stx_mask sb AND 0x7ff \<noteq> 0" "dup pb"
  shows "[NEWLINE] \<notin> set mid \<Longrightarrow> filerecs_inv (ds_files S) \<Longrightarrow> filerec_find (sint (stx_ino sb)) (ds_files S) \<noteq> None \<Longrightarrow>
    process_fdupes E err stat mem dup (mid @ lb # post) S = None"
proof (induction mid arbitrary: S)
  case Nil
  obtain p where p: "mem (ds_files S) = Some p" using mem_okE [OF assms(1) Nil(2)] .
  then show ?case using add_file_twice [OF Nil(2,3), of p "stx_size sb" pb] assms by simp
next
  case (Cons l mid)
  show ?case
  proof (cases "line_path l")
    case (Some path)
    obtain rc stx where st: "stat path = (rc, stx)" by fastforce
    have nl: "l \<noteq> [NEWLINE]" "[NEWLINE] \<notin> set mid" using Cons.prems(1) by auto
    let ?add = "add_file_fdupes (mem (ds_files S)) (dup path) rc (stx_mask stx AND 0x7ff \<noteq> 0) (stx_ino stx) (stx_size stx) path (ds_files S)"
    show ?thesis
    proof (cases ?add)
      case (Some st')
      from Cons.IH [of "S\<lparr>ds_files := st'\<rparr>"] add_file_more [OF assms(1) Cons.prems(2,3) Some] nl \<open>line_path l = Some path\<close> st Some
      show ?thesis by simp
    qed (use Some st nl in simp)
  qed (use Cons in auto)
qed

text \<open>
  C40. Two files of a group with the same inode number, as two names of one file have it or two files
  on different file systems, abort the process: the table of files is keyed by that number, and an entry
  that is there already is taken for a corruption. This is so wherever the two lines stand in a group, whatever was read
  before and whatever stands between them, when \<open>statx\<close> succeeds on both and there is memory for the records of files.
\<close>

theorem process_fdupes_same_inode:
  assumes "la \<noteq> [NEWLINE]" "lb \<noteq> [NEWLINE]" "line_path la = Some pa" "line_path lb = Some pb"
    and "stat pa = (0, sa)" "stat pb = (0, sb)" "stx_mask sa AND 0x7ff \<noteq> 0" "stx_mask sb AND 0x7ff \<noteq> 0" "stx_ino sa = stx_ino sb"
    and "mem_ok mem" "dup pa" "dup pb" "filerecs_inv (ds_files S)" "[NEWLINE] \<notin> set mid"
  shows "process_fdupes E err stat mem dup (la # mid @ lb # post) S = None"
proof (cases "filerec_find (sint (stx_ino sa)) (ds_files S) = None")
  case True
  obtain f st' where n: "filerec_new (mem (ds_files S)) True pa (sint (stx_ino sa)) (stx_size sa) (ds_files S) = Some (Some f, st')" "filerecs_inv st'"
      "filerec_find (sint (stx_ino sa)) st' = Some f"
    using new_file_ok [OF assms(10,13) True] by blast
  have "add_file_fdupes (mem (ds_files S)) True 0 True (stx_ino sa) (stx_size sa) pa (ds_files S) = Some st'" using n(1) by (simp add: add_file_fdupes_def)
  moreover have "process_fdupes E err stat mem dup (mid @ lb # post) (S\<lparr>ds_files := st'\<rparr>) = None"
    by (rule same_inode_later [where stat = stat and dup = dup, OF assms(10,2,4,6,8,12,14)]) (use n(2,3) assms(9) in simp_all)
  ultimately show ?thesis using assms by simp
next
  case False
  show ?thesis using same_inode_later [where stat = stat and dup = dup and mid = "[]", OF assms(10,1,3,5,7,11) _ assms(13) False] by simp
qed

theorem process_fdupes_same_inode_witness:
  "process_fdupes example_sys 5 two_files first_free (\<lambda>_. True) ([''b''] @ [''a''] @ [''c''])
     ((example_state init_results_tree)\<lparr>ds_files := no_filerecs\<rparr>) = None"
  using process_fdupes_same_inode [where la = "''b''" and lb = "''c''" and mid = "[''a'']" and post = "[]" and
      pa = "''b''" and pb = "''c''" and sa = "snd (two_files ''b'')" and sb = "snd (two_files ''c'')" and stat = two_files and mem = first_free and
      dup = "\<lambda>_. True" and S = "(example_state init_results_tree)\<lparr>ds_files := no_filerecs\<rparr>" and E = example_sys and err = 5]
  by (simp add: line_path_def two_files_def NEWLINE_def first_free_ok no_filerecs_inv del: process_fdupes.simps)

end
