(* ===== verification/SearchAll.thy ===== *)
theory SearchAll
  imports FindDupes
begin

text \<open>
  The search through all extents of a file, \<open>search_file_extents\<close> of \<open>find_dupes.c\<close>: what the comparisons of
  all extents record together. However many extents are searched, a group of the results tree only
  gets extents that start at a block of the hash tree, which bounds the counters.
\<close>

section \<open>Where matches start\<close>

lemma skip_set: "skip E z zs = Some (y, ys) \<Longrightarrow> set (y # ys) \<subseteq> set (z # zs)"
  by (induction E z zs rule: skip.induct) (auto split: if_splits)

lemma matches_start: "m \<in> set (matches B E len z zs) \<Longrightarrow> fst m \<in> set (z # zs)"
proof (induction B E len z zs rule: matches.induct)
  case (1 B E len z zs)
  show ?case
  proof (cases "skip E z zs")
    case None
    then show ?thesis using "1.prems" by (subst (asm) matches.simps) simp
  next
    case (Some s)
    obtain y ys where s: "s = (y, ys)" by fastforce
    obtain ps again w where r: "run B E y ys = (ps, again, w)" by (metis prod_cases3)
    have sub: "set (y # ys) \<subseteq> set (z # zs)" using skip_set Some s by blast
    define fits where "fits \<longleftrightarrow> len (snd (last ps)) + b_loff (snd (last ps)) - 1 \<le> E"
    define others where "others = (if again then (case drop (length ps) (y # ys) of [] \<Rightarrow> [] | w' # ws \<Rightarrow>
      if b_loff (snd w') > E then [] else matches B E len w' ws) else [])"
    have eq: "matches B E len z zs = (if ps = [] then [] else if fits then (z, ps) # others else [])"
      unfolding fits_def others_def using Some s r by (subst matches.simps) (simp only: option.case prod.case)
    show ?thesis
    proof (cases "m = (z, ps)")
      case False
      have p: "ps \<noteq> []" "fits" "m \<in> set others" using "1.prems" False unfolding eq by (simp_all split: if_splits)
      have ag: "again" using p(3) by (cases again) (simp_all only: others_def if_False list.set empty_iff)
      have "drop (length ps) (y # ys) \<noteq> []"
      proof
        assume "drop (length ps) (y # ys) = []"
        then have "others = []" using ag by (simp only: others_def list.case if_True)
        then show False using p(3) by simp
      qed
      then obtain w' ws where d: "drop (length ps) (y # ys) = w' # ws" by (meson neq_Nil_conv)
      then have o: "others = (if b_loff (snd w') > E then [] else matches B E len w' ws)" using ag unfolding others_def by (simp only: if_True list.case)
      then have w: "\<not> b_loff (snd w') > E" "m \<in> set (matches B E len w' ws)" using p(3) by (metis empty_iff list.set(1))+
      have "fst m \<in> set (w' # ws)" 
        by (rule "1.IH" [OF Some s [symmetric] r [symmetric] refl p(1) p(2) [unfolded fits_def] ag d w])
      then have "fst m \<in> set (y # ys)" using d set_drop_subset [of "length ps" "y # ys"] by auto
      then show ?thesis using sub by blast
    qed simp
  qed
qed

definition block_start :: "file_block \<Rightarrow> ext_key" where
  "block_start b = (b_file b, b_loff b)"

definition tree_starts :: "hash_tree \<Rightarrow> ext_key set" where
  "tree_starts tree = block_start ` set_mset (tree_blocks tree)"

lemma card_set_mset: "card (set_mset M) \<le> size M"
  using size_mset_mono [OF mset_set_set_mset_msubset [of M]] by simp

lemma card_tree_starts: "finite (tree_starts tree)" "card (tree_starts tree) \<le> size (tree_blocks tree)"
proof -
  have "card (tree_starts tree) \<le> card (set_mset (tree_blocks tree))" unfolding tree_starts_def by (rule card_image_le) simp
  also have "\<dots> \<le> size (tree_blocks tree)" by (rule card_set_mset)
  finally show "card (tree_starts tree) \<le> size (tree_blocks tree)" .
qed (simp add: tree_starts_def)

lemma blocks_after_in:
  assumes "files_inv bs st"
  shows "set (blocks_after st b) \<subseteq> set_mset bs" "length (blocks_after st b) \<le> size bs"
proof -
  show s: "set (blocks_after st b) \<subseteq> set_mset bs"
    using assms by (auto simp: blocks_after_def files_inv_def split: option.splits)
  have "distinct (blocks_after st b)"
  proof (cases "recs st (b_file b)")
    case (Some r)
    then have "rb_index b_loff word_cmp (block_tree r)" using assms by (auto simp: files_inv_def)
    then have "distinct (map b_loff (rb_inorder (block_tree r)))" using by_loff.ordered_distinct by (auto simp: rb_index_def)
    then show ?thesis using Some by (auto simp: blocks_after_def distinct_map)
  qed (simp add: blocks_after_def)
  then have "length (blocks_after st b) = card (set (blocks_after st b))" by (simp add: distinct_card)
  also have "\<dots> \<le> card (set_mset bs)" using s by (intro card_mono) auto
  also have "\<dots> \<le> size bs" by (rule card_set_mset)
  finally show "length (blocks_after st b) \<le> size bs" .
qed

section \<open>All extents of a file\<close>

text \<open>What the search for one extent records.\<close>

definition extent_finds ::
    "'s xxh3 \<Rightarrow> u32 \<Rightarrow> bool \<Rightarrow> hash_tree \<times> filerecs \<Rightarrow> fptr \<Rightarrow> file_extent \<Rightarrow> (group_key \<times> ext_key) set" where
  "extent_finds X B same_file s file extent = (case s of (tree, st) \<Rightarrow> (case recs st file of
       None \<Rightarrow> {}
     | Some r \<Rightarrow> (case find_filerec_block r (fx_loff extent) of
         None \<Rightarrow> {}
       | Some block \<Rightarrow> (\<Union>b \<in> {b. b \<in># tree_blocks tree \<and> b_parent b = b_parent block \<and> b \<noteq> block \<and> (same_file \<or> b_file b \<noteq> file)}.
           \<Union>m \<in> set (matches_of B st block b (fx_len extent)). found X (blen B st) m))))"

lemma extent_finds_starts:
  assumes "files_inv (tree_blocks tree) st"
  shows "extent_finds X B same_file (tree, st) file extent \<subseteq> UNIV \<times> tree_starts tree"
proof -
  have m: "found X len m \<subseteq> UNIV \<times> tree_starts tree"
    if "block \<in># tree_blocks tree" "b \<in># tree_blocks tree" "m \<in> set (matches_of B st block b l)" for block b l m len
  proof -
    have "fst m \<in> set ((block, b) # pairs_after st block b)" using matches_start that(3) unfolding matches_of_def by blast
    then consider "fst m = (block, b)" | "fst m \<in> set (pairs_after st block b)" by auto
    moreover have "fst z \<in># tree_blocks tree \<and> snd z \<in># tree_blocks tree" if "z \<in> set (pairs_after st block b)" for z
      using that blocks_after_in(1) [OF assms] set_zip_leftD [of "fst z" "snd z"] set_zip_rightD [of "fst z" "snd z"]
      unfolding pairs_after_def by (metis prod.collapse subset_iff)
    ultimately have "fst (fst m) \<in># tree_blocks tree" "snd (fst m) \<in># tree_blocks tree" using that(1,2) by (cases; simp)+
    then have "block_start (fst (fst m)) \<in> tree_starts tree" "block_start (snd (fst m)) \<in> tree_starts tree" by (auto simp: tree_starts_def)
    then show ?thesis by (auto simp: found_def block_start_def split: prod.splits)
  qed
  show ?thesis
    using m find_filerec_block_Some(1) [OF assms] by (fastforce simp: extent_finds_def split: option.splits)
qed

text \<open>Room for a search on top of all that searches can have added.\<close>

definition search_room :: "hash_tree \<Rightarrow> results_tree \<Rightarrow> bool" where
  "search_room tree res \<longleftrightarrow> (let n = size (tree_blocks tree) in \<forall>g. card (res_extents res `` {g} \<union> tree_starts tree) + 2 * (n * Suc n) < 2 ^ 32)"

lemma search_room_more:
  assumes "search_room tree res" "res_extents res' \<subseteq> res_extents res \<union> UNIV \<times> tree_starts tree"
  shows "search_room tree res'"
proof -
  have "card (res_extents res' `` {g} \<union> tree_starts tree) \<le> card (res_extents res `` {g} \<union> tree_starts tree)" for g
    using assms(2) card_tree_starts(1) by (intro card_mono) (auto simp: finite_Image)
  then show ?thesis using assms(1) order_le_less_trans unfolding search_room_def Let_def by (meson add_le_mono1)
qed

lemma search_room_for:
  assumes "search_room tree res"
  shows "room_for (size (tree_blocks tree) * Suc (size (tree_blocks tree))) res"
  unfolding room_for_def
proof
  fix g
  have "card (res_extents res `` {g}) \<le> card (res_extents res `` {g} \<union> tree_starts tree)"
    using card_tree_starts(1) by (intro card_mono) (auto simp: finite_Image)
  moreover have "card (res_extents res `` {g} \<union> tree_starts tree) + 2 * (size (tree_blocks tree) * Suc (size (tree_blocks tree))) < 2 ^ 32"
    using assms by (simp only: search_room_def Let_def)
  ultimately show "card (res_extents res `` {g}) + 2 * (size (tree_blocks tree) * Suc (size (tree_blocks tree))) < 2 ^ 32" by linarith
qed

lemma search_one_ok:
  assumes inv: "hash_inv (tree, st)" and dom: "file \<in> dom (recs st)" and load: "\<And>f off. load_extent f off = 0"
    and res: "res_inv res" "search_room tree res"
  shows "\<exists>res'. search_extent X (\<lambda>_. (True, True, True)) B same_file load_extent (tree, st) file extent res = Some (0, res') \<and>
    res_inv res' \<and> search_room tree res' \<and> res_extents res' = res_extents res \<union> extent_finds X B same_file (tree, st) file extent"
proof -
  have fi: "files_inv (tree_blocks tree) st" using inv by (simp add: hash_inv_def)
  obtain r where r: "recs st file = Some r" using dom by auto
  show ?thesis
  proof (cases "find_filerec_block r (fx_loff extent)")
    case None
    then show ?thesis using r res by (simp add: search_extent_def extent_finds_def)
  next
    case (Some block)
    have "room_for (size (tree_blocks tree) * Suc (length (blocks_after st block))) res"
      by (rule room_for_mono [OF search_room_for [OF res(2)]]) (use blocks_after_in(2) [OF fi] in simp)
    from search_extent_ok [where load_extent = load_extent and X = X and B = B and same_file = same_file, OF inv r Some load res(1) this] obtain res' where
      s: "search_extent X (\<lambda>_. (True, True, True)) B same_file load_extent (tree, st) file extent res = Some (0, res')" "res_inv res'"
        "res_extents res' = res_extents res \<union> extent_finds X B same_file (tree, st) file extent"
      using r Some by (auto simp: extent_finds_def)
    have "search_room tree res'" by (rule search_room_more [OF res(2)]) (use s(3) extent_finds_starts [OF fi] in blast)
    with s show ?thesis by blast
  qed
qed

lemma search_all_ok:
  assumes inv: "hash_inv (tree, st)" and dom: "file \<in> dom (recs st)" and load: "\<And>f off. load_extent f off = 0"
  shows "res_inv res \<Longrightarrow> search_room tree res \<Longrightarrow>
    \<exists>res'. search_all X (\<lambda>_. (True, True, True)) B same_file load_extent (tree, st) file xs res = Some res' \<and> res_inv res' \<and> search_room tree res' \<and>
      res_extents res' = res_extents res \<union> (\<Union>x \<in> set xs. extent_finds X B same_file (tree, st) file x)"
proof (induction xs arbitrary: res)
  case (Cons x xs)
  obtain res1 where r1: "search_extent X (\<lambda>_. (True, True, True)) B same_file load_extent (tree, st) file x res = Some (0, res1)" "res_inv res1"
      "search_room tree res1" "res_extents res1 = res_extents res \<union> extent_finds X B same_file (tree, st) file x"
    using search_one_ok [where load_extent = load_extent, OF inv dom load Cons.prems] by blast
  from Cons.IH [OF r1(2,3)] obtain res2 where
    "search_all X (\<lambda>_. (True, True, True)) B same_file load_extent (tree, st) file xs res1 = Some res2" "res_inv res2" "search_room tree res2"
    "res_extents res2 = res_extents res1 \<union> (\<Union>x \<in> set xs. extent_finds X B same_file (tree, st) file x)" by blast
  then show ?case using r1 by (simp add: Un_assoc)
qed simp

end
