(* ===== verification/Duperemove.thy ===== *)
theory Duperemove
  imports FileLists Pipeline SearchAll
begin

text \<open>
  The phases of the program, \<open>duperemove.c\<close>: for each batch of files that was not deduplicated yet, the
  duplicates are loaded, searched and handed to the kernel, and the number of the batch is stored in the
  hash file. \<open>find_additional_dedupe\<close> of \<open>find_dupes.c\<close> is here too, since it searches the files
  that were loaded with the extents that the hash file has.

  \<open>run_env\<close> holds the answers of the code outside: the kernel (\<open>sys\<close>), the hash, the allocations and the codes of
  the statements. The workers of the two pools run one after the other. What a worker of the dedupe
  phase asks of the hash file is recorded by \<open>RunDedupe\<close> in order, and is carried out here when the phase is over;
  nothing reads the tables in between. Tables of duplicates on standard output are left out.
\<close>

record ('w, 's) run_env =
  run_sys :: "'w sys"
  run_xxh :: "'s xxh3"
  run_mem :: "filerecs \<Rightarrow> fptr option"
  run_addr :: "hash_tree \<Rightarrow> nat option"
  run_room :: bool
  run_rooms :: "results_tree \<Rightarrow> bool \<times> bool \<times> bool"
  run_load_rc :: "u32 \<Rightarrow> int \<times> int \<times> int"
  run_file_rc :: "int \<Rightarrow> int"
  run_op_rc :: "db_op \<Rightarrow> int"
  run_cfg_rc :: "string \<Rightarrow> int"
  run_unparse :: "u8 list \<Rightarrow> string"
  run_max_rc :: int
  run_handle :: bool
  run_extent_rc :: "fptr \<Rightarrow> u64 \<Rightarrow> int"
  run_extents_rc :: "fptr \<Rightarrow> int"
  run_row_room :: "extent_row \<Rightarrow> bool"
  run_task_room :: "fptr \<Rightarrow> bool"
  run_push :: "fptr \<Rightarrow> bool"

record 'w run_state =
  rs_db :: database
  rs_dedupe :: "'w dedupe_state"
  rs_seq :: u32
  rs_cfg :: dbfile_config

section \<open>Model\<close>

subsection \<open>The search in all files\<close>

definition load_extent_code :: "('w, 's) run_env \<Rightarrow> database \<Rightarrow> filerecs \<Rightarrow> fptr \<Rightarrow> u64 \<Rightarrow> int" where
  "load_extent_code R db st file loff = (case recs st file of
       None \<Rightarrow> 0
     | Some r \<Rightarrow> fst (dbfile_load_one_file_extent (run_extent_rc R file loff) r loff db))"

definition load_nondupe :: "('w, 's) run_env \<Rightarrow> database \<Rightarrow> filerecs \<Rightarrow> fptr \<Rightarrow> int \<times> file_extent list" where
  "load_nondupe R db st file = (case recs st file of
       None \<Rightarrow> (0, [])
     | Some r \<Rightarrow> dbfile_load_nondupe_file_extents (run_extents_rc R file) (run_row_room R) r db)"

fun find_additional_dedupe ::
    "('w, 's) run_env \<Rightarrow> u32 \<Rightarrow> bool \<Rightarrow> database \<Rightarrow> hash_tree \<times> filerecs \<Rightarrow> fptr list \<Rightarrow> results_tree \<Rightarrow> (int \<times> results_tree) option" where
  "find_additional_dedupe R bs same_file db s [] res = Some (0, res)"
| "find_additional_dedupe R bs same_file db s (file # fs) res = do {
     r \<leftarrow> recs (snd s) file;
     if fsize r = 0 then find_additional_dedupe R bs same_file db s fs res
     else if \<not> run_task_room R file then Some (ENOMEM, res)
     else if \<not> run_push R file then Some (ENOMEM, res)
     else do {
       res \<leftarrow> search_file_extents (run_xxh R) (run_rooms R) bs same_file (load_extent_code R db (snd s)) (load_nondupe R db (snd s))
         (run_handle R) s file res;
       find_additional_dedupe R bs same_file db s fs res
     }
   }"

subsection \<open>One batch\<close>

fun run_dedupe_op :: "(db_op \<Rightarrow> int) \<Rightarrow> db_op \<Rightarrow> database \<Rightarrow> database" where
  "run_dedupe_op rc (db_op.dbfile_remove_file name) db = snd (Dbfile.dbfile_remove_file (rc (db_op.dbfile_remove_file name)) name db)"
| "run_dedupe_op rc (db_op.dbfile_remove_extent_hashes fid) db =
     snd (Dbfile.dbfile_remove_extent_hashes (rc (db_op.dbfile_remove_extent_hashes fid)) fid db)"
| "run_dedupe_op rc (db_op.dbfile_update_extent_poff fid loff poff) db =
     snd (Dbfile.dbfile_update_extent_poff (rc (db_op.dbfile_update_extent_poff fid loff poff)) fid loff poff db)"

definition dedupe_phase :: "('w, 's) run_env \<Rightarrow> options \<Rightarrow> bool \<Rightarrow> database \<times> 'w dedupe_state \<Rightarrow> (database \<times> 'w dedupe_state) option" where
  "dedupe_phase R opt whole_file s = (let (db, S) = s in
     if opt_run_dedupe opt = 0 then Some (db, S)
     else do {
       S \<leftarrow> dedupe_results (run_sys R) whole_file S;
       Some (fold (run_dedupe_op (run_op_rc R)) (ds_db S) db, S\<lparr>ds_db := []\<rparr>)
     })"

text \<open>The label \<open>out\<close> of \<open>__process_duplicates\<close>.\<close>

definition free_batch :: "hash_tree \<Rightarrow> database \<times> 'w dedupe_state \<Rightarrow> (database \<times> 'w dedupe_state) option" where
  "free_batch tree s = (let (db, S) = s in do {
     res \<leftarrow> free_results_tree (ds_res S);
     (tree, st) \<leftarrow> free_hash_tree (tree, ds_files S);
     Some (db, S\<lparr>ds_res := res, ds_files := st\<rparr>)
   })"

text \<open>The second half, after the whole files.\<close>

definition process_extents_of_batch ::
    "('w, 's) run_env \<Rightarrow> options \<Rightarrow> u32 \<Rightarrow> u32 \<Rightarrow> database \<times> 'w dedupe_state \<Rightarrow> (database \<times> 'w dedupe_state) option" where
  "process_extents_of_batch R opt bs seq s = (let (db, S) = s; (_, erc, brc) = run_load_rc R (seq + 1) in do {
     (ret, st, res) \<leftarrow> dbfile_load_extent_hashes (run_mem R) (run_room R) (run_file_rc R) erc (seq + 1) db (ds_files S) init_results_tree;
     let S = S\<lparr>ds_files := st, ds_res := res\<rparr>;
     if ret \<noteq> 0 then free_batch init_hash_tree (db, S)
     else if \<not> opt_do_block_hash opt then do {
       (db, S) \<leftarrow> dedupe_phase R opt False (db, S);
       free_batch init_hash_tree (db, S)
     }
     else do {
       (ret, tree, st) \<leftarrow> dbfile_load_block_hashes (run_mem R) (run_addr R) (run_room R) (run_file_rc R) brc (seq + 1) db (init_hash_tree, st);
       let S = S\<lparr>ds_files := st\<rparr>;
       if ret \<noteq> 0 then free_batch tree (db, S)
       else do {
         (ret, res) \<leftarrow> find_additional_dedupe R bs (opt_dedupe_same_file opt) db (tree, st) (filerec_head st) res;
         let S = S\<lparr>ds_res := res\<rparr>;
         if ret \<noteq> 0 then free_batch tree (db, S)
         else do {
           (db, S) \<leftarrow> dedupe_phase R opt False (db, S);
           free_batch tree (db, S)
         }
       }
     }
   })"

text \<open>\<open>__process_duplicates\<close>\<close>

definition process_batch ::
    "('w, 's) run_env \<Rightarrow> options \<Rightarrow> u32 \<Rightarrow> u32 \<Rightarrow> database \<times> 'w dedupe_state \<Rightarrow> (database \<times> 'w dedupe_state) option" where
  "process_batch R opt bs seq s = (let (db, S) = s; (frc, _, _) = run_load_rc R (seq + 1) in do {
     (ret, st, res) \<leftarrow> dbfile_load_same_files (run_mem R) (run_room R) frc (seq + 1) db (ds_files S) init_results_tree;
     let S = S\<lparr>ds_files := st, ds_res := res\<rparr>;
     if ret \<noteq> 0 then free_batch init_hash_tree (db, S)
     else do {
       (db, S) \<leftarrow> dedupe_phase R opt True (db, S);
       res \<leftarrow> free_results_tree (ds_res S);
       let S = S\<lparr>ds_res := res\<rparr>;
       if opt_only_whole_files opt then free_batch init_hash_tree (db, S)
       else process_extents_of_batch R opt bs seq (db, S)
     }
   })"

subsection \<open>All batches\<close>

text \<open>The number of a batch is stored when it was deduplicated; the code of the statements is not looked at.\<close>

definition bump_seq :: "('w, 's) run_env \<Rightarrow> options \<Rightarrow> u32 \<Rightarrow> 'w run_state \<Rightarrow> 'w run_state" where
  "bump_seq R opt bs G =
     (if opt_run_dedupe opt = 0 then G
      else let seq = rs_seq G + 1; cfg = (rs_cfg G)\<lparr>cfg_dedupe_seq := seq, cfg_blocksize := bs\<rparr> in
        G\<lparr>rs_seq := seq, rs_cfg := cfg, rs_db := snd (dbfile_sync_config (run_cfg_rc R) (run_unparse R) cfg (rs_db G))\<rparr>)"

definition next_process :: "('w, 's) run_env \<Rightarrow> options \<Rightarrow> u32 \<Rightarrow> u32 \<Rightarrow> 'w run_state \<Rightarrow> 'w run_state option" where
  "next_process R opt bs i G = do {
     st \<leftarrow> free_all_filerecs (ds_files (rs_dedupe G));
     (db, S) \<leftarrow> process_batch R opt bs i (rs_db G, (rs_dedupe G)\<lparr>ds_files := st\<rparr>);
     Some (bump_seq R opt bs (G\<lparr>rs_db := db, rs_dedupe := S\<rparr>))
   }"

lemma next_seq: "unat i < unat m \<Longrightarrow> unat (i + 1) = unat i + 1" for i m :: u32
  using unsigned_less [where ?'a = nat and w = m] by (simp add: unat_word_ariths)

function process_batches :: "('w, 's) run_env \<Rightarrow> options \<Rightarrow> u32 \<Rightarrow> u32 \<Rightarrow> u32 \<Rightarrow> 'w run_state \<Rightarrow> 'w run_state option" where
  "process_batches R opt bs max_seq i G =
     (if i < max_seq then do {
        G \<leftarrow> next_process R opt bs i G;
        process_batches R opt bs max_seq (i + 1) G
      }
      else Some G)"
  by pat_completeness auto
termination
proof (relation "measure (\<lambda>(_, _, _, max_seq, i, _). unat max_seq - unat i)", goal_cases)
  case (2 R opt bs max_seq i G G')
  then have "unat i < unat max_seq" by (simp add: word_less_nat_alt)
  moreover from this have "unat (i + 1) = unat i + 1" by (rule next_seq)
  ultimately show ?case by simp
qed simp

declare process_batches.simps [simp del]

definition process_duplicates :: "('w, 's) run_env \<Rightarrow> options \<Rightarrow> u32 \<Rightarrow> 'w run_state \<Rightarrow> 'w run_state option" where
  "process_duplicates R opt bs G = process_batches R opt bs (get_max_dedupe_seq (run_max_rc R) (rs_db G)) (rs_seq G) G"

section \<open>Loading keeps the descriptors\<close>

lemma filerec_new_fd:
  assumes "filerec_new new dup name fid sz st = Some (x, st')" "fd_inv st"
  shows "fd_inv st'" "open_fds st' = open_fds st"
  using assms by (auto simp: filerec_new_def filerec_alloc_insert_def insert_filerec_def fd_inv_def split: option.splits if_splits bind_splits)

lemma same_files_loop_fd:
  "same_files_loop mem room rows st res = Some (ret, st', res') \<Longrightarrow> fd_inv st \<Longrightarrow> fd_inv st' \<and> open_fds st' = open_fds st"
proof (induction rows arbitrary: st res)
  case (Cons r rows)
  obtain d fo st1 where 1: "f_digest r = Some d" "(case filerec_find (f_id r) st of Some f \<Rightarrow> Some (Some f, st)
       | None \<Rightarrow> filerec_new (mem st) True (f_filename r) (f_id r) (column_int64 (f_size r)) st) = Some (fo, st1)"
    using Cons.prems(1) by (auto split: bind_splits)
  have fd: "fd_inv st1" "open_fds st1 = open_fds st" using 1(2) Cons.prems(2) filerec_new_fd by (auto split: option.splits)
  have "(case fo of None \<Rightarrow> Some (ENOMEM, st1, res) | Some f \<Rightarrow> do {
      (ret, res) \<leftarrow> insert_one_result room room res d f 0 (column_int64 (f_size r)) 0;
      if ret \<noteq> 0 then Some (ENOMEM, st1, res) else same_files_loop mem room rows st1 res }) = Some (ret, st', res')"
    using Cons.prems(1) 1 by simp
  then show ?case using fd Cons.IH [of st1] by (cases fo) (auto split: bind_splits if_splits)
qed simp

lemma find_or_load_fd:
  assumes "find_or_load mem rc fid db st = Some (ret, file, st')" "fd_inv st"
  shows "fd_inv st' \<and> open_fds st' = open_fds st"
  using assms filerec_new_fd by (auto simp: find_or_load_def dbfile_load_one_filerec_def split: option.splits if_splits bind_splits)

lemma extent_hashes_loop_fd:
  "extent_hashes_loop mem room rc db rows st res = Some (ret, st', res') \<Longrightarrow> fd_inv st \<Longrightarrow> fd_inv st' \<and> open_fds st' = open_fds st"
proof (induction rows arbitrary: st res)
  case (Cons e rows)
  obtain r fo st1 where 1: "find_or_load mem (rc (er_fileid e)) (er_fileid e) db st = Some (r, fo, st1)"
    using Cons.prems(1) by (auto split: bind_splits)
  then show ?case using Cons.prems(1) find_or_load_fd [OF 1 Cons.prems(2)] Cons.IH [of st1] by (auto split: bind_splits option.splits if_splits)
qed simp

section \<open>Hash files whose groups fit\<close>

text \<open>
  The bounds under which the dedupe phase is safe, on the rows: no more than 120 files or extents of one
  digest and length, lengths below 4 GiB, no extent at the end of the address space, and batches whose
  number fits an \<open>int\<close>.
\<close>

definition file_key :: "file_row \<Rightarrow> u64 \<times> digest option" where
  "file_key r = (column_int64 (f_size r), f_digest r)"

definition extent_key :: "extent_row \<Rightarrow> group_key" where
  "extent_key e = (column_int64 (er_len e), er_digest e)"

definition file_fits :: "file_row list \<Rightarrow> file_row \<Rightarrow> bool" where
  "file_fits rows r \<longleftrightarrow> 0 \<le> f_dedupe_seq r \<and> f_dedupe_seq r < 2 ^ 31 \<and>
     (f_digest r \<noteq> None \<longrightarrow> 0 < column_int64 (f_size r) \<and> column_int64 (f_size r) < 2 ^ 32 \<and>
       length (filter (\<lambda>q. file_key q = file_key r) rows) \<le> 120)"

definition extent_fits :: "extent_row list \<Rightarrow> extent_row \<Rightarrow> bool" where
  "extent_fits rows e \<longleftrightarrow> 0 < column_int64 (er_len e) \<and> column_int64 (er_len e) < 2 ^ 32 \<and>
     column_int64 (er_loff e) < column_int64 (er_loff e) + column_int64 (er_len e) \<and>
     length (filter (\<lambda>x. extent_key x = extent_key e) rows) \<le> 120"

definition db_fits :: "database \<Rightarrow> bool" where
  "db_fits db \<longleftrightarrow> length (files db) < 2 ^ 31 \<and> length (extents db) < 2 ^ 31 \<and>
     (\<forall>r \<in> set (files db). file_fits (files db) r) \<and> (\<forall>e \<in> set (extents db). extent_fits (extents db) e)"

lemma filter_filter_length: "length (filter P (filter Q xs)) \<le> length (filter P xs)"
  by (induction xs) auto

lemma file_fits_filter: "file_fits rows r \<Longrightarrow> file_fits (filter P rows) r"
  using filter_filter_length [of "\<lambda>q. file_key q = file_key r" P rows] by (auto simp: file_fits_def simp del: filter_filter)

lemma extent_fits_filter: "extent_fits rows e \<Longrightarrow> extent_fits (filter P rows) e"
  using filter_filter_length [of "\<lambda>x. extent_key x = extent_key e" P rows] by (auto simp: extent_fits_def simp del: filter_filter)

lemma db_fits_filter:
  assumes "db_fits db" "files db' = filter P (files db)" "extents db' = filter Q (extents db)"
  shows "db_fits db'"
proof -
  have "length (files db') < 2 ^ 31" "length (extents db') < 2 ^ 31"
    using assms order.strict_trans1 [OF length_filter_le] by (auto simp: db_fits_def)
  then show ?thesis using assms file_fits_filter extent_fits_filter by (simp add: db_fits_def)
qed

lemma db_fits_poff:
  assumes "db_fits db" "files db' = files db" "extents db' = map f (extents db)"
    and "\<And>e. er_len (f e) = er_len e" "\<And>e. er_loff (f e) = er_loff e" "\<And>e. er_digest (f e) = er_digest e"
  shows "db_fits db'"
proof -
  have "length (filter (\<lambda>x. extent_key x = extent_key (f e)) (map f (extents db))) = length (filter (\<lambda>x. extent_key x = extent_key e) (extents db))" for e
    using assms(4,6) by (simp add: filter_map comp_def extent_key_def)
  then show ?thesis using assms by (simp add: db_fits_def extent_fits_def)
qed

lemma run_dedupe_op_ok:
  assumes "db_reachable db" "db_fits db"
  shows "db_reachable (run_dedupe_op rc op db)" "db_fits (run_dedupe_op rc op db)" "set (files (run_dedupe_op rc op db)) \<subseteq> set (files db)"
proof -
  show "db_reachable (run_dedupe_op rc op db)"
    by (cases op) (auto intro!: db_reachable_step [OF assms(1)] intro: db_step.intros)
  show "set (files (run_dedupe_op rc op db)) \<subseteq> set (files db)"
    by (cases op) (auto simp: Dbfile.dbfile_remove_file_def Dbfile.dbfile_remove_extent_hashes_def Dbfile.dbfile_update_extent_poff_def)
  show "db_fits (run_dedupe_op rc op db)"
  proof (cases op)
    case (dbfile_remove_file name)
    then show ?thesis using assms(2) by (auto simp: Dbfile.dbfile_remove_file_def delete_files_def Let_def intro: db_fits_filter)
  next
    case (dbfile_remove_extent_hashes fid)
    then show ?thesis using assms(2) db_fits_filter [OF assms(2), of _ "\<lambda>_. True"] by (simp add: Dbfile.dbfile_remove_extent_hashes_def)
  next
    case (dbfile_update_extent_poff fid loff poff)
    let ?f = "\<lambda>e. if er_fileid e = fid \<and> er_loff e = bind_int64 loff then e\<lparr>er_poff := bind_int64 poff\<rparr> else e"
    have "db_fits (db\<lparr>extents := map ?f (extents db)\<rparr>)" by (rule db_fits_poff [OF assms(2), where f = ?f]) simp_all
    then show ?thesis using dbfile_update_extent_poff assms(2) by (simp add: Dbfile.dbfile_update_extent_poff_def)
  qed
qed

lemma run_dedupe_ops_ok:
  "db_reachable db \<Longrightarrow> db_fits db \<Longrightarrow> db_reachable (fold (run_dedupe_op rc) ops db) \<and> db_fits (fold (run_dedupe_op rc) ops db) \<and>
     set (files (fold (run_dedupe_op rc) ops db)) \<subseteq> set (files db)"
proof (induction ops arbitrary: db)
  case (Cons op ops)
  from Cons.IH [OF run_dedupe_op_ok(1,2) [OF Cons.prems]] show ?case using run_dedupe_op_ok(3) [OF Cons.prems, of rc op] by auto
qed simp

section \<open>What is loaded fits\<close>

lemma dup_files_in: "r \<in> set (get_duplicate_files seq db) \<Longrightarrow> r \<in> set (files db)"
  unfolding get_duplicate_files_def batch_dups_iff by blast

lemma dup_extents_length:
  assumes "db_inv db"
  shows "length (get_duplicate_extents seq db) \<le> length (extents db)"
proof -
  let ?key = "\<lambda>e. (er_fileid e, er_loff e, er_len e)"
  let ?keys = "map (\<lambda>(e, r). ?key e) (extents_with_files db)"
  have "set ?keys \<subseteq> ?key ` set (extents db)" by (auto simp: extents_with_files_def)
  then have "card (set ?keys) \<le> card (?key ` set (extents db))" by (intro card_mono) auto
  also have "\<dots> \<le> length (map ?key (extents db))" using card_length [of "map ?key (extents db)"] by simp
  finally have "card (set ?keys) \<le> length (extents db)" by simp
  then have "length (extents_with_files db) \<le> length (extents db)" using distinct_card [OF joined_extents_distinct [OF assms]] by simp
  moreover have "length (get_duplicate_extents seq db) \<le> length (extents_with_files db)"
    unfolding get_duplicate_extents_def batch_dups_def Let_def length_map by (rule length_filter_le)
  ultimately show ?thesis by simp
qed

lemma card_group:
  assumes "X `` {g} \<subseteq> h ` {x \<in> set rows. P x}" "length (filter P rows) \<le> 120"
  shows "card (X `` {g}) \<le> 120"
proof -
  have "card (X `` {g}) \<le> card (h ` {x \<in> set rows. P x})" using assms(1) by (intro card_mono) auto
  also have "\<dots> \<le> card (set (filter P rows))" by (simp add: card_image_le)
  also have "\<dots> \<le> length (filter P rows)" by (rule card_length)
  finally show ?thesis using assms(2) by simp
qed

lemma load_files_fits:
  assumes db: "db_inv db" "db_fits db" and st: "mem_ok mem" "filerecs_inv st" "fd_inv st"
  shows "\<exists>st' res'. dbfile_load_same_files mem True 0 seq db st init_results_tree = Some (0, st', res') \<and> filerecs_inv st' \<and> fd_inv st' \<and>
    open_fds st' = open_fds st \<and> tree_fits st' res' \<and> (\<forall>g. card (res_extents res' `` {g}) \<noteq> 1)"
proof -
  have len: "length (get_duplicate_files seq db) < 2 ^ 31" using dup_files_length [of seq db] db(2) by (simp add: db_fits_def)
  obtain st' res' where l: "dbfile_load_same_files mem True 0 seq db st init_results_tree = Some (0, st', res')" "filerecs_inv st'" "res_inv res'"
      "res_extents res' = (\<Union>r \<in> set (get_duplicate_files seq db). group_of_row st' r)" "\<forall>g. card (res_extents res' `` {g}) \<noteq> 1"
    using load_same_files_ok [OF st(1,2) db(1) len] by blast
  have fd: "fd_inv st' \<and> open_fds st' = open_fds st" using same_files_loop_fd [OF _ st(3)] l(1) by (auto simp: dbfile_load_same_files_def)
  have "tree_fits st' res'"
    unfolding tree_fits_def
  proof (intro conjI allI impI l(3))
    fix g k assume "(g, k) \<in> res_extents res'"
    then obtain r d f where r: "r \<in> set (get_duplicate_files seq db)" "g = (column_int64 (f_size r), d)" "k = (f, 0)" "f_digest r = Some d"
        "filerec_find (f_id r) st' = Some f"
      unfolding l(4) group_of_row_def by blast
    have fit: "file_fits (files db) r" using db(2) dup_files_in [OF r(1)] by (simp add: db_fits_def)
    then show "0 < fst g" "fst g < 2 ^ 32" using r by (simp_all add: file_fits_def)
    show "fst k \<in> dom (recs st')" using filerec_find_Some [OF l(2)] r(3,5) by auto
    show "snd k < snd k + fst g" using fit r by (simp add: file_fits_def)
    have "res_extents res' `` {g} \<subseteq> (\<lambda>r. (the (filerec_find (f_id r) st'), 0)) ` {q \<in> set (files db). file_key q = file_key r}"
      using r(2,4) dup_files_in unfolding l(4) group_of_row_def file_key_def by (fastforce simp: image_iff)
    then show "card (res_extents res' `` {g}) \<le> 120" by (rule card_group) (use fit r(4) in \<open>simp add: file_fits_def\<close>)
  qed
  with l fd show ?thesis by blast
qed

lemma load_extents_fits:
  assumes db: "db_inv db" "in_64_bits db" "db_fits db" and st: "mem_ok mem" "filerecs_inv st" "fd_inv st"
  shows "\<exists>st' res'. dbfile_load_extent_hashes mem True (\<lambda>_. 0) 0 seq db st init_results_tree = Some (0, st', res') \<and> filerecs_inv st' \<and> fd_inv st' \<and>
    open_fds st' = open_fds st \<and> tree_fits st' res' \<and> (\<forall>g. card (res_extents res' `` {g}) \<noteq> 1)"
proof -
  have len: "length (get_duplicate_extents seq db) < 2 ^ 31" using dup_extents_length [OF db(1), of seq] db(3) by (simp add: db_fits_def)
  obtain st' res' where l: "dbfile_load_extent_hashes mem True (\<lambda>_. 0) 0 seq db st init_results_tree = Some (0, st', res')" "filerecs_inv st'" "res_inv res'"
      "res_extents res' = (\<Union>e \<in> set (get_duplicate_extents seq db). group_of_extent st' e)" "\<forall>g. card (res_extents res' `` {g}) \<noteq> 1"
    using load_extent_hashes_ok [OF st(1,2) db(1,2) len] by blast
  have fd: "fd_inv st' \<and> open_fds st' = open_fds st" using extent_hashes_loop_fd [OF _ st(3)] l(1) by (auto simp: dbfile_load_extent_hashes_def)
  have "tree_fits st' res'"
    unfolding tree_fits_def
  proof (intro conjI allI impI l(3))
    fix g k assume "(g, k) \<in> res_extents res'"
    then obtain e f where e: "e \<in> set (get_duplicate_extents seq db)" "g = extent_key e" "k = (f, column_int64 (er_loff e))" "filerec_find (er_fileid e) st' = Some f"
      unfolding l(4) group_of_extent_def extent_key_def by blast
    have fit: "extent_fits (extents db) e" using db(3) dup_extents_in [OF e(1)] by (simp add: db_fits_def)
    then show "0 < fst g" "fst g < 2 ^ 32" "snd k < snd k + fst g" using e by (simp_all add: extent_fits_def extent_key_def)
    show "fst k \<in> dom (recs st')" using filerec_find_Some [OF l(2)] e(3,4) by auto
    have "res_extents res' `` {g} \<subseteq> (\<lambda>x. (the (filerec_find (er_fileid x) st'), column_int64 (er_loff x))) ` {x \<in> set (extents db). extent_key x = extent_key e}"
      using e(2) dup_extents_in unfolding l(4) group_of_extent_def extent_key_def by (fastforce simp: image_iff)
    then show "card (res_extents res' `` {g}) \<le> 120" by (rule card_group) (use fit in \<open>simp add: extent_fits_def\<close>)
  qed
  with l fd show ?thesis by blast
qed

section \<open>One batch\<close>

text \<open>The calls of the load succeed; the kernel and the allocations of the dedupe phase are as \<open>dedupe_sys_ok\<close> says.\<close>

definition run_ok :: "('w, 's) run_env \<Rightarrow> bool" where
  "run_ok R \<longleftrightarrow> dedupe_sys_ok (run_sys R) \<and> mem_ok (run_mem R) \<and> run_room R \<and> (\<forall>seq. run_load_rc R seq = (0, 0, 0)) \<and>
     run_file_rc R = (\<lambda>_. 0) \<and> run_max_rc R = 0 \<and> run_cfg_rc R = (\<lambda>_. 0)"

text \<open>The state between two batches.\<close>

definition batch_inv :: "int set \<Rightarrow> database \<times> 'w dedupe_state \<Rightarrow> bool" where
  "batch_inv fds s \<longleftrightarrow> (case s of (db, S) \<Rightarrow> db_reachable db \<and> db_fits db \<and> filerecs_inv (ds_files S) \<and> fd_inv (ds_files S) \<and>
     open_fds (ds_files S) = fds \<and> (ds_fs_blocksize S = 0 \<or> block_size_ok (ds_fs_blocksize S)) \<and> ds_db S = [])"

lemma free_empty_tree [simp]: "free_hash_tree (init_hash_tree, st) = Some (init_hash_tree, st)"
  by (subst free_hash_tree.simps) (simp add: rb_first_def init_hash_tree_def)

lemma free_batch_ok: "res_inv (ds_res S) \<Longrightarrow> free_batch init_hash_tree (db, S) = Some (db, S\<lparr>ds_res := init_results_tree\<rparr>)"
  by (simp add: free_batch_def free_results_tree_ok)

lemma groups_of_two:
  assumes "\<forall>g. card (res_extents res `` {g}) \<noteq> 1"
  shows "{(g, k) \<in> res_extents res. card (res_extents res `` {g}) < 2} = {}"
proof -
  have "\<not> card (res_extents res `` {g}) < 2" if "(g, k) \<in> res_extents res" for g k
  proof -
    have "finite (res_extents res `` {g})" "k \<in> res_extents res `` {g}" using that finite_Image [OF finite_res_extents] by auto
    then have "card (res_extents res `` {g}) \<noteq> 0" by auto
    then show ?thesis using assms [rule_format, of g] by linarith
  qed
  then show ?thesis by blast
qed

lemma dedupe_phase_ok:
  assumes "run_ok R" "batch_inv fds (db, S)" "tree_fits (ds_files S) (ds_res S)" "\<forall>g. card (res_extents (ds_res S) `` {g}) \<noteq> 1"
  shows "\<exists>db' S'. dedupe_phase R opt whole_file (db, S) = Some (db', S') \<and> batch_inv fds (db', S') \<and> res_inv (ds_res S') \<and>
    set (files db') \<subseteq> set (files db) \<and> (opt_run_dedupe opt = 0 \<longrightarrow> db' = db) \<and>
    (opt_run_dedupe opt \<noteq> 0 \<and> alloc_ok (run_sys R) \<longrightarrow> res_extents (ds_res S') = {})"
proof (cases "opt_run_dedupe opt = 0")
  case True
  then show ?thesis using assms(2,3) by (simp add: dedupe_phase_def tree_fits_def)
next
  case False
  note inv = assms(2) [unfolded batch_inv_def prod.case]
  obtain S' where S': "dedupe_results (run_sys R) whole_file S = Some S'" "ds_files S' = ds_files S" "res_inv (ds_res S')"
      "ds_fs_blocksize S' = 0 \<or> block_size_ok (ds_fs_blocksize S')"
      "alloc_ok (run_sys R) \<longrightarrow> res_extents (ds_res S') = {(g, k) \<in> res_extents (ds_res S). card (res_extents (ds_res S) `` {g}) < 2}"
    using dedupe_results_ok [of "run_sys R" S whole_file] assms(1,3) inv unfolding run_ok_def by blast
  let ?db = "fold (run_dedupe_op (run_op_rc R)) (ds_db S') db"
  have ops: "db_reachable ?db \<and> db_fits ?db \<and> set (files ?db) \<subseteq> set (files db)" using run_dedupe_ops_ok inv by blast
  have "alloc_ok (run_sys R) \<longrightarrow> res_extents (ds_res S') = {}" using S'(5) groups_of_two [OF assms(4)] by simp
  then show ?thesis using False S' ops inv by (simp add: dedupe_phase_def batch_inv_def)
qed

lemma process_extents_ok:
  assumes R: "run_ok R" and inv: "batch_inv fds (db, S)" and opt: "\<not> opt_do_block_hash opt"
  shows "\<exists>db' S'. process_extents_of_batch R opt bs seq (db, S) = Some (db', S') \<and> batch_inv fds (db', S') \<and> ds_res S' = init_results_tree \<and>
    set (files db') \<subseteq> set (files db) \<and> (opt_run_dedupe opt = 0 \<longrightarrow> db' = db)"
proof -
  note i = inv [unfolded batch_inv_def prod.case] and r = R [unfolded run_ok_def]
  obtain st res where l: "dbfile_load_extent_hashes (run_mem R) True (\<lambda>_. 0) 0 (seq + 1) db (ds_files S) init_results_tree = Some (0, st, res)"
      "filerecs_inv st" "fd_inv st" "open_fds st = open_fds (ds_files S)" "tree_fits st res" "\<forall>g. card (res_extents res `` {g}) \<noteq> 1"
    using load_extents_fits [of db "run_mem R" "ds_files S" "seq + 1"] db_reachable_ok i r by blast
  let ?S = "S\<lparr>ds_files := st, ds_res := res\<rparr>"
  have "batch_inv fds (db, ?S)" using i l by (simp add: batch_inv_def)
  then obtain db' S' where d: "dedupe_phase R opt False (db, ?S) = Some (db', S')" "batch_inv fds (db', S')" "res_inv (ds_res S')"
      "set (files db') \<subseteq> set (files db)" "opt_run_dedupe opt = 0 \<longrightarrow> db' = db"
    using dedupe_phase_ok [OF R, of fds db ?S opt False] l(5,6) by auto
  have "process_extents_of_batch R opt bs seq (db, S) = Some (db', S'\<lparr>ds_res := init_results_tree\<rparr>)"
    using l(1) r opt d(1) free_batch_ok [OF d(3)] by (simp add: process_extents_of_batch_def)
  then show ?thesis using d by (simp add: batch_inv_def)
qed

lemma process_batch_ok:
  assumes R: "run_ok R" and inv: "batch_inv fds (db, S)" and opt: "\<not> opt_do_block_hash opt"
  shows "\<exists>db' S'. process_batch R opt bs seq (db, S) = Some (db', S') \<and> batch_inv fds (db', S') \<and> ds_res S' = init_results_tree \<and>
    set (files db') \<subseteq> set (files db) \<and> (opt_run_dedupe opt = 0 \<longrightarrow> db' = db)"
proof -
  note i = inv [unfolded batch_inv_def prod.case] and r = R [unfolded run_ok_def]
  obtain st res where l: "dbfile_load_same_files (run_mem R) True 0 (seq + 1) db (ds_files S) init_results_tree = Some (0, st, res)"
      "filerecs_inv st" "fd_inv st" "open_fds st = open_fds (ds_files S)" "tree_fits st res" "\<forall>g. card (res_extents res `` {g}) \<noteq> 1"
    using load_files_fits [of db "run_mem R" "ds_files S" "seq + 1"] db_reachable_ok i r by blast
  let ?S = "S\<lparr>ds_files := st, ds_res := res\<rparr>"
  have "batch_inv fds (db, ?S)" using i l by (simp add: batch_inv_def)
  then obtain db1 S1 where d: "dedupe_phase R opt True (db, ?S) = Some (db1, S1)" "batch_inv fds (db1, S1)" "res_inv (ds_res S1)"
      "set (files db1) \<subseteq> set (files db)" "opt_run_dedupe opt = 0 \<longrightarrow> db1 = db"
    using dedupe_phase_ok [OF R, of fds db ?S opt True] l(5,6) by auto
  let ?S1 = "S1\<lparr>ds_res := init_results_tree\<rparr>"
  have b: "batch_inv fds (db1, ?S1)" using d(2) by (simp add: batch_inv_def)
  have eq: "process_batch R opt bs seq (db, S) =
      (if opt_only_whole_files opt then free_batch init_hash_tree (db1, ?S1) else process_extents_of_batch R opt bs seq (db1, ?S1))"
    using l(1) r d(1) free_results_tree_ok [OF d(3)] by (simp add: process_batch_def)
  show ?thesis
  proof (cases "opt_only_whole_files opt")
    case True
    then show ?thesis using eq free_batch_ok [of ?S1 db1] init_results_inv(1) b d(4,5) by simp
  next
    case False
    then show ?thesis using eq process_extents_ok [OF R b opt, of bs seq] d(4,5) by auto
  qed
qed

section \<open>All batches\<close>

definition run_inv :: "int set \<Rightarrow> 'w run_state \<Rightarrow> bool" where
  "run_inv fds G \<longleftrightarrow> batch_inv fds (rs_db G, rs_dedupe G)"

lemma sync_keeps_batch_inv:
  assumes "batch_inv fds (db, S)"
  shows "batch_inv fds (snd (dbfile_sync_config rc unparse cfg db), S)"
proof -
  have "db_reachable (snd (dbfile_sync_config rc unparse cfg db))"
    by (rule db_reachable_step [of db], use assms in \<open>simp add: batch_inv_def\<close>, rule db_step.sync_cfg)
  moreover have "db_fits (snd (dbfile_sync_config rc unparse cfg db))"
    using assms by (simp add: batch_inv_def db_fits_def dbfile_sync_config_def sync_rows_tables)
  ultimately show ?thesis using assms by (simp add: batch_inv_def)
qed

lemma next_process_ok:
  assumes R: "run_ok R" and inv: "run_inv fds G" and opt: "\<not> opt_do_block_hash opt" "opt_run_dedupe opt \<noteq> 0"
  shows "\<exists>db S. next_process R opt bs i G = Some (bump_seq R opt bs (G\<lparr>rs_db := db, rs_dedupe := S\<rparr>)) \<and> batch_inv fds (db, S) \<and>
    set (files db) \<subseteq> set (files (rs_db G))"
proof -
  have fi: "filerecs_inv (ds_files (rs_dedupe G))" using inv by (simp add: run_inv_def batch_inv_def)
  let ?st = "no_filerecs\<lparr>open_fds := open_fds (ds_files (rs_dedupe G))\<rparr>"
  have "filerecs_inv ?st" "fd_inv ?st" using no_filerecs_fdupes_inv by (auto simp: fdupes_inv_def)
  then have "batch_inv fds (rs_db G, (rs_dedupe G)\<lparr>ds_files := ?st\<rparr>)" using inv by (simp add: run_inv_def batch_inv_def)
  from process_batch_ok [OF R this opt(1), of bs i] obtain db S where
    "process_batch R opt bs i (rs_db G, (rs_dedupe G)\<lparr>ds_files := ?st\<rparr>) = Some (db, S)" "batch_inv fds (db, S)" "set (files db) \<subseteq> set (files (rs_db G))"
    by blast
  then show ?thesis using free_all_filerecs_ok [OF fi] by (intro exI [of _ db] exI [of _ S]) (simp add: next_process_def)
qed

lemma process_batches_ok:
  assumes R: "run_ok R" and opt: "\<not> opt_do_block_hash opt" "opt_run_dedupe opt \<noteq> 0"
  shows "run_inv fds G \<Longrightarrow> rs_seq G = i \<Longrightarrow> i \<le> m \<Longrightarrow> \<exists>G'. process_batches R opt bs m i G = Some G' \<and> run_inv fds G' \<and> rs_seq G' = m \<and>
    set (files (rs_db G')) \<subseteq> set (files (rs_db G)) \<and>
    (i < m \<longrightarrow> (\<exists>db. rs_db G' = snd (dbfile_sync_config (\<lambda>_. 0) (run_unparse R) (rs_cfg G') db))) \<and>
    (i < m \<longrightarrow> rs_cfg G' = (rs_cfg G)\<lparr>cfg_dedupe_seq := m, cfg_blocksize := bs\<rparr>)"
proof (induction "unat m - unat i" arbitrary: i G rule: less_induct)
  case less
  show ?case
  proof (cases "i < m")
    case True
    then have lt: "unat i < unat m" by (simp add: word_less_nat_alt)
    note nx = next_seq [OF lt]
    obtain db S where n: "next_process R opt bs i G = Some (bump_seq R opt bs (G\<lparr>rs_db := db, rs_dedupe := S\<rparr>))" "batch_inv fds (db, S)"
        "set (files db) \<subseteq> set (files (rs_db G))"
      using next_process_ok [OF R less.prems(1) opt] by blast
    define cfg where "cfg = (rs_cfg G)\<lparr>cfg_dedupe_seq := i + 1, cfg_blocksize := bs\<rparr>"
    define G1 where "G1 = bump_seq R opt bs (G\<lparr>rs_db := db, rs_dedupe := S\<rparr>)"
    have G1: "rs_seq G1 = i + 1" "rs_cfg G1 = cfg" "rs_dedupe G1 = S" "rs_db G1 = snd (dbfile_sync_config (\<lambda>_. 0) (run_unparse R) cfg db)"
      using opt(2) less.prems(2) R by (simp_all add: G1_def bump_seq_def cfg_def run_ok_def Let_def)
    have "run_inv fds G1" unfolding run_inv_def G1(3,4) by (rule sync_keeps_batch_inv [OF n(2)])
    moreover have "i + 1 \<le> m" using lt nx by (simp add: word_le_nat_alt)
    moreover have "unat m - unat (i + 1) < unat m - unat i" using lt nx by simp
    ultimately obtain G' where G': "process_batches R opt bs m (i + 1) G1 = Some G'" "run_inv fds G'" "rs_seq G' = m"
        "set (files (rs_db G')) \<subseteq> set (files (rs_db G1))"
        "i + 1 < m \<longrightarrow> (\<exists>db. rs_db G' = snd (dbfile_sync_config (\<lambda>_. 0) (run_unparse R) (rs_cfg G') db))"
        "i + 1 < m \<longrightarrow> rs_cfg G' = (rs_cfg G1)\<lparr>cfg_dedupe_seq := m, cfg_blocksize := bs\<rparr>"
      using less.hyps [of "i + 1" G1] G1(1) by blast
    have eq: "process_batches R opt bs m i G = Some G'"
      using True n(1) G'(1) by (subst process_batches.simps) (simp add: G1_def)
    have fs: "set (files (rs_db G')) \<subseteq> set (files (rs_db G))"
      using G'(4) n(3) unfolding G1(4) dbfile_sync_config_def sync_rows_tables by blast
    show ?thesis
    proof (cases "i + 1 < m")
      case True
      then show ?thesis using eq fs G' G1(2) by (intro exI [of _ G']) (simp add: cfg_def)
    next
      case False
      then have "i + 1 = m" using \<open>i + 1 \<le> m\<close> by simp
      moreover from this have "G' = G1" using G'(1) False by (subst (asm) process_batches.simps) simp
      ultimately show ?thesis using eq fs G'(2,3) G1 by (intro exI [of _ G1]) (auto simp: cfg_def)
    qed
  next
    case False
    then have "i = m" using less.prems(3) by simp
    then show ?thesis using less.prems by (subst process_batches.simps) simp
  qed
qed

lemma max_seq_mono:
  assumes "db_fits db" "set (files db') \<subseteq> set (files db)"
  shows "get_max_dedupe_seq 0 db' \<le> get_max_dedupe_seq 0 db"
proof (cases "files db' = []")
  case False
  then have ne: "files db \<noteq> []" using assms(2) by auto
  let ?m = "Max (f_dedupe_seq ` set (files db))" and ?m' = "Max (f_dedupe_seq ` set (files db'))"
  have "?m \<in> f_dedupe_seq ` set (files db)" "?m' \<in> f_dedupe_seq ` set (files db')" using False ne by (simp_all add: Max_in)
  moreover have seqs: "0 \<le> x \<and> x < 2 ^ 31" if "x \<in> f_dedupe_seq ` set (files db)" for x
    using that assms(1) by (auto simp: db_fits_def file_fits_def)
  ultimately have b: "0 \<le> ?m" "?m < 2 ^ 31" "0 \<le> ?m'" "?m' < 2 ^ 31" using assms(2) by (auto intro: seqs)
  have "?m' \<le> ?m" using assms(2) False by (intro Max_mono image_mono) auto
  then have "(word_of_int ?m' :: u32) \<le> word_of_int ?m" using b by (simp add: word_le_def uint_word_of_int)
  then show ?thesis using False ne by (simp add: get_max_dedupe_seq_def)
qed (simp add: get_max_dedupe_seq_def)

section \<open>The search in all files\<close>

text \<open>The statements, the allocations and the pool of the search do not fail.\<close>

definition search_ok :: "('w, 's) run_env \<Rightarrow> bool" where
  "search_ok R \<longleftrightarrow> run_rooms R = (\<lambda>_. (True, True, True)) \<and> run_handle R \<and> (\<forall>f off. run_extent_rc R f off = 0) \<and> (\<forall>f. run_extents_rc R f = 0) \<and>
     (\<forall>e. run_row_room R e) \<and> (\<forall>f. run_task_room R f \<and> run_push R f)"

definition file_finds :: "('w, 's) run_env \<Rightarrow> u32 \<Rightarrow> bool \<Rightarrow> database \<Rightarrow> hash_tree \<times> filerecs \<Rightarrow> fptr \<Rightarrow> (group_key \<times> ext_key) set" where
  "file_finds R bs same_file db s f = (\<Union>x \<in> set (snd (load_nondupe R db (snd s) f)). extent_finds (run_xxh R) bs same_file s f x)"

lemma find_additional_ok:
  assumes R: "search_ok R" and inv: "hash_inv (tree, st)"
  shows "set fs \<subseteq> dom (recs st) \<Longrightarrow> res_inv res \<Longrightarrow> search_room tree res \<Longrightarrow>
    \<exists>res'. find_additional_dedupe R bs same_file db (tree, st) fs res = Some (0, res') \<and> res_inv res' \<and>
      res_extents res' = res_extents res \<union> (\<Union>f \<in> {f \<in> set fs. \<exists>r. recs st f = Some r \<and> fsize r \<noteq> 0}. file_finds R bs same_file db (tree, st) f)"
proof (induction fs arbitrary: res)
  case (Cons f fs)
  obtain r where r: "recs st f = Some r" using Cons.prems(1) by auto
  note r' = R [unfolded search_ok_def]
  show ?case
  proof (cases "fsize r = 0")
    case True
    have "{g \<in> set (f # fs). \<exists>r. recs st g = Some r \<and> fsize r \<noteq> 0} = {g \<in> set fs. \<exists>r. recs st g = Some r \<and> fsize r \<noteq> 0}" using r True by auto
    then show ?thesis using Cons r True by simp
  next
    case False
    have load: "load_extent_code R db st g off = 0" for g off
      using r' by (auto simp: load_extent_code_def dbfile_load_one_file_extent_def split: option.splits list.splits)
    have ne: "fst (load_nondupe R db st f) = 0" using r' r by (simp add: load_nondupe_def dbfile_load_nondupe_file_extents_def Let_def)
    obtain res1 where s: "search_all (run_xxh R) (\<lambda>_. (True, True, True)) bs same_file (load_extent_code R db st) (tree, st) f (snd (load_nondupe R db st f)) res = Some res1"
        "res_inv res1" "search_room tree res1" "res_extents res1 = res_extents res \<union> file_finds R bs same_file db (tree, st) f"
      using search_all_ok [where load_extent = "load_extent_code R db st" and xs = "snd (load_nondupe R db st f)" and X = "run_xxh R" and B = bs and same_file = same_file,
          OF inv domI [of "recs st", OF r] load Cons.prems(2,3)] unfolding file_finds_def snd_conv by blast
    have "search_file_extents (run_xxh R) (run_rooms R) bs same_file (load_extent_code R db st) (load_nondupe R db st) (run_handle R) (tree, st) f res = Some res1"
      using s(1) r' ne by (cases "load_nondupe R db st f") (auto simp: search_file_extents_def)
    moreover obtain res2 where "find_additional_dedupe R bs same_file db (tree, st) fs res1 = Some (0, res2)" "res_inv res2"
        "res_extents res2 = res_extents res1 \<union> (\<Union>f \<in> {f \<in> set fs. \<exists>r. recs st f = Some r \<and> fsize r \<noteq> 0}. file_finds R bs same_file db (tree, st) f)"
      using Cons.IH [OF _ s(2,3)] Cons.prems(1) by auto
    moreover have "{g \<in> set (f # fs). \<exists>r. recs st g = Some r \<and> fsize r \<noteq> 0} = insert f {g \<in> set fs. \<exists>r. recs st g = Some r \<and> fsize r \<noteq> 0}" using r False by auto
    ultimately show ?thesis using r False r' s(4) by (simp add: Un_assoc)
  qed
qed simp

text \<open>
  C17. The search for duplicates inside extents, over all files that were loaded: when no statement and no
  allocation fails it returns, nothing aborts, and it adds to the results tree exactly what the comparisons
  find for the extents without a duplicate of every file that is not empty. A group only gets extents that start at
  a block of the hash tree, so the bound on the counters does not depend on how many extents are searched.
\<close>

theorem find_additional_dedupe_correct:
  assumes "search_ok R" "hash_inv (tree, st)" "filerecs_inv st" "res_inv res" "search_room tree res"
  shows "\<exists>res'. find_additional_dedupe R bs same_file db (tree, st) (filerec_head st) res = Some (0, res') \<and> res_inv res' \<and>
    res_extents res' = res_extents res \<union> (\<Union>f \<in> {f. \<exists>r. recs st f = Some r \<and> fsize r \<noteq> 0}. file_finds R bs same_file db (tree, st) f)"
proof -
  have h: "set (filerec_head st) = dom (recs st)" using assms(3) by (simp add: filerecs_inv_def)
  then have "{f \<in> set (filerec_head st). \<exists>r. recs st f = Some r \<and> fsize r \<noteq> 0} = {f. \<exists>r. recs st f = Some r \<and> fsize r \<noteq> 0}" by auto
  with find_additional_ok [OF assms(1,2) _ assms(4,5), of "filerec_head st" bs same_file db] h show ?thesis by simp
qed

section \<open>The properties of a run\<close>

text \<open>
  C14. What a batch loads is worked off. In a hash file of less than 2^31 rows whose files and extents that have a digest are not empty,
  smaller than 4 GiB and end below 2^64, and in which at most 120 of them share size and digest: the groups of equal files that
  \<open>dbfile_load_same_files\<close> puts into the results tree, and the groups of equal extents of
  \<open>dbfile_load_extent_hashes\<close>, meet everything that \<open>dedupe_results\<close> takes for granted, so it returns, and when
  the allocations of its requests succeed no group is left. No group that was loaded has a
  single member, which would be passed over. The statements and the allocations of the load succeed here, and so
  does that of the extent maps; the kernel keeps its contract.
\<close>

theorem batch_worked_off:
  assumes "dedupe_sys_ok E" "mem_ok mem" "db_reachable db" "db_fits db" "filerecs_inv (ds_files S)" "fd_inv (ds_files S)"
    and "ds_fs_blocksize S = 0 \<or> block_size_ok (ds_fs_blocksize S)"
  shows "(\<exists>st res S'. dbfile_load_same_files mem True 0 seq db (ds_files S) init_results_tree = Some (0, st, res) \<and>
      dedupe_results E True (S\<lparr>ds_files := st, ds_res := res\<rparr>) = Some S' \<and> (alloc_ok E \<longrightarrow> res_extents (ds_res S') = {}) \<and>
      (\<forall>g. card (res_extents res `` {g}) \<noteq> 1) \<and> open_fds (ds_files S') = open_fds (ds_files S)) \<and>
    (\<exists>st res S'. dbfile_load_extent_hashes mem True (\<lambda>_. 0) 0 seq db (ds_files S) init_results_tree = Some (0, st, res) \<and>
      dedupe_results E False (S\<lparr>ds_files := st, ds_res := res\<rparr>) = Some S' \<and> (alloc_ok E \<longrightarrow> res_extents (ds_res S') = {}) \<and>
      (\<forall>g. card (res_extents res `` {g}) \<noteq> 1) \<and> open_fds (ds_files S') = open_fds (ds_files S))"
proof -
  note db = db_reachable_ok [OF assms(3)]
  have worked: "\<exists>S'. dedupe_results E whole (S\<lparr>ds_files := st, ds_res := res\<rparr>) = Some S' \<and> (alloc_ok E \<longrightarrow> res_extents (ds_res S') = {}) \<and> open_fds (ds_files S') = open_fds st"
    if h: "fd_inv st" "tree_fits st res" "\<forall>g. card (res_extents res `` {g}) \<noteq> 1" for st res whole
  proof -
    let ?S = "S\<lparr>ds_files := st, ds_res := res\<rparr>"
    obtain S' where S': "dedupe_results E whole ?S = Some S'" "ds_files S' = st"
        "alloc_ok E \<longrightarrow> res_extents (ds_res S') = {(g, k) \<in> res_extents res. card (res_extents res `` {g}) < 2}"
      using dedupe_results_ok [OF assms(1), of ?S whole] h(1,2) assms(7) by auto
    then show ?thesis using groups_of_two [OF h(3)] by auto
  qed
  obtain st res where f: "dbfile_load_same_files mem True 0 seq db (ds_files S) init_results_tree = Some (0, st, res)" "fd_inv st"
      "open_fds st = open_fds (ds_files S)" "tree_fits st res" "\<forall>g. card (res_extents res `` {g}) \<noteq> 1"
    using load_files_fits [OF db(1) assms(4,2,5,6), of seq] by blast
  obtain st' res' where e: "dbfile_load_extent_hashes mem True (\<lambda>_. 0) 0 seq db (ds_files S) init_results_tree = Some (0, st', res')" "fd_inv st'"
      "open_fds st' = open_fds (ds_files S)" "tree_fits st' res'" "\<forall>g. card (res_extents res' `` {g}) \<noteq> 1"
    using load_extents_fits [OF db assms(4,2,5,6), of seq] by blast
  show ?thesis using worked [OF f(2,4,5), of True] worked [OF e(2,4,5), of False] unfolding f(3) e(3) using f(1,5) e(1,5) by blast
qed

text \<open>
  C1. A run over all batches, with extents and whole files and with \<open>-d\<close>, over a hash file of less than 2^31 rows and batches
  whose files and extents that have a digest are not empty, smaller than 4 GiB and end below 2^64, and in
  which at most 120 of them share size and digest, ends without an abort, whatever files cannot be opened, whatever the kernel answers
  within its contract, and whether or not the allocations of the dedupe requests succeed: it goes
  through every batch up to the newest one, and the hash file says so afterwards, so that a
  second run finds nothing to do. The rows of files are at most deleted, the constraints of the tables hold, and
  no descriptor is left open. The statements and the allocations of the load succeed here, as does the
  allocation of the extent maps, which \<open>do_fiemap\<close> does not check.
\<close>

theorem process_duplicates_correct:
  assumes "run_ok R" "\<not> opt_do_block_hash opt" "opt_run_dedupe opt \<noteq> 0" "run_inv fds G" "rs_seq G \<le> get_max_dedupe_seq 0 (rs_db G)"
  shows "\<exists>G'. process_duplicates R opt bs G = Some G' \<and> rs_seq G' = get_max_dedupe_seq 0 (rs_db G) \<and> run_inv fds G' \<and>
    set (files (rs_db G')) \<subseteq> set (files (rs_db G)) \<and> process_duplicates R opt bs G' = Some G' \<and>
    (rs_seq G < get_max_dedupe_seq 0 (rs_db G) \<longrightarrow>
      get_config_int ''dedupe_sequence'' (rs_db G') 0 = sint (get_max_dedupe_seq 0 (rs_db G)))"
proof -
  let ?m = "get_max_dedupe_seq 0 (rs_db G)"
  have rc: "run_max_rc R = 0" using assms(1) by (simp add: run_ok_def)
  obtain G' where G': "process_batches R opt bs ?m (rs_seq G) G = Some G'" "run_inv fds G'" "rs_seq G' = ?m" "set (files (rs_db G')) \<subseteq> set (files (rs_db G))"
      "rs_seq G < ?m \<longrightarrow> (\<exists>db. rs_db G' = snd (dbfile_sync_config (\<lambda>_. 0) (run_unparse R) (rs_cfg G') db))"
      "rs_seq G < ?m \<longrightarrow> rs_cfg G' = (rs_cfg G)\<lparr>cfg_dedupe_seq := ?m, cfg_blocksize := bs\<rparr>"
    using process_batches_ok [OF assms(1-4) refl assms(5), of bs] by blast
  have "db_fits (rs_db G)" using assms(4) by (simp add: run_inv_def batch_inv_def)
  then have "\<not> rs_seq G' < get_max_dedupe_seq 0 (rs_db G')" using max_seq_mono [OF _ G'(4)] G'(3) by (simp add: not_less)
  then have "process_duplicates R opt bs G' = Some G'"
    unfolding process_duplicates_def rc by (subst process_batches.simps) simp
  moreover have "get_config_int ''dedupe_sequence'' (snd (dbfile_sync_config (\<lambda>_. 0) u cfg db)) 0 = sint (cfg_dedupe_seq cfg)" for u cfg db
    by (simp add: dbfile_sync_config_def config_rows_def get_config_int_def sync_config_lookup)
  ultimately show ?thesis using G' by (intro exI [of _ G']) (auto simp: process_duplicates_def rc)
qed

section \<open>An example\<close>

text \<open>Two equal files of one batch, the kernel of \<open>RunDedupe\<close>'s example, and calls that succeed.\<close>

definition example_run :: "(unit, u8 list) run_env" where
  "example_run = \<lparr>run_sys = example_sys, run_xxh = example_xxh3, run_mem = first_free, run_addr = (\<lambda>_. Some 5), run_room = True,
     run_rooms = (\<lambda>_. (True, True, True)), run_load_rc = (\<lambda>_. (0, 0, 0)), run_file_rc = (\<lambda>_. 0), run_op_rc = (\<lambda>_. 0), run_cfg_rc = (\<lambda>_. 0),
     run_unparse = (\<lambda>_. []), run_max_rc = 0, run_handle = True, run_extent_rc = (\<lambda>_ _. 0), run_extents_rc = (\<lambda>_. 0), run_row_room = (\<lambda>_. True),
     run_task_room = (\<lambda>_. True), run_push = (\<lambda>_. True)\<rparr>"

definition example_run_state :: "unit run_state" where
  "example_run_state = \<lparr>rs_db = example_db, rs_dedupe = (example_state init_results_tree)\<lparr>ds_files := no_filerecs\<rparr>, rs_seq = 0,
     rs_cfg = dbfile_config_defaults 4096\<rparr>"

lemma example_run_ok: "run_ok example_run" "search_ok example_run"
  using example_sys_ok(3) first_free_ok by (simp_all add: run_ok_def search_ok_def example_run_def)

lemma example_db_fits: "db_fits example_db"
  by (simp add: db_fits_def file_fits_def extent_fits_def file_key_def extent_key_def example_rows column_int64_def)

lemma no_filerecs_fd: "fd_inv no_filerecs"
  by (simp add: fd_inv_def no_filerecs_def)

theorem batch_worked_off_witness:
  "\<exists>st res S'. dbfile_load_same_files first_free True 0 1 example_db no_filerecs init_results_tree = Some (0, st, res) \<and>
      dedupe_results example_sys True ((example_state init_results_tree)\<lparr>ds_files := st, ds_res := res\<rparr>) = Some S' \<and> res_extents (ds_res S') = {}"
  using batch_worked_off [OF example_sys_ok(3) first_free_ok example_db_reachable example_db_fits,
      of "(example_state init_results_tree)\<lparr>ds_files := no_filerecs\<rparr>" 1] no_filerecs_inv no_filerecs_fd example_sys_ok(2) by auto

theorem process_duplicates_correct_witness:
  "\<exists>G'. process_duplicates example_run (default_options\<lparr>opt_run_dedupe := 1\<rparr>) 4096 example_run_state = Some G' \<and> rs_seq G' = 1 \<and>
     get_config_int ''dedupe_sequence'' (rs_db G') 0 = 1"
proof -
  have m: "get_max_dedupe_seq 0 (rs_db example_run_state) = 1"
    by (simp add: example_run_state_def get_max_dedupe_seq_def example_rows)
  have "run_inv {} example_run_state"
    using example_db_reachable example_db_fits no_filerecs_inv no_filerecs_fd
    by (simp add: run_inv_def batch_inv_def example_run_state_def example_state_def no_filerecs_def)
  from process_duplicates_correct [OF example_run_ok(1) _ _ this, of "default_options\<lparr>opt_run_dedupe := 1\<rparr>" 4096]
  show ?thesis unfolding m by (auto simp: default_options_def example_run_state_def)
qed

theorem find_additional_dedupe_correct_witness:
  "\<exists>tree st res'. size (tree_blocks tree) = 2 \<and>
     find_additional_dedupe example_run 4096 True example_db (tree, st) (filerec_head st) init_results_tree = Some (0, res')"
proof -
  have "hash_inv (init_hash_tree, no_filerecs)" by (rule hash_inv_init) (simp add: no_filerecs_def)
  then obtain tree st where t: "hash_inv (tree, st)" "filerecs_inv st"
      "image_mset block_key (tree_blocks tree) = image_mset (row_key st) (mset (get_duplicate_blocks 1 example_db))"
    using load_block_hashes_ok [OF first_free_ok, of "\<lambda>_. Some 5" no_filerecs example_db 1] no_filerecs_inv db_reachable_ok [OF example_db_reachable] example_lengths(3)
    by auto
  have n: "size (tree_blocks tree) = 2" using arg_cong [OF t(3), of size] example_lengths(3) by simp
  have "search_room tree init_results_tree"
    using card_tree_starts(2) [of tree] n init_results_inv(3) by (simp add: search_room_def)
  from find_additional_dedupe_correct [OF example_run_ok(2) t(1,2) init_results_inv(1) this, of 4096 True example_db] n show ?thesis by blast
qed

end
