(* ===== verification/Spec2Isabelle.thy ===== *)
theory Spec2Isabelle
  imports RbTree RbIndex KList ListSort Fiemap Filerec HashTree ResultsTree Dedupe Csum FindDupes RunDedupe Util FileScan Dbfile DbLoad ScanFiles Fdupes Pipeline Options FileLists SearchAll Duperemove
begin

text \<open>
  Duperemove finds equal extents of files and asks the kernel to share their storage. This
  development models the program (the C files under \<open>src/\<close>) from the data structures at the bottom
  to the run of its phases, and proves what each part promises to the next.

  \<^bold>\<open>The program.\<close> A run has three phases.
  \<^item> Scan. The paths on the command line are walked; a file that the hash file does not describe as it
    is on disk gets a row, and a pool of threads hashes its contents: one digest for the whole file,
    one per extent and, on request, one per block. All of it is stored in the hash file, a \<open>sqlite\<close>
    database. Files come in batches, numbered by \<open>dedupe_seq\<close>.
  \<^item> Load and search. For each batch that was not deduplicated yet, queries find the files, extents and
    blocks with a digest that occurs twice, one of them in the batch. Files and extents go to the
    results tree, blocks to the hash tree, and a search compares the blocks around equal blocks and
    adds longer runs of them to the results tree.
  \<^item> Dedupe. Each group of the results tree is handed to the kernel in requests of at most 120 ranges,
    and the hash file is updated with where the extents are now.

  \<^bold>\<open>Conventions.\<close> C integers are words of their width where wrap-around can be observed. A function that
  can abort the process, follow a NULL pointer, or wait for a lock its own thread holds returns an
  \<open>option\<close>, and \<open>None\<close> is that end; an error the code returns is a value. A theorem that a function
  returns therefore says that it is \<open>Some\<close>. Loops whose end is not evident are
  \<open>partial_function (option)\<close>; their theorems show that they end. Pointers to file records are
  addresses, since trees are ordered by them; the list heads of \<open>list.h\<close> are a heap of \<open>next\<close> and \<open>prev\<close>.

  \<^bold>\<open>The theories, from the bottom.\<close>
  \<^item> \<open>Prelude\<close>: widths, error numbers, \<open>memcmp\<close>, \<open>abort_on\<close>, lemmas on words and options.
  \<^item> \<open>RbTree\<close> (\<open>rbtree.c\<close>, \<open>rbtree.h\<close>, \<open>rbtree_augmented.h\<close>): insertion with rebalancing, erasure, first, last,
    next, prev. A place in a tree is a subtree and the path above it, which takes the place of the
    parent pointers. Shown: the red-black properties, the order of the entries, no step through NULL,
    the height, and the walk.
  \<^item> \<open>RbIndex\<close>: the loops all components write around \<open>rbtree.c\<close>. The locale \<open>keyed_index\<close> is the contract of
    an index by keys; \<open>rb_order\<close> is a comparison that orders keys, and the sublocale shows that the loops
    then keep the contract. It is interpreted for each of the seven trees of the program: files by id and
    opened files (\<open>Filerec\<close>), blocks by offset, heads by file and lists by hash (\<open>HashTree\<close>), extents
    and groups (\<open>ResultsTree\<close>). What those components do with a tree rests on these interpretations.
  \<^item> \<open>KList\<close> (\<open>list.h\<close>): every \<open>list_head\<close> operation on the heap, with what it makes of a ring of entries.
  \<^item> \<open>ListSort\<close> (\<open>list_sort.c\<close>): the bottom-up merge sort on the heap refines the same algorithm on lists,
    which sorts stably for every comparison of the locale \<open>list_cmp\<close>; interpreted for \<open>cmp_blocks\<close>.
  \<^item> \<open>Fiemap\<close> (\<open>fiemap.c\<close>): extent maps; which extent is found, how many bytes are shared.
  \<^item> \<open>Filerec\<close> (\<open>filerec.c\<close>): the table of files and their reference counted descriptors. The state is
    the record \<open>filerecs\<close>; \<open>filerecs_inv\<close> and \<open>fd_inv\<close> are its invariants. Shown: groups of opened files
    are closed exactly once.
  \<^item> \<open>HashTree\<close> (\<open>hash-tree.c\<close>): blocks by hash, with heads per file. \<open>hash_inv\<close> ties the trees, the lists and the
    counters of blocks together (not \<open>dl_num_files\<close>, which the code never decrements), every operation keeps it, and the effect of each is stated on the set of blocks.
  \<^item> \<open>ResultsTree\<close> (\<open>results-tree.c\<close>): groups of extents. \<open>res_inv\<close> is the invariant, \<open>res_extents\<close> the set of
    pairs of group and extent the tree stands for, on which the effect of each operation is stated.
  \<^item> \<open>Dedupe\<close> (\<open>dedupe.c\<close>): the queue of requests and the loop around the ioctl. Shown: it ends, keeps every
    request and completes them all.
  \<^item> \<open>Csum\<close> (\<open>csum.c\<close>), \<open>Util\<close> (\<open>util.c\<close>): checksums; sizes and numbers in text.
  \<^item> \<open>FindDupes\<close> (\<open>find_dupes.c\<close>): the search inside extents. \<open>matches\<close> is the walk over two sorted lists of
    blocks that \<open>compare_extents\<close> refines.
  \<^item> \<open>RunDedupe\<close>, \<open>Fdupes\<close> (\<open>run_dedupe.c\<close>): deduplicating the groups of the results tree, and the files of a
    list. Shown: no assertion fails, the groups are worked off, the descriptors are given back.
  \<^item> \<open>FileScan\<close> (second half of \<open>file_scan.c\<close>): hashing the contents of a file. Shown: what is stored is
    exactly the digests of the contents, its blocks and its extents, whatever short reads there are.
  \<^item> \<open>Dbfile\<close> (\<open>dbfile.c\<close>): the tables, every statement that changes them, transactions, opening. \<open>db_step\<close> is
    the step relation of the calls, \<open>db_reachable\<close> the states they lead to, \<open>db_inv\<close> the constraints, \<open>rows_ok\<close> what else holds of the rows.
    \<open>compatible\<close> says which hash files are kept when they are opened.
  \<^item> \<open>DbLoad\<close> (\<open>dbfile.c\<close>): the queries and the functions that load their rows. The sets \<open>file_dups\<close>,
    \<open>extent_dups\<close> and \<open>block_dups\<close> say what should be loaded, and the loads are shown to give just that.
  \<^item> \<open>ScanFiles\<close> (first half of \<open>file_scan.c\<close>, \<open>btrfs-util.c\<close>): which files are taken, the walk through the
    directories, and the transaction that prepares a file for hashing.
  \<^item> \<open>Pipeline\<close>: hashing, storing and loading together, from equal contents to a group.
  \<^item> \<open>Options\<close> (\<open>opt.c\<close>, \<open>duperemove.c\<close>): the command line, from the options \<open>getopt_long\<close> returns. The record \<open>prog\<close>
    is the state the program keeps in global variables. Shown: what is accepted is a sane configuration.
  \<^item> \<open>FileLists\<close> (\<open>duperemove.c\<close>): lists of files on standard input and the command line, groups of equal
    files, listing and removing the files of a hash file.
  \<^item> \<open>SearchAll\<close>: the search of \<open>FindDupes\<close> over all extents of a file, with the set of what it finds.
  \<^item> \<open>Duperemove\<close> (\<open>duperemove.c\<close>, \<open>find_dupes.c\<close>): the batches. What the loads put into the results tree meets the
    preconditions of the dedupe phase, so that a run over all batches ends and is recorded in the hash file.

  \<^bold>\<open>Code outside.\<close> The kernel, \<open>sqlite\<close>, XXH3, libmount, blkid, GLib, \<open>getopt_long\<close> and the allocator are parameters: records of
  the answers they would give (\<open>sys\<close>, \<open>scan_sys\<close>, \<open>scan_env\<close>, \<open>prep_env\<close>, \<open>xxh3\<close>) or single arguments. What the code relies on
  is a named hypothesis: \<open>kernel_ok\<close> (an ioctl that succeeds keeps the length and the number of destinations, and
  advances all destinations that have no error by the same number of bytes, at least one and at most what was asked
  for), \<open>sys_ok\<close> (that, a block size that is a power of two, fresh descriptors, well formed extent maps),
  \<open>dedupe_sys_ok\<close> (that, and memory for the extent maps, whose \<open>calloc\<close> in \<open>do_fiemap\<close> is not checked), \<open>pread_ok\<close> (reads return
  a part of the contents), \<open>xxh3_ok\<close> (the hash of a stream is that of its bytes), \<open>mem_ok\<close> (the
  allocator gives fresh addresses), \<open>scan_env_ok\<close> (fresh row ids, renaming a row works, memory for
  queue entries, paths within \<open>PATH_MAX\<close>), \<open>uuids_ok\<close> (btrfs and XFS have uuids that can be parsed and are not null),
  \<open>prep_ok\<close> (the calls on a hash file on disk succeed), \<open>run_ok\<close> and \<open>search_ok\<close> (the statements and allocations of the
  loads and of the search succeed). Each property with such a hypothesis has a
  witness with concrete functions. Where an allocation can fail the model has an argument
  that says whether it does (such as \<open>fiemap_room\<close>, \<open>csum_room\<close>, \<open>map_room\<close>, \<open>env_task_room\<close>), also where the code does
  not look at the result, which then is \<open>None\<close>. Failing allocations, files that do not open, errors of statements and
  of the ioctl are excluded only where a theorem says so (by one of these hypotheses, by \<open>alloc_ok\<close>, or by a code of 0).

  \<^bold>\<open>Bounds.\<close> The dedupe phase is shown correct for groups of at most 120 extents of less than 4 GiB: with
  more, the code can reach its own assertion, and longer lengths lose their upper half in
  \<open>set_aligned_same_length\<close>; \<open>db_fits\<close> says the same of the rows of a hash file. The buffer of the scan is shorter than 2 GiB, as its length is passed in an
  \<open>unsigned int\<close>. Counters of 32 bits bound the rows of a load by \<open>2^31\<close>. Fuel is used once, in \<open>dbfile_prepare\<close>, where 3
  is shown to be enough; \<open>walk_dir\<close> ends because paths are no longer than \<open>PATH_MAX\<close>.

  \<^bold>\<open>Threads.\<close> The workers of a pool run one after the other here. The dedupe workers share the results
  tree only under its mutex, and each of them works on a group of its own.

  \<^bold>\<open>Not modelled.\<close> The function \<open>main\<close>, which calls the phases one after the other; output (progress bars, tables of duplicates, statistics, debug messages), the thread pools
  of GLib behind \<open>threads.c\<close>, the counters of \<open>memstats.c\<close>, stack traces and timers of \<open>util.c\<close>, the self test of
  \<open>list_sort.c\<close>, the unit tests, and the programs \<open>btrfs-extent-same\<close> and \<open>csum-test\<close>, which are a
  single ioctl or hash on their arguments. The kernel headers only declare.
\<close>

end
